(* ===== verification/Prelude.thy ===== *)
theory Prelude
  imports Main "HOL-Library.Word" "HOL-Library.Monad_Syntax"
begin

text \<open>
  Shared vocabulary of the development: machine addresses, the generic predicate \<open>chain\<close> for
  singly linked structures, C strings, and the lemmas on chains, options and lists that the component
  theories use.

  The library links its thread descriptors in three ways, all of them instances of \<open>chain\<close>: the
  waiting queues of mutexes and conditions end in NULL, the waiting list of a semaphore ends in the
  tag 1, and the ring of live threads ends where it started, at the main thread. The end marker is
  therefore a parameter.
\<close>

type_synonym addr = "32 word"
type_synonym lockword = "32 word"

abbreviation NULL :: addr where "NULL \<equiv> 0"

named_theorems field_defs \<open>definitions of the accessors that update one stored object\<close>

section \<open>Linked chains\<close>

text \<open>
  \<open>chain nxt stop p xs\<close>: following \<open>nxt\<close> from \<open>p\<close> visits exactly the nodes \<open>xs\<close>, in that order,
  and then arrives at \<open>stop\<close>.
\<close>

primrec chain :: "('a \<Rightarrow> 'a) \<Rightarrow> 'a \<Rightarrow> 'a \<Rightarrow> 'a list \<Rightarrow> bool" where
  "chain nxt stop p [] \<longleftrightarrow> p = stop"
| "chain nxt stop p (x # xs) \<longleftrightarrow> p = x \<and> x \<noteq> stop \<and> chain nxt stop (nxt x) xs"

lemma chain_stop [simp]: "chain nxt stop stop xs \<longleftrightarrow> xs = []"
  by (cases xs) auto

lemma chain_not_stop: "p \<noteq> stop \<Longrightarrow> chain nxt stop p xs \<longleftrightarrow> (\<exists>ys. xs = p # ys \<and> chain nxt stop (nxt p) ys)"
  by (cases xs) auto

lemma chain_cong: "(\<And>x. x \<in> set xs \<Longrightarrow> f x = g x) \<Longrightarrow> chain f stop p xs = chain g stop p xs"
  by (induction xs arbitrary: p) auto

lemma chain_upd [simp]: "a \<notin> set xs \<Longrightarrow> chain (f(a := v)) stop p xs = chain f stop p xs"
  by (rule chain_cong) auto

lemma chain_not_mem_stop: "chain nxt stop p xs \<Longrightarrow> stop \<notin> set xs"
  by (induction xs arbitrary: p) auto

lemma chain_unique: "chain nxt stop p xs \<Longrightarrow> chain nxt stop p ys \<Longrightarrow> xs = ys"
proof (induction xs arbitrary: p ys)
  case Nil
  then show ?case by simp
next
  case (Cons x xs)
  then show ?case by (cases ys) auto
qed

lemma chain_suffix: "chain nxt stop p (xs @ x # ys) \<Longrightarrow> chain nxt stop (nxt x) ys"
  by (induction xs arbitrary: p) auto

lemma chain_suffix_at: "chain nxt stop p (xs @ x # ys) \<Longrightarrow> chain nxt stop x (x # ys)"
  by (induction xs arbitrary: p) auto

lemma chain_distinct: "chain nxt stop p xs \<Longrightarrow> distinct xs"
proof (induction xs arbitrary: p)
  case Nil
  then show ?case by simp
next
  case (Cons x xs)
  then have tl: "chain nxt stop (nxt x) xs" by simp
  moreover have "x \<notin> set xs"
  proof
    assume "x \<in> set xs"
    then obtain as bs where xs: "xs = as @ x # bs" by (auto simp: in_set_conv_decomp)
    with tl have "chain nxt stop (nxt x) bs" by (auto dest: chain_suffix)
    with tl have "xs = bs" by (rule chain_unique)
    with xs show False by auto
  qed
  ultimately show ?case using Cons.IH by auto
qed

text \<open>The link out of a node of a chain leads to its successor, or to the end marker.\<close>

lemma chain_next: "chain nxt stop p (xs @ [x]) \<Longrightarrow> nxt x = stop"
  by (drule chain_suffix) simp

lemma chain_next_Cons: "chain nxt stop p (xs @ x # y # ys) \<Longrightarrow> nxt x = y"
  by (drule chain_suffix) simp

lemma chain_head: "chain nxt stop p xs \<Longrightarrow> p = (if xs = [] then stop else hd xs)"
  by (cases xs) auto

text \<open>Appending at the end: the last link is redirected to a fresh node.\<close>

lemma chain_append_node:
  assumes "chain f stop p xs" and "xs \<noteq> []" and "a \<noteq> stop"
    and "g (last xs) = a" and "g a = stop" and "\<And>b. b \<in> set (butlast xs) \<Longrightarrow> g b = f b"
  shows "chain g stop p (xs @ [a])"
  using assms
proof (induction xs arbitrary: p)
  case Nil
  then show ?case by simp
next
  case (Cons x xs)
  show ?case
  proof (cases "xs = []")
    case True
    with Cons.prems show ?thesis by auto
  next
    case False
    with Cons.prems have "chain g stop (f x) (xs @ [a])"
      by (intro Cons.IH) auto
    moreover have "g x = f x" using False Cons.prems(6) by simp
    ultimately show ?thesis using Cons.prems(1) by simp
  qed
qed

text \<open>Unlinking an inner node: its predecessor is redirected to its successor.\<close>

text \<open>Cutting the links behind a node.\<close>

lemma chain_cut:
  assumes "chain f stop p (xs @ x # ys)" and "g x = stop" and "\<And>b. b \<in> set xs \<Longrightarrow> g b = f b"
  shows "chain g stop p (xs @ [x])"
  using assms by (induction xs arbitrary: p) auto

lemma chain_unlink:
  assumes "chain f stop p (xs @ y # x # zs)"
    and "g y = f x" and "\<And>b. b \<in> set xs \<union> set zs \<Longrightarrow> g b = f b"
  shows "chain g stop p (xs @ y # zs)"
  using assms
proof (induction xs arbitrary: p)
  case Nil
  then have "chain f stop (f x) zs" and "p = y" and "y \<noteq> stop" by auto
  moreover have "chain g stop (f x) zs = chain f stop (f x) zs"
    using Nil.prems(3) by (intro chain_cong) auto
  ultimately show ?case using Nil.prems(2) by simp
next
  case (Cons a xs)
  then have "chain g stop (f a) (xs @ y # zs)" by (intro Cons.IH) auto
  with Cons.prems show ?case by simp
qed

section \<open>Exclusive control points\<close>

text \<open>
  \<open>excl P ctl x\<close>: the threads whose control point satisfies \<open>P\<close> are exactly the one in \<open>x\<close>. This is
  the shape of every mutual exclusion invariant of the development.
\<close>

definition excl :: "('p \<Rightarrow> bool) \<Rightarrow> ('t \<Rightarrow> 'p) \<Rightarrow> 't option \<Rightarrow> bool" where
  "excl P ctl x \<longleftrightarrow> (\<forall>t. P (ctl t) \<longleftrightarrow> x = Some t)"

lemma excl_same: "excl P ctl x \<Longrightarrow> P c = P (ctl t) \<Longrightarrow> excl P (ctl(t := c)) x"
  by (auto simp: excl_def)

lemma excl_take: "excl P ctl None \<Longrightarrow> P c \<Longrightarrow> excl P (ctl(t := c)) (Some t)"
  by (auto simp: excl_def)

lemma excl_drop: "excl P ctl x \<Longrightarrow> P (ctl t) \<Longrightarrow> \<not> P c \<Longrightarrow> excl P (ctl(t := c)) None"
  by (auto simp: excl_def)

lemma excl_unique: "excl P ctl x \<Longrightarrow> P (ctl t) \<Longrightarrow> P (ctl u) \<Longrightarrow> t = u"
  by (auto simp: excl_def)

lemmas excl_upd = excl_same excl_take excl_drop

section \<open>Lists\<close>

lemma remove1_middle: "x \<notin> set xs \<Longrightarrow> remove1 x (xs @ x # ys) = xs @ ys"
  by (simp add: remove1_append)

lemma filter_neq_middle:
  "distinct (xs @ x # ys) \<Longrightarrow> filter (\<lambda>y. y \<noteq> x) (xs @ x # ys) = xs @ ys"
  by (auto simp: filter_id_conv intro!: arg_cong2 [where f = append])

lemma list_all_updateI: "list_all P xs \<Longrightarrow> P v \<Longrightarrow> list_all P (xs[i := v])"
  by (auto simp: list_all_iff dest: set_update_subset_insert [THEN subsetD])

section \<open>Buffers and strings of C\<close>

text \<open>
  What an access to a buffer gives: a result, or \<open>Smashed\<close> if it goes past the end of the buffer. A C string
  ends before the first zero byte.
\<close>

datatype 'a mem = Fine 'a | Smashed

definition c_str :: "string \<Rightarrow> string" where
  "c_str = takeWhile (\<lambda>c. c \<noteq> CHR 0x00)"

lemma c_str_id: "CHR 0x00 \<notin> set l \<Longrightarrow> c_str l = l"
  by (auto simp: c_str_def takeWhile_eq_all_conv)

lemma c_str_append: "CHR 0x00 \<notin> set l \<Longrightarrow> c_str (l @ CHR 0x00 # r) = l"
  unfolding c_str_def by (subst takeWhile_append2) auto

lemma c_str_no_zero: "CHR 0x00 \<notin> set (c_str l)"
  by (auto simp: c_str_def dest: set_takeWhileD)

end
