(* ===== verification/Pthread_Types.thy ===== *)
theory Pthread_Types
  imports Prelude
begin

text \<open>
  The data of the library, from \<open>sysdeps/pthread/pthread.h\<close>, \<open>internals.h\<close> and the static
  variables of the C files: thread descriptors, waiting queues, mutexes, conditions, attributes,
  cleanup buffers, requests to the thread manager, and the record \<open>st\<close> of the address space that all
  threads share.

  Conventions. The platform is Linux on i386 (ILP32): a pointer and a \<open>long\<close> are 32-bit words, and
  NULL is the word 0. Function pointers and \<open>void *\<close> values are addresses. A \<open>char\<close> field that only
  ever holds 0 or 1 is a \<open>bool\<close>; other C integers are \<open>int\<close>, except where a property depends on their
  width. The descriptors of all threads form one heap \<open>descr\<close>, so that two pointers to the same
  thread alias. Requests of the library to the kernel that other parties can observe (signals sent,
  mappings removed, file descriptors closed, scheduling calls, calls of user functions) are appended
  to the log \<open>klog\<close> in program order.
\<close>

section \<open>Constants\<close>

definition EINTR :: int where [simp]: "EINTR = 4"
definition EAGAIN :: int where [simp]: "EAGAIN = 11"
definition ENOMEM :: int where [simp]: "ENOMEM = 12"
definition EBUSY :: int where [simp]: "EBUSY = 16"
definition EINVAL :: int where [simp]: "EINVAL = 22"
definition ERANGE :: int where [simp]: "ERANGE = 34"
definition EDEADLK :: int where [simp]: "EDEADLK = 35"
definition ENOSYS :: int where [simp]: "ENOSYS = 38"
definition ENOTSUP :: int where [simp]: "ENOTSUP = 95"
definition ETIMEDOUT :: int where [simp]: "ETIMEDOUT = 110"

definition SIGKILL :: nat where [simp]: "SIGKILL = 9"
definition SIGUSR1 :: nat where [simp]: "SIGUSR1 = 10"
definition SIGUSR2 :: nat where [simp]: "SIGUSR2 = 12"

definition PTHREAD_SIG_RESTART :: nat where [simp]: "PTHREAD_SIG_RESTART = SIGUSR1"
definition PTHREAD_SIG_CANCEL :: nat where [simp]: "PTHREAD_SIG_CANCEL = SIGUSR2"

definition SCHED_OTHER :: int where [simp]: "SCHED_OTHER = 0"
definition SCHED_FIFO :: int where [simp]: "SCHED_FIFO = 1"
definition SCHED_RR :: int where [simp]: "SCHED_RR = 2"

definition PTHREAD_CREATE_JOINABLE :: int where [simp]: "PTHREAD_CREATE_JOINABLE = 0"
definition PTHREAD_CREATE_DETACHED :: int where [simp]: "PTHREAD_CREATE_DETACHED = 1"
definition PTHREAD_INHERIT_SCHED :: int where [simp]: "PTHREAD_INHERIT_SCHED = 0"
definition PTHREAD_EXPLICIT_SCHED :: int where [simp]: "PTHREAD_EXPLICIT_SCHED = 1"
definition PTHREAD_SCOPE_SYSTEM :: int where [simp]: "PTHREAD_SCOPE_SYSTEM = 0"
definition PTHREAD_SCOPE_PROCESS :: int where [simp]: "PTHREAD_SCOPE_PROCESS = 1"
definition PTHREAD_MUTEX_FAST_NP :: int where [simp]: "PTHREAD_MUTEX_FAST_NP = 0"
definition PTHREAD_MUTEX_RECURSIVE_NP :: int where [simp]: "PTHREAD_MUTEX_RECURSIVE_NP = 1"
definition PTHREAD_CANCEL_ENABLE :: int where [simp]: "PTHREAD_CANCEL_ENABLE = 0"
definition PTHREAD_CANCEL_DISABLE :: int where [simp]: "PTHREAD_CANCEL_DISABLE = 1"
definition PTHREAD_CANCEL_DEFERRED :: int where [simp]: "PTHREAD_CANCEL_DEFERRED = 0"
definition PTHREAD_CANCEL_ASYNCHRONOUS :: int where [simp]: "PTHREAD_CANCEL_ASYNCHRONOUS = 1"
definition PTHREAD_ONCE_INIT :: int where [simp]: "PTHREAD_ONCE_INIT = 0"

text \<open>\<open>PTHREAD_CANCELED\<close> is \<open>((void *) -1)\<close>.\<close>

definition PTHREAD_CANCELED :: addr where [simp]: "PTHREAD_CANCELED = - 1"

definition PTHREAD_KEYS_MAX :: nat where [simp]: "PTHREAD_KEYS_MAX = 128"

definition STACK_SIZE :: nat where [simp]: "STACK_SIZE = 2 * 1024 * 1024"

section \<open>Objects\<close>

type_synonym pthread_t = addr
type_synonym sigset = "nat set"

record pthread_queue =
  head :: pthread_t
  tail :: pthread_t

record pthread_mutex_t =
  m_spinlock :: lockword
  m_count :: int
  m_owner :: pthread_t
  m_kind :: int
  m_waiting :: pthread_queue

record pthread_cond_t =
  c_spinlock :: lockword
  c_waiting :: pthread_queue

record pthread_attr_t =
  detachstate :: int
  schedpolicy :: int
  sched_priority :: int
  inheritsched :: int
  scope :: int

record pthread_mutexattr_t =
  mutexkind :: int

record pthread_cleanup_buffer =
  routine :: addr
  cb_arg :: addr
  cb_canceltype :: int
  prev :: addr

definition PTHREAD_MUTEX_INITIALIZER :: pthread_mutex_t where
  "PTHREAD_MUTEX_INITIALIZER =
     \<lparr>m_spinlock = 0, m_count = 0, m_owner = NULL, m_kind = PTHREAD_MUTEX_FAST_NP,
      m_waiting = \<lparr>head = NULL, tail = NULL\<rparr>\<rparr>"

definition PTHREAD_RECURSIVE_MUTEX_INITIALIZER_NP :: pthread_mutex_t where
  "PTHREAD_RECURSIVE_MUTEX_INITIALIZER_NP =
     \<lparr>m_spinlock = 0, m_count = 0, m_owner = NULL, m_kind = PTHREAD_MUTEX_RECURSIVE_NP,
      m_waiting = \<lparr>head = NULL, tail = NULL\<rparr>\<rparr>"

definition PTHREAD_COND_INITIALIZER :: pthread_cond_t where
  "PTHREAD_COND_INITIALIZER = \<lparr>c_spinlock = 0, c_waiting = \<lparr>head = NULL, tail = NULL\<rparr>\<rparr>"

text \<open>
  Thread descriptors. The two \<open>sigjmp_buf *\<close> fields only ever point to a buffer in the frame of the
  function that set them, or are NULL; they are kept as booleans (set or NULL).
\<close>

record pthread_descr =
  p_nextlive :: pthread_t
  p_prevlive :: pthread_t
  p_nextwaiting :: pthread_t
  p_pid :: int
  p_spinlock :: lockword
  p_signal :: nat
  p_signal_jmp :: bool
  p_cancel_jmp :: bool
  p_terminated :: bool
  p_detached :: int
  p_exited :: bool
  p_retval :: addr
  p_retcode :: int
  p_joining :: pthread_t
  p_cleanup :: addr
  p_cancelstate :: int
  p_canceltype :: int
  p_canceled :: bool
  p_errno :: int
  p_h_errno :: int
  p_initial_fn :: addr
  p_initial_fn_arg :: addr
  p_initial_mask :: sigset
  p_specific :: "addr list"

type_synonym heap = "addr \<Rightarrow> pthread_descr"

text \<open>
  Messages to the thread manager. The kind and the union of arguments are one datatype. The
  attributes of a creation request are carried by value (\<open>None\<close> for a NULL pointer): the requesting
  thread is suspended until the manager has answered.
\<close>

datatype req_kind =
    REQ_CREATE "pthread_attr_t option" addr addr sigset
  | REQ_FREE pthread_t
  | REQ_PROCESS_EXIT int
  | REQ_MAIN_THREAD_EXIT

record pthread_request =
  req_thread :: pthread_t
  req_kind :: req_kind

record pthread_key_struct =
  in_use :: bool
  destr :: addr

record sem_t =
  sem_status :: "32 word"
  sem_spinlock :: lockword

record handler_list =
  handler :: addr
  hl_next :: addr

section \<open>The shared address space\<close>

datatype kevent =
    Kill int nat                 \<comment> \<open>\<open>kill(pid, sig)\<close>\<close>
  | Munmap addr nat              \<comment> \<open>\<open>munmap(start, length)\<close>\<close>
  | Setscheduler int int int     \<comment> \<open>\<open>sched_setscheduler(pid, policy, priority)\<close>\<close>
  | Close int                    \<comment> \<open>\<open>close(fd)\<close>\<close>
  | Free addr                    \<comment> \<open>\<open>free(p)\<close>\<close>
  | On_exit                      \<comment> \<open>registration of \<open>pthread_exit_process\<close> with \<open>__on_exit\<close>\<close>
  | Call addr addr               \<comment> \<open>call of a user function with its argument\<close>

text \<open>
  Handlers of signals: the default action, the two handlers of the library, or a function of the
  program.
\<close>

datatype sa_handler = SA_default | SA_sighandler | SA_sigcancel | SA_user addr

record st =
  descr :: heap
  mutexes :: "addr \<Rightarrow> pthread_mutex_t"
  conds :: "addr \<Rightarrow> pthread_cond_t"
  sems :: "addr \<Rightarrow> sem_t"
  cleanup_bufs :: "addr \<Rightarrow> pthread_cleanup_buffer"
  pthread_keys :: "pthread_key_struct list"
  pthread_keys_mutex :: addr
  handlers :: "addr \<Rightarrow> handler_list"
  pthread_atfork_prepare :: addr
  pthread_atfork_parent :: addr
  pthread_atfork_child :: addr
  pthread_atfork_lock :: addr
  initial_thread :: pthread_t
  manager_thread :: pthread_t
  main_thread :: pthread_t
  initial_thread_bos :: addr
  manager_thread_bos :: addr
  manager_thread_tos :: addr
  manager_request :: int
  manager_reader :: int
  exit_requested :: bool
  exit_code :: int
  stack_segments :: "bool list"
  num_stack_segments :: nat
  terminated_children :: bool
  main_thread_exiting :: bool
  sigmask :: "pthread_t \<Rightarrow> sigset"
  sighandlers :: "nat \<Rightarrow> sa_handler"
  reqs :: "pthread_request list"
  klog :: "kevent list"

text \<open>Static storage starts out as zeroes.\<close>

definition zero_descr :: pthread_descr where
  "zero_descr =
     \<lparr>p_nextlive = NULL, p_prevlive = NULL, p_nextwaiting = NULL, p_pid = 0, p_spinlock = 0,
      p_signal = 0, p_signal_jmp = False, p_cancel_jmp = False, p_terminated = False,
      p_detached = 0, p_exited = False, p_retval = NULL, p_retcode = 0, p_joining = NULL,
      p_cleanup = NULL, p_cancelstate = 0, p_canceltype = 0, p_canceled = False, p_errno = 0,
      p_h_errno = 0, p_initial_fn = NULL, p_initial_fn_arg = NULL, p_initial_mask = {},
      p_specific = replicate PTHREAD_KEYS_MAX NULL\<rparr>"

definition zero_st :: st where
  "zero_st =
     \<lparr>descr = (\<lambda>_. zero_descr), mutexes = (\<lambda>_. PTHREAD_MUTEX_INITIALIZER),
      conds = (\<lambda>_. PTHREAD_COND_INITIALIZER), sems = (\<lambda>_. \<lparr>sem_status = 0, sem_spinlock = 0\<rparr>),
      cleanup_bufs = (\<lambda>_. \<lparr>routine = NULL, cb_arg = NULL, cb_canceltype = 0, prev = NULL\<rparr>),
      pthread_keys = replicate PTHREAD_KEYS_MAX \<lparr>in_use = False, destr = NULL\<rparr>,
      pthread_keys_mutex = NULL, handlers = (\<lambda>_. \<lparr>handler = NULL, hl_next = NULL\<rparr>),
      pthread_atfork_prepare = NULL, pthread_atfork_parent = NULL, pthread_atfork_child = NULL,
      pthread_atfork_lock = NULL, initial_thread = NULL, manager_thread = NULL, main_thread = NULL,
      initial_thread_bos = NULL, manager_thread_bos = NULL, manager_thread_tos = NULL,
      manager_request = 0, manager_reader = 0, exit_requested = False, exit_code = 0,
      stack_segments = [], num_stack_segments = 0, terminated_children = False,
      main_thread_exiting = False, sigmask = (\<lambda>_. {}),
      sighandlers = (\<lambda>_. SA_default), reqs = [], klog = []\<rparr>"

text \<open>Assignments through pointers: one stored object changes, every other object stays.\<close>

definition upd_th :: "pthread_t \<Rightarrow> (pthread_descr \<Rightarrow> pthread_descr) \<Rightarrow> st \<Rightarrow> st" where
  [field_defs]: "upd_th t f s = s\<lparr>descr := (descr s)(t := f (descr s t))\<rparr>"

definition upd_mutex :: "addr \<Rightarrow> (pthread_mutex_t \<Rightarrow> pthread_mutex_t) \<Rightarrow> st \<Rightarrow> st" where
  [field_defs]: "upd_mutex m f s = s\<lparr>mutexes := (mutexes s)(m := f (mutexes s m))\<rparr>"

definition upd_cond :: "addr \<Rightarrow> (pthread_cond_t \<Rightarrow> pthread_cond_t) \<Rightarrow> st \<Rightarrow> st" where
  [field_defs]: "upd_cond c f s = s\<lparr>conds := (conds s)(c := f (conds s c))\<rparr>"

definition upd_sem :: "addr \<Rightarrow> (sem_t \<Rightarrow> sem_t) \<Rightarrow> st \<Rightarrow> st" where
  [field_defs]: "upd_sem a f s = s\<lparr>sems := (sems s)(a := f (sems s a))\<rparr>"

definition log :: "kevent \<Rightarrow> st \<Rightarrow> st" where
  [field_defs]: "log e s = s\<lparr>klog := klog s @ [e]\<rparr>"

text \<open>\<open>errno\<close> is the field \<open>p_errno\<close> of the calling thread (\<open>errno.c\<close>).\<close>

definition errno_location :: "pthread_t \<Rightarrow> st \<Rightarrow> int" where
  "errno_location self s = p_errno (descr s self)"

definition h_errno_location :: "pthread_t \<Rightarrow> st \<Rightarrow> int" where
  "h_errno_location self s = p_h_errno (descr s self)"

definition set_errno :: "pthread_t \<Rightarrow> int \<Rightarrow> st \<Rightarrow> st" where
  [field_defs]: "set_errno self e s = upd_th self (p_errno_update (\<lambda>_. e)) s"

section \<open>Accessors\<close>

text \<open>What each assignment changes of the shared address space, and what it leaves alone.\<close>

lemma upd_th_simps [simp]:
  "descr (upd_th t f s) = (descr s)(t := f (descr s t))" "mutexes (upd_th t f s) = mutexes s"
  "conds (upd_th t f s) = conds s" "sems (upd_th t f s) = sems s"
  "cleanup_bufs (upd_th t f s) = cleanup_bufs s" "pthread_keys (upd_th t f s) = pthread_keys s"
  "pthread_keys_mutex (upd_th t f s) = pthread_keys_mutex s" "handlers (upd_th t f s) = handlers s"
  "pthread_atfork_prepare (upd_th t f s) = pthread_atfork_prepare s"
  "pthread_atfork_parent (upd_th t f s) = pthread_atfork_parent s"
  "pthread_atfork_child (upd_th t f s) = pthread_atfork_child s"
  "pthread_atfork_lock (upd_th t f s) = pthread_atfork_lock s"
  "initial_thread (upd_th t f s) = initial_thread s"
  "manager_thread (upd_th t f s) = manager_thread s" "main_thread (upd_th t f s) = main_thread s"
  "initial_thread_bos (upd_th t f s) = initial_thread_bos s"
  "manager_thread_bos (upd_th t f s) = manager_thread_bos s"
  "manager_thread_tos (upd_th t f s) = manager_thread_tos s"
  "manager_request (upd_th t f s) = manager_request s"
  "manager_reader (upd_th t f s) = manager_reader s"
  "exit_requested (upd_th t f s) = exit_requested s" "exit_code (upd_th t f s) = exit_code s"
  "stack_segments (upd_th t f s) = stack_segments s"
  "num_stack_segments (upd_th t f s) = num_stack_segments s"
  "terminated_children (upd_th t f s) = terminated_children s"
  "main_thread_exiting (upd_th t f s) = main_thread_exiting s" "sigmask (upd_th t f s) = sigmask s"
  "reqs (upd_th t f s) = reqs s" "sighandlers (upd_th t f s) = sighandlers s" "klog (upd_th t f s) = klog s"
  by (simp_all add: upd_th_def)

lemma upd_mutex_simps [simp]:
  "descr (upd_mutex mu f s) = descr s"
  "mutexes (upd_mutex mu f s) = (mutexes s)(mu := f (mutexes s mu))"
  "conds (upd_mutex mu f s) = conds s" "sems (upd_mutex mu f s) = sems s"
  "cleanup_bufs (upd_mutex mu f s) = cleanup_bufs s"
  "pthread_keys (upd_mutex mu f s) = pthread_keys s"
  "pthread_keys_mutex (upd_mutex mu f s) = pthread_keys_mutex s"
  "handlers (upd_mutex mu f s) = handlers s"
  "pthread_atfork_prepare (upd_mutex mu f s) = pthread_atfork_prepare s"
  "pthread_atfork_parent (upd_mutex mu f s) = pthread_atfork_parent s"
  "pthread_atfork_child (upd_mutex mu f s) = pthread_atfork_child s"
  "pthread_atfork_lock (upd_mutex mu f s) = pthread_atfork_lock s"
  "initial_thread (upd_mutex mu f s) = initial_thread s"
  "manager_thread (upd_mutex mu f s) = manager_thread s"
  "main_thread (upd_mutex mu f s) = main_thread s"
  "initial_thread_bos (upd_mutex mu f s) = initial_thread_bos s"
  "manager_thread_bos (upd_mutex mu f s) = manager_thread_bos s"
  "manager_thread_tos (upd_mutex mu f s) = manager_thread_tos s"
  "manager_request (upd_mutex mu f s) = manager_request s"
  "manager_reader (upd_mutex mu f s) = manager_reader s"
  "exit_requested (upd_mutex mu f s) = exit_requested s"
  "exit_code (upd_mutex mu f s) = exit_code s"
  "stack_segments (upd_mutex mu f s) = stack_segments s"
  "num_stack_segments (upd_mutex mu f s) = num_stack_segments s"
  "terminated_children (upd_mutex mu f s) = terminated_children s"
  "main_thread_exiting (upd_mutex mu f s) = main_thread_exiting s"
  "sigmask (upd_mutex mu f s) = sigmask s" "reqs (upd_mutex mu f s) = reqs s" "sighandlers (upd_mutex mu f s) = sighandlers s"
  "klog (upd_mutex mu f s) = klog s"
  by (simp_all add: upd_mutex_def)

lemma upd_cond_simps [simp]:
  "descr (upd_cond c f s) = descr s" "mutexes (upd_cond c f s) = mutexes s"
  "conds (upd_cond c f s) = (conds s)(c := f (conds s c))" "sems (upd_cond c f s) = sems s"
  "cleanup_bufs (upd_cond c f s) = cleanup_bufs s" "pthread_keys (upd_cond c f s) = pthread_keys s"
  "pthread_keys_mutex (upd_cond c f s) = pthread_keys_mutex s"
  "handlers (upd_cond c f s) = handlers s"
  "pthread_atfork_prepare (upd_cond c f s) = pthread_atfork_prepare s"
  "pthread_atfork_parent (upd_cond c f s) = pthread_atfork_parent s"
  "pthread_atfork_child (upd_cond c f s) = pthread_atfork_child s"
  "pthread_atfork_lock (upd_cond c f s) = pthread_atfork_lock s"
  "initial_thread (upd_cond c f s) = initial_thread s"
  "manager_thread (upd_cond c f s) = manager_thread s"
  "main_thread (upd_cond c f s) = main_thread s"
  "initial_thread_bos (upd_cond c f s) = initial_thread_bos s"
  "manager_thread_bos (upd_cond c f s) = manager_thread_bos s"
  "manager_thread_tos (upd_cond c f s) = manager_thread_tos s"
  "manager_request (upd_cond c f s) = manager_request s"
  "manager_reader (upd_cond c f s) = manager_reader s"
  "exit_requested (upd_cond c f s) = exit_requested s" "exit_code (upd_cond c f s) = exit_code s"
  "stack_segments (upd_cond c f s) = stack_segments s"
  "num_stack_segments (upd_cond c f s) = num_stack_segments s"
  "terminated_children (upd_cond c f s) = terminated_children s"
  "main_thread_exiting (upd_cond c f s) = main_thread_exiting s"
  "sigmask (upd_cond c f s) = sigmask s" "reqs (upd_cond c f s) = reqs s" "sighandlers (upd_cond c f s) = sighandlers s"
  "klog (upd_cond c f s) = klog s"
  by (simp_all add: upd_cond_def)

lemma upd_sem_simps [simp]:
  "descr (upd_sem a f s) = descr s" "mutexes (upd_sem a f s) = mutexes s"
  "conds (upd_sem a f s) = conds s" "sems (upd_sem a f s) = (sems s)(a := f (sems s a))"
  "cleanup_bufs (upd_sem a f s) = cleanup_bufs s" "pthread_keys (upd_sem a f s) = pthread_keys s"
  "pthread_keys_mutex (upd_sem a f s) = pthread_keys_mutex s"
  "handlers (upd_sem a f s) = handlers s"
  "pthread_atfork_prepare (upd_sem a f s) = pthread_atfork_prepare s"
  "pthread_atfork_parent (upd_sem a f s) = pthread_atfork_parent s"
  "pthread_atfork_child (upd_sem a f s) = pthread_atfork_child s"
  "pthread_atfork_lock (upd_sem a f s) = pthread_atfork_lock s"
  "initial_thread (upd_sem a f s) = initial_thread s"
  "manager_thread (upd_sem a f s) = manager_thread s" "main_thread (upd_sem a f s) = main_thread s"
  "initial_thread_bos (upd_sem a f s) = initial_thread_bos s"
  "manager_thread_bos (upd_sem a f s) = manager_thread_bos s"
  "manager_thread_tos (upd_sem a f s) = manager_thread_tos s"
  "manager_request (upd_sem a f s) = manager_request s"
  "manager_reader (upd_sem a f s) = manager_reader s"
  "exit_requested (upd_sem a f s) = exit_requested s" "exit_code (upd_sem a f s) = exit_code s"
  "stack_segments (upd_sem a f s) = stack_segments s"
  "num_stack_segments (upd_sem a f s) = num_stack_segments s"
  "terminated_children (upd_sem a f s) = terminated_children s"
  "main_thread_exiting (upd_sem a f s) = main_thread_exiting s"
  "sigmask (upd_sem a f s) = sigmask s" "reqs (upd_sem a f s) = reqs s" "sighandlers (upd_sem a f s) = sighandlers s"
  "klog (upd_sem a f s) = klog s"
  by (simp_all add: upd_sem_def)

lemma log_simps [simp]:
  "descr (log e s) = descr s" "mutexes (log e s) = mutexes s" "conds (log e s) = conds s"
  "sems (log e s) = sems s" "cleanup_bufs (log e s) = cleanup_bufs s"
  "pthread_keys (log e s) = pthread_keys s" "pthread_keys_mutex (log e s) = pthread_keys_mutex s"
  "handlers (log e s) = handlers s" "pthread_atfork_prepare (log e s) = pthread_atfork_prepare s"
  "pthread_atfork_parent (log e s) = pthread_atfork_parent s"
  "pthread_atfork_child (log e s) = pthread_atfork_child s"
  "pthread_atfork_lock (log e s) = pthread_atfork_lock s"
  "initial_thread (log e s) = initial_thread s" "manager_thread (log e s) = manager_thread s"
  "main_thread (log e s) = main_thread s" "initial_thread_bos (log e s) = initial_thread_bos s"
  "manager_thread_bos (log e s) = manager_thread_bos s"
  "manager_thread_tos (log e s) = manager_thread_tos s"
  "manager_request (log e s) = manager_request s" "manager_reader (log e s) = manager_reader s"
  "exit_requested (log e s) = exit_requested s" "exit_code (log e s) = exit_code s"
  "stack_segments (log e s) = stack_segments s"
  "num_stack_segments (log e s) = num_stack_segments s"
  "terminated_children (log e s) = terminated_children s"
  "main_thread_exiting (log e s) = main_thread_exiting s" "sigmask (log e s) = sigmask s"
  "reqs (log e s) = reqs s" "sighandlers (log e s) = sighandlers s" "klog (log e s) = klog s @ [e]"
  by (simp_all add: log_def)

lemma set_errno_simps [simp]:
  "descr (set_errno t e s) = (descr s)(t := (descr s t)\<lparr>p_errno := e\<rparr>)"
  "mutexes (set_errno t e s) = mutexes s" "conds (set_errno t e s) = conds s"
  "sems (set_errno t e s) = sems s" "cleanup_bufs (set_errno t e s) = cleanup_bufs s"
  "pthread_keys (set_errno t e s) = pthread_keys s"
  "pthread_keys_mutex (set_errno t e s) = pthread_keys_mutex s"
  "handlers (set_errno t e s) = handlers s"
  "pthread_atfork_prepare (set_errno t e s) = pthread_atfork_prepare s"
  "pthread_atfork_parent (set_errno t e s) = pthread_atfork_parent s"
  "pthread_atfork_child (set_errno t e s) = pthread_atfork_child s"
  "pthread_atfork_lock (set_errno t e s) = pthread_atfork_lock s"
  "initial_thread (set_errno t e s) = initial_thread s"
  "manager_thread (set_errno t e s) = manager_thread s"
  "main_thread (set_errno t e s) = main_thread s"
  "initial_thread_bos (set_errno t e s) = initial_thread_bos s"
  "manager_thread_bos (set_errno t e s) = manager_thread_bos s"
  "manager_thread_tos (set_errno t e s) = manager_thread_tos s"
  "manager_request (set_errno t e s) = manager_request s"
  "manager_reader (set_errno t e s) = manager_reader s"
  "exit_requested (set_errno t e s) = exit_requested s" "exit_code (set_errno t e s) = exit_code s"
  "stack_segments (set_errno t e s) = stack_segments s"
  "num_stack_segments (set_errno t e s) = num_stack_segments s"
  "terminated_children (set_errno t e s) = terminated_children s"
  "main_thread_exiting (set_errno t e s) = main_thread_exiting s"
  "sigmask (set_errno t e s) = sigmask s" "reqs (set_errno t e s) = reqs s" "sighandlers (set_errno t e s) = sighandlers s"
  "klog (set_errno t e s) = klog s"
  by (simp_all add: set_errno_def)

section \<open>Control flow\<close>

text \<open>
  A call of a library function by a thread ends in one of four ways: it returns a value; the thread
  transfers to \<open>pthread_exit\<close> with a return value, which never returns; the Unix process of the
  thread ends with \<open>_exit\<close>; or a signal handler performs a \<open>siglongjmp\<close> to an enclosing frame of the
  library. An operation that does not come back at all, because the thread spins on a lock that
  nobody will release or is never woken up, has the result \<open>None\<close>.
\<close>

datatype 'a flow = Ret 'a | PExit addr | Exit int | Jump

type_synonym 'a res = "('a flow \<times> st) option"

definition and_then :: "'a res \<Rightarrow> ('a \<Rightarrow> st \<Rightarrow> 'b res) \<Rightarrow> 'b res" where
  "and_then r k =
     (case r of None \<Rightarrow> None
      | Some (Ret x, s) \<Rightarrow> k x s
      | Some (PExit v, s) \<Rightarrow> Some (PExit v, s)
      | Some (Exit c, s) \<Rightarrow> Some (Exit c, s)
      | Some (Jump, s) \<Rightarrow> Some (Jump, s))"

lemma and_then_simps [simp]:
  "and_then None k = None"
  "and_then (Some (Ret x, s)) k = k x s"
  "and_then (Some (PExit v, s)) k = Some (PExit v, s)"
  "and_then (Some (Exit c, s)) k = Some (Exit c, s)"
  "and_then (Some (Jump, s)) k = Some (Jump, s)"
  by (simp_all add: and_then_def)

lemma and_then_RetD:
  "and_then r k = Some (Ret y, s') \<Longrightarrow> \<exists>x s. r = Some (Ret x, s) \<and> k x s = Some (Ret y, s')"
  by (auto simp: and_then_def split: option.splits flow.splits prod.splits)

text \<open>
  What is not code of the library but happens while one of its functions runs: waiting in
  \<open>sigsuspend\<close> (\<open>sigsuspend_env\<close> gives the signal that ends the wait and the state that the other
  threads have left by then, \<open>None\<close> if no signal ever comes), a \<open>nanosleep\<close>, and the code of a user
  function, started with its argument.
\<close>

record env =
  sigsuspend_env :: "pthread_t \<Rightarrow> sigset \<Rightarrow> st \<Rightarrow> (nat \<times> st) option"
  nanosleep_env :: "pthread_t \<Rightarrow> int \<times> int \<Rightarrow> st \<Rightarrow> (nat option \<times> st) option"
  call_env :: "addr \<Rightarrow> addr \<Rightarrow> st \<Rightarrow> addr \<times> st"

text \<open>\<open>p_canceled\<close> set while cancellation is enabled: the test at every cancellation point.\<close>

definition cancel_pending :: "pthread_t \<Rightarrow> st \<Rightarrow> bool" where
  "cancel_pending self s \<longleftrightarrow>
     p_canceled (descr s self) \<and> p_cancelstate (descr s self) = PTHREAD_CANCEL_ENABLE"

text \<open>
  What the kernel and the C library answer to the calls of the library: whether a mapping or an
  allocation succeeds, the process id of a clone (-1 if it fails), scheduling parameters, and sizes
  that depend on the platform. \<open>sched_setscheduler_env\<close> and \<open>sched_getscheduler_env\<close> give -1 on
  failure, with the error code in \<open>sched_errno\<close>; \<open>kill_errno\<close> is 0 if a signal can be sent, and the error
  code otherwise; \<open>nsig\<close> is the number \<open>NSIG\<close> of signals.
\<close>

record kern =
  mmap_ok :: "addr \<Rightarrow> st \<Rightarrow> bool"
  malloc_ok :: "nat \<Rightarrow> st \<Rightarrow> bool"
  malloc_addr :: "nat \<Rightarrow> st \<Rightarrow> addr"
  clone_env :: "addr \<Rightarrow> st \<Rightarrow> int"
  pipe_env :: "st \<Rightarrow> (int \<times> int) option"
  getpid_env :: "pthread_t \<Rightarrow> int"
  geteuid_env :: int
  sched_getscheduler_env :: "int \<Rightarrow> int"
  sched_getparam_env :: "int \<Rightarrow> int"
  sched_getparam_ok :: "int \<Rightarrow> bool"
  sched_setscheduler_env :: "int \<Rightarrow> int \<Rightarrow> int \<Rightarrow> int"
  sched_errno :: int
  kill_errno :: "int \<Rightarrow> nat \<Rightarrow> int"
  nsig :: nat
  sched_get_priority_max :: "int \<Rightarrow> int"
  sched_get_priority_min :: "int \<Rightarrow> int"
  page_size :: nat
  sizeof_pthread :: nat

text \<open>A machine on which every call succeeds, for concrete executions.\<close>

definition easy_kern :: kern where
  "easy_kern =
     \<lparr>mmap_ok = (\<lambda>_ _. True), malloc_ok = (\<lambda>_ _. True), malloc_addr = (\<lambda>_ _. 0x1000),
      clone_env = (\<lambda>_ _. 200), pipe_env = (\<lambda>_. Some (3, 4)), getpid_env = (\<lambda>_. 100),
      geteuid_env = 0, sched_getscheduler_env = (\<lambda>_. SCHED_OTHER), sched_getparam_env = (\<lambda>_. 0),
      sched_getparam_ok = (\<lambda>_. True),
      sched_setscheduler_env = (\<lambda>_ _ _. 0), sched_errno = 0,
      kill_errno = (\<lambda>_ _. 0), nsig = 32,
      sched_get_priority_max = (\<lambda>p. if p = SCHED_OTHER then 0 else 99),
      sched_get_priority_min = (\<lambda>p. if p = SCHED_OTHER then 0 else 1),
      page_size = 4096, sizeof_pthread = 640\<rparr>"

end
