(* ===== verification/Machine.thy ===== *)
theory Machine
  imports Prelude
begin

unbundle bit_operations_syntax

text \<open>
  The machine-dependent primitives of \<open>sysdeps/*/pt-machine.h\<close> and the spin locks of \<open>spinlock.h\<close>.
  A primitive is a function from the old content of the memory word to the pair of the value the C
  function returns and the new content. Loops around load-linked/store-conditional pairs take the
  list of the outcomes of the successive store-conditional instructions, and give \<open>None\<close> when the
  list is exhausted before one succeeds.

  The locale \<open>testandset_port\<close> states what \<open>spinlock.h\<close> relies on; every port is an interpretation.
  Inside it the lock protocol of any number of threads is shown to give mutual exclusion. The locale
  \<open>cas_port\<close> states what \<open>semaphore.c\<close> relies on for \<open>compare_and_swap\<close>.
\<close>

section \<open>Test-and-set\<close>

text \<open>i386: \<open>xchgl\<close> exchanges the word with 1.\<close>

definition testandset :: "lockword \<Rightarrow> lockword \<times> lockword" where
  "testandset l = (l, 1)"

text \<open>Alpha and MIPS: return early if the word is not zero, else store 1 conditionally, else retry.\<close>

fun testandset_alpha :: "bool list \<Rightarrow> lockword \<Rightarrow> (lockword \<times> lockword) option" where
  "testandset_alpha [] l = (if l \<noteq> 0 then Some (l, l) else None)"
| "testandset_alpha (ok # scs) l =
     (if l \<noteq> 0 then Some (l, l)
      else if ok then Some (l, 1) else testandset_alpha scs l)"

fun testandset_mips :: "bool list \<Rightarrow> lockword \<Rightarrow> (lockword \<times> lockword) option" where
  "testandset_mips [] l = (if l \<noteq> 0 then Some (l, l) else None)"
| "testandset_mips (ok # scs) l =
     (if l \<noteq> 0 then Some (l, l)
      else if ok then Some (l, 1) else testandset_mips scs l)"

definition testandset_llsc :: "lockword \<Rightarrow> lockword \<times> lockword" where
  "testandset_llsc l = (if l \<noteq> 0 then (l, l) else (0, 1))"

text \<open>Motorola 68k: \<open>tas\<close> tests the byte at the address (the most significant one) and sets its
  top bit; \<open>sne\<close> makes the result 0 or -1.\<close>

definition testandset_m68k :: "lockword \<Rightarrow> lockword \<times> lockword" where
  "testandset_m68k l = (if drop_bit 24 l = 0 then 0 else - 1, l OR 0x80000000)"

text \<open>Sparc: \<open>ldstub\<close> returns the byte at the address and stores 255 there.\<close>

definition testandset_sparc :: "lockword \<Rightarrow> lockword \<times> lockword" where
  "testandset_sparc l = (drop_bit 24 l, l OR 0xff000000)"

section \<open>Compare-and-swap\<close>

text \<open>i486: \<open>lock; cmpxchg\<close>, then \<open>sete\<close>. Motorola 68k: \<open>casl\<close>, then \<open>seq\<close> (0 or -1).\<close>

definition compare_and_swap_i486 :: "32 word \<Rightarrow> 32 word \<Rightarrow> 32 word \<Rightarrow> int \<times> 32 word" where
  "compare_and_swap_i486 p oldval newval = (if p = oldval then (1, newval) else (0, p))"

definition compare_and_swap_m68k :: "32 word \<Rightarrow> 32 word \<Rightarrow> 32 word \<Rightarrow> int \<times> 32 word" where
  "compare_and_swap_m68k p oldval newval = (if p = oldval then (- 1, newval) else (0, p))"

text \<open>Alpha: \<open>ldq_l\<close>, \<open>cmpeq\<close>, leave with 0 if different, else store conditionally.\<close>

fun compare_and_swap_alpha ::
  "bool list \<Rightarrow> 64 word \<Rightarrow> 64 word \<Rightarrow> 64 word \<Rightarrow> (int \<times> 64 word) option"
where
  "compare_and_swap_alpha [] p oldval newval = (if p \<noteq> oldval then Some (0, p) else None)"
| "compare_and_swap_alpha (ok # scs) p oldval newval =
     (if p \<noteq> oldval then Some (0, p)
      else if ok then Some (1, newval) else compare_and_swap_alpha scs p oldval newval)"

text \<open>
  MIPS: the branch \<open>bne %0,%2,2f\<close> is assembled under \<open>.set noreorder\<close>, so the instruction
  \<open>move %0,%3\<close> that follows it sits in its delay slot and is executed on both paths: when the values
  differ, the function leaves with the register holding \<open>newval\<close>.
\<close>

fun compare_and_swap_mips ::
  "bool list \<Rightarrow> 32 word \<Rightarrow> 32 word \<Rightarrow> 32 word \<Rightarrow> (int \<times> 32 word) option"
where
  "compare_and_swap_mips [] p oldval newval = (if p \<noteq> oldval then Some (sint newval, p) else None)"
| "compare_and_swap_mips (ok # scs) p oldval newval =
     (if p \<noteq> oldval then Some (sint newval, p)
      else if ok then Some (1, newval) else compare_and_swap_mips scs p oldval newval)"

section \<open>Spin locks\<close>

text \<open>
  \<open>acquire\<close> polls the lock word until \<open>testandset\<close> returns 0; \<open>yield\<close> is what \<open>sched_yield\<close> lets the
  other threads do to the word. \<open>release\<close> stores 0.
\<close>

partial_function (option) acquire_loop :: "(lockword \<Rightarrow> lockword) \<Rightarrow> lockword \<Rightarrow> lockword option" where
  "acquire_loop yield l =
     (let (ret, l') = testandset l in if ret \<noteq> 0 then acquire_loop yield (yield l') else Some l')"

definition acquire :: "lockword \<Rightarrow> lockword option" where
  "acquire l = acquire_loop (\<lambda>x. x) l"

definition release :: "lockword \<Rightarrow> lockword" where
  [simp]: "release l = 0"

definition release_sparc :: "lockword \<Rightarrow> lockword" where
  "release_sparc l = l AND 0x00ffffff"

text \<open>
  Where no other thread touches the word, a held lock is never obtained: the loop does not end.
\<close>

lemma acquire_loop_held:
  assumes "acquire_loop (\<lambda>x. x) l = Some r"
  shows "l = 0"
proof (rule acquire_loop.raw_induct [where P = "\<lambda>yield l r. yield = (\<lambda>x. x) \<longrightarrow> l = 0", OF _ assms, simplified])
  fix f :: "(lockword \<Rightarrow> lockword) \<Rightarrow> lockword \<Rightarrow> lockword option"
    and yield :: "lockword \<Rightarrow> lockword" and l r :: lockword
  assume IH: "\<And>yield l r. f yield l = Some r \<Longrightarrow> yield = (\<lambda>x. x) \<longrightarrow> l = 0"
    and eq: "(case testandset l of (ret, l') \<Rightarrow> if ret \<noteq> 0 then f yield (yield l') else Some l') = Some r"
  show "yield = (\<lambda>x. x) \<longrightarrow> l = 0"
  proof (rule impI, rule ccontr)
    assume y: "yield = (\<lambda>x. x)" and "l \<noteq> 0"
    with eq have "f yield 1 = Some r" by (simp add: testandset_def)
    from IH [OF this] y show False by simp
  qed
qed

lemma acquire_eq [simp]: "acquire l = (if l = 0 then Some 1 else None)"
proof (cases "l = 0")
  case True
  have "acquire_loop (\<lambda>x. x) 0 = Some 1"
    by (subst acquire_loop.simps) (simp add: testandset_def)
  with True show ?thesis by (simp add: acquire_def)
next
  case False
  then have "acquire_loop (\<lambda>x. x) l = None"
    using acquire_loop_held by (cases "acquire_loop (\<lambda>x. x) l") auto
  with False show ?thesis by (simp add: acquire_def)
qed

text \<open>
  The protocol of many threads on one lock word, one \<open>testandset\<close> or one store per step.
\<close>

datatype spin_pc = Outside | Spinning | Inside

record spin_sys =
  lockw :: lockword
  spc :: "nat \<Rightarrow> spin_pc"

inductive spin_step ::
  "(lockword \<Rightarrow> lockword \<times> lockword) \<Rightarrow> (lockword \<Rightarrow> lockword) \<Rightarrow> spin_sys \<Rightarrow> spin_sys \<Rightarrow> bool"
  for tas rel
where
  start: "spc x i = Outside \<Longrightarrow> spin_step tas rel x (x\<lparr>spc := (spc x)(i := Spinning)\<rparr>)"
| poll_busy: "spc x i = Spinning \<Longrightarrow> tas (lockw x) = (ret, l') \<Longrightarrow> ret \<noteq> 0 \<Longrightarrow>
     spin_step tas rel x (x\<lparr>lockw := l'\<rparr>)"
| poll_free: "spc x i = Spinning \<Longrightarrow> tas (lockw x) = (0, l') \<Longrightarrow>
     spin_step tas rel x (x\<lparr>lockw := l', spc := (spc x)(i := Inside)\<rparr>)"
| leave: "spc x i = Inside \<Longrightarrow>
     spin_step tas rel x (x\<lparr>lockw := rel (lockw x), spc := (spc x)(i := Outside)\<rparr>)"

definition spin_init :: spin_sys where
  "spin_init = \<lparr>lockw = 0, spc = (\<lambda>_. Outside)\<rparr>"

inductive spin_reach ::
  "(lockword \<Rightarrow> lockword \<times> lockword) \<Rightarrow> (lockword \<Rightarrow> lockword) \<Rightarrow> spin_sys \<Rightarrow> bool"
  for tas rel
where
  init: "spin_reach tas rel spin_init"
| step: "spin_reach tas rel x \<Longrightarrow> spin_step tas rel x y \<Longrightarrow> spin_reach tas rel y"

section \<open>What the ports promise\<close>

locale testandset_port =
  fixes tas :: "lockword \<Rightarrow> lockword \<times> lockword"
    and rel :: "lockword \<Rightarrow> lockword"
    and held :: "lockword \<Rightarrow> bool"
  assumes init_free: "\<not> held 0"
    and tas_free: "\<not> held l \<Longrightarrow> fst (tas l) = 0 \<and> held (snd (tas l))"
    and tas_held: "held l \<Longrightarrow> fst (tas l) \<noteq> 0 \<and> held (snd (tas l))"
    and rel_free: "\<not> held (rel l)"
begin

definition spin_inv :: "spin_sys \<Rightarrow> bool" where
  "spin_inv x \<longleftrightarrow> (\<exists>w. excl (\<lambda>c. c = Inside) (spc x) w \<and> (held (lockw x) \<longleftrightarrow> w \<noteq> None))"

lemma tas_ret_held: "tas l = (ret, l') \<Longrightarrow> held l' \<and> (ret \<noteq> 0 \<longleftrightarrow> held l)"
  using tas_free [of l] tas_held [of l] by auto

lemma spin_step_inv: "spin_step tas rel x y \<Longrightarrow> spin_inv x \<Longrightarrow> spin_inv y"
proof (induction rule: spin_step.induct)
  case (start x i)
  then show ?case by (auto simp: spin_inv_def intro!: excl_same)
next
  case (poll_busy x i ret l')
  then show ?case using tas_ret_held [of "lockw x" ret l'] by (auto simp: spin_inv_def)
next
  case (poll_free x i l')
  then have "excl (\<lambda>c. c = Inside) (spc x) None" "held l'"
    using tas_ret_held [of "lockw x" 0 l'] by (auto simp: spin_inv_def)
  then show ?case by (auto simp: spin_inv_def intro!: exI [of _ "Some i"] excl_take)
next
  case (leave x i)
  then show ?case using rel_free [of "lockw x"] by (auto simp: spin_inv_def intro!: exI [of _ None] excl_drop)
qed

lemma spin_reach_inv: "spin_reach tas rel x \<Longrightarrow> spin_inv x"
proof (induction rule: spin_reach.induct)
  case init
  show ?case by (auto simp: spin_init_def spin_inv_def init_free excl_def)
next
  case (step x y)
  then show ?case by (blast intro: spin_step_inv)
qed

lemma spin_mutex:
  "spin_reach tas rel x \<Longrightarrow> spc x i = Inside \<Longrightarrow> spc x j = Inside \<Longrightarrow> i = j"
  by (drule spin_reach_inv) (auto simp: spin_inv_def dest: excl_unique)

text \<open>A thread that polls gets the lock exactly when no thread is inside.\<close>

lemma spin_poll_iff:
  "spin_reach tas rel x \<Longrightarrow> fst (tas (lockw x)) = 0 \<longleftrightarrow> (\<nexists>i. spc x i = Inside)"
  using spin_reach_inv [of x] tas_free [of "lockw x"] tas_held [of "lockw x"]
  by (auto simp: spin_inv_def excl_def)

end

locale cas_port =
  fixes cas :: "32 word \<Rightarrow> 32 word \<Rightarrow> 32 word \<Rightarrow> int \<times> 32 word"
  assumes cas_hit: "p = oldval \<Longrightarrow> fst (cas p oldval newval) \<noteq> 0 \<and> snd (cas p oldval newval) = newval"
    and cas_miss: "p \<noteq> oldval \<Longrightarrow> fst (cas p oldval newval) = 0 \<and> snd (cas p oldval newval) = p"
begin

lemma cas_stores: "snd (cas p oldval newval) = (if fst (cas p oldval newval) \<noteq> 0 then newval else p)"
  using cas_hit [of p oldval newval] cas_miss [of p oldval newval] by (cases "p = oldval") auto

lemma cas_success: "fst (cas p oldval newval) \<noteq> 0 \<longleftrightarrow> p = oldval"
  using cas_hit [of p oldval newval] cas_miss [of p oldval newval] by (cases "p = oldval") auto

end

section \<open>The ports keep the promise\<close>

lemma testandset_alpha_eq: "testandset_alpha (replicate n False @ [True]) l = Some (testandset_llsc l)"
  by (induction n) (auto simp: testandset_llsc_def)

lemma testandset_mips_eq: "testandset_mips (replicate n False @ [True]) l = Some (testandset_llsc l)"
  by (induction n) (auto simp: testandset_llsc_def)

definition top_byte :: "lockword \<Rightarrow> bool" where
  "top_byte l \<longleftrightarrow> drop_bit 24 l \<noteq> 0"

lemma top_byte_bit: "bit l (24 + k) \<Longrightarrow> top_byte (l :: lockword)"
  unfolding top_byte_def by (metis bit_0_eq bit_drop_bit_eq bot_fun_def comp_apply bot_bool_def)

lemma top_byte_or_80: "top_byte (l OR 0x80000000)"
  by (rule top_byte_bit [of _ 7]) (simp add: bit_or_iff)

lemma top_byte_or_ff: "top_byte (l OR 0xff000000)"
  by (rule top_byte_bit [of _ 7]) (simp add: bit_or_iff)

interpretation i386: testandset_port testandset release "\<lambda>l. l \<noteq> 0"
  by unfold_locales (auto simp: testandset_def)

interpretation llsc: testandset_port testandset_llsc release "\<lambda>l. l \<noteq> 0"
  by unfold_locales (auto simp: testandset_llsc_def)

interpretation m68k: testandset_port testandset_m68k release top_byte
  by unfold_locales (auto simp: testandset_m68k_def top_byte_or_80, auto simp: top_byte_def)

interpretation sparc: testandset_port testandset_sparc release_sparc top_byte
proof
  show "\<not> top_byte (release_sparc l)" for l
    by (simp add: top_byte_def release_sparc_def drop_bit_and)
qed (auto simp: testandset_sparc_def top_byte_or_ff, auto simp: top_byte_def)

interpretation i486: cas_port compare_and_swap_i486
  by unfold_locales (auto simp: compare_and_swap_i486_def)

interpretation m68k_cas: cas_port compare_and_swap_m68k
  by unfold_locales (auto simp: compare_and_swap_m68k_def)

lemma compare_and_swap_alpha_eq:
  "compare_and_swap_alpha (replicate n False @ [True]) p oldval newval =
     Some (if p = oldval then (1, newval) else (0, p))"
  by (induction n) auto

section \<open>Properties\<close>

text \<open>The pairs of test-and-set and release the ports provide (Alpha and MIPS share one).\<close>

definition spin_ports :: "((lockword \<Rightarrow> lockword \<times> lockword) \<times> (lockword \<Rightarrow> lockword)) set" where
  "spin_ports = {(testandset, release), (testandset_llsc, release), (testandset_m68k, release),
     (testandset_sparc, release_sparc)}"

text \<open>
  C23. Spin locks give mutual exclusion on every port: in every state that any number of threads reach
  by polling with \<open>testandset\<close> and leaving with the release store, at most one thread is inside, and
  a thread that polls obtains the lock exactly when nobody is inside.
\<close>

theorem spinlock_mutual_exclusion:
  assumes "(tas, rel) \<in> spin_ports" and "spin_reach tas rel x"
  shows "(spc x i = Inside \<and> spc x j = Inside \<longrightarrow> i = j) \<and>
    (fst (tas (lockw x)) = 0 \<longleftrightarrow> (\<nexists>i. spc x i = Inside))"
  using assms i386.spin_mutex i386.spin_poll_iff llsc.spin_mutex llsc.spin_poll_iff
    m68k.spin_mutex m68k.spin_poll_iff sparc.spin_mutex sparc.spin_poll_iff
  unfolding spin_ports_def by blast

theorem spinlock_mutual_exclusion_witness:
  "\<exists>x. spin_reach testandset release x \<and> spc x 3 = Inside \<and> fst (testandset (lockw x)) \<noteq> 0"
proof -
  define x where "x = spin_init\<lparr>spc := (spc spin_init)(3 := Spinning)\<rparr>"
  define y where "y = x\<lparr>lockw := 1, spc := (spc x)(3 := Inside)\<rparr>"
  have "spin_step testandset release spin_init x" unfolding x_def by (rule start) (simp add: spin_init_def)
  moreover have "spin_step testandset release x y"
    unfolding y_def by (rule poll_free) (simp_all add: x_def spin_init_def testandset_def)
  ultimately have r: "spin_reach testandset release y" by (blast intro: spin_reach.intros)
  have "spc y 3 = Inside" by (simp add: y_def)
  with r spinlock_mutual_exclusion [of testandset release y] show ?thesis
    by (auto simp: spin_ports_def)
qed

text \<open>
  A defect of the MIPS port. When the word differs from the expected value,
  \<open>__compare_and_swap\<close> stores nothing but returns the new value, because the instruction in the delay
  slot of the branch has overwritten the result; a new value other than 0 thus reports a success that
  did not happen.
\<close>

theorem mips_cas_false_success:
  assumes "p \<noteq> oldval" and "newval \<noteq> 0"
  shows "\<exists>ret. compare_and_swap_mips scs p oldval newval = Some (ret, p) \<and> ret \<noteq> 0"
proof -
  have "word_of_int (sint newval) = newval" by simp
  then have "sint newval \<noteq> 0" using assms(2) by (metis of_int_0)
  with assms show ?thesis by (cases scs) simp_all
qed

theorem mips_cas_false_success_witness:
  "\<exists>ret. compare_and_swap_mips [True] 5 3 1 = Some (ret, 5) \<and> ret \<noteq> 0"
  using mips_cas_false_success [of 5 3 1 "[True]"] by simp

end
