(* ===== verification/Queue.thy ===== *)
theory Queue
  imports Pthread_Types
begin

text \<open>
  The waiting queues of \<open>queue.h\<close> and \<open>remove_from_queue\<close> of \<open>condvar.c\<close>: singly linked lists threaded
  through the field \<open>p_nextwaiting\<close> of the descriptors. \<open>is_queue h q xs\<close> relates a queue and the heap
  of descriptors to the list of the threads that wait in it; each operation is shown to refine the
  list operation it stands for. The locale \<open>wait_queue\<close> is the interface the synchronisation objects
  use; the linked queues interpret it.
\<close>

definition set_nextwaiting :: "pthread_t \<Rightarrow> pthread_t \<Rightarrow> heap \<Rightarrow> heap" where
  "set_nextwaiting t v h = h(t := (h t)\<lparr>p_nextwaiting := v\<rparr>)"

definition queue_init :: pthread_queue where
  "queue_init = \<lparr>head = NULL, tail = NULL\<rparr>"

definition enqueue :: "pthread_queue \<Rightarrow> pthread_t \<Rightarrow> heap \<Rightarrow> pthread_queue \<times> heap" where
  "enqueue q th h =
     (if tail q = NULL then (q\<lparr>head := th, tail := th\<rparr>, h)
      else (q\<lparr>tail := th\<rparr>, set_nextwaiting (tail q) th h))"

definition dequeue :: "pthread_queue \<Rightarrow> heap \<Rightarrow> pthread_t \<times> pthread_queue \<times> heap" where
  "dequeue q h =
     (let th = head q in
      if th \<noteq> NULL then
        let q1 = q\<lparr>head := p_nextwaiting (h th)\<rparr>;
            q2 = (if head q1 = NULL then q1\<lparr>tail := NULL\<rparr> else q1)
        in (th, q2, set_nextwaiting th NULL h)
      else (th, q, h))"

text \<open>The \<open>for\<close> loop of \<open>remove_from_queue\<close>, from the node \<open>t\<close>.\<close>

partial_function (option) remove_loop ::
  "pthread_queue \<Rightarrow> pthread_t \<Rightarrow> pthread_t \<Rightarrow> heap \<Rightarrow> (pthread_queue \<times> heap) option"
where
  "remove_loop q th t h =
     (if p_nextwaiting (h t) = NULL then Some (q, h)
      else if p_nextwaiting (h t) = th then
        let h1 = set_nextwaiting t (p_nextwaiting (h th)) h;
            q1 = (if p_nextwaiting (h1 th) = NULL then q\<lparr>tail := t\<rparr> else q)
        in Some (q1, set_nextwaiting th NULL h1)
      else remove_loop q th (p_nextwaiting (h t)) h)"

definition remove_from_queue ::
  "pthread_queue \<Rightarrow> pthread_t \<Rightarrow> heap \<Rightarrow> (pthread_queue \<times> heap) option"
where
  "remove_from_queue q th h =
     (if head q = NULL then Some (q, h)
      else if head q = th then
        let q1 = q\<lparr>head := p_nextwaiting (h th)\<rparr>;
            q2 = (if head q1 = NULL then q1\<lparr>tail := NULL\<rparr> else q1)
        in Some (q2, set_nextwaiting th NULL h)
      else remove_loop q th (head q) h)"

section \<open>Abstraction to lists\<close>

abbreviation nextwaiting :: "heap \<Rightarrow> pthread_t \<Rightarrow> pthread_t" where
  "nextwaiting h \<equiv> (\<lambda>t. p_nextwaiting (h t))"

definition is_queue :: "heap \<Rightarrow> pthread_queue \<Rightarrow> pthread_t list \<Rightarrow> bool" where
  "is_queue h q xs \<longleftrightarrow>
     chain (nextwaiting h) NULL (head q) xs \<and> tail q = (if xs = [] then NULL else last xs)"

lemma is_queue_unique: "is_queue h q xs \<Longrightarrow> is_queue h q ys \<Longrightarrow> xs = ys"
  by (auto simp: is_queue_def dest: chain_unique)

lemma is_queue_distinct: "is_queue h q xs \<Longrightarrow> distinct xs"
  by (auto simp: is_queue_def dest: chain_distinct)

lemma is_queue_NULL: "is_queue h q xs \<Longrightarrow> NULL \<notin> set xs"
  by (auto simp: is_queue_def dest: chain_not_mem_stop)

lemma is_queue_cong:
  "(\<And>t. t \<in> set xs \<Longrightarrow> p_nextwaiting (h t) = p_nextwaiting (h' t)) \<Longrightarrow>
    is_queue h q xs = is_queue h' q xs"
  unfolding is_queue_def using chain_cong [of xs "nextwaiting h" "nextwaiting h'"] by simp

lemma is_queue_init [simp]: "is_queue h queue_init xs \<longleftrightarrow> xs = []"
  by (auto simp: is_queue_def queue_init_def)

lemma is_queue_empty_iff: "is_queue h q xs \<Longrightarrow> head q = NULL \<longleftrightarrow> xs = []"
  by (cases xs) (auto simp: is_queue_def)

lemma nextwaiting_set [simp]:
  "p_nextwaiting (set_nextwaiting t v h u) = (if u = t then v else p_nextwaiting (h u))"
  by (simp add: set_nextwaiting_def)

lemma is_queue_set_other:
  "t \<notin> set xs \<Longrightarrow> is_queue (set_nextwaiting t v h) q xs = is_queue h q xs"
  by (rule is_queue_cong) auto

lemma enqueue_refines:
  assumes "is_queue h q xs" and "th \<noteq> NULL" and "th \<notin> set xs" and "p_nextwaiting (h th) = NULL"
    and "enqueue q th h = (q', h')"
  shows "is_queue h' q' (xs @ [th])"
proof (cases "xs = []")
  case True
  with assms show ?thesis by (auto simp: is_queue_def enqueue_def)
next
  case False
  then have q: "tail q = last xs" "last xs \<in> set xs" using assms(1) by (auto simp: is_queue_def)
  with assms(1) have "tail q \<noteq> NULL" using is_queue_NULL by metis
  with assms(5) have q': "q' = q\<lparr>tail := th\<rparr>" "h' = set_nextwaiting (last xs) th h"
    using q by (auto simp: enqueue_def)
  have "distinct xs" using assms(1) by (rule is_queue_distinct)
  then have "last xs \<notin> set (butlast xs)"
    using False by (metis append_butlast_last_id distinct_append disjoint_insert(1) list.set(2))
  then have "chain (nextwaiting h') NULL (head q) (xs @ [th])"
    using assms False q by (intro chain_append_node [of "nextwaiting h"]) (auto simp: is_queue_def q')
  with q' show ?thesis by (simp add: is_queue_def)
qed

lemma dequeue_Nil: "is_queue h q [] \<Longrightarrow> dequeue q h = (NULL, q, h)"
  by (auto simp: is_queue_def dequeue_def)

lemma dequeue_Cons:
  assumes "is_queue h q (x # xs)"
  obtains q' where "dequeue q h = (x, q', set_nextwaiting x NULL h)"
    and "is_queue (set_nextwaiting x NULL h) q' xs"
proof -
  from assms have q: "head q = x" "x \<noteq> NULL" "chain (nextwaiting h) NULL (p_nextwaiting (h x)) xs"
    "tail q = last (x # xs)"
    by (auto simp: is_queue_def)
  have dist: "x \<notin> set xs" using is_queue_distinct [OF assms] by simp
  define q' where "q' = (if p_nextwaiting (h x) = NULL
    then q\<lparr>head := p_nextwaiting (h x), tail := NULL\<rparr> else q\<lparr>head := p_nextwaiting (h x)\<rparr>)"
  have "dequeue q h = (x, q', set_nextwaiting x NULL h)"
    using q by (simp add: dequeue_def q'_def)
  moreover have "is_queue h q' xs"
    using q by (cases xs) (auto simp: is_queue_def q'_def)
  with dist have "is_queue (set_nextwaiting x NULL h) q' xs" by (simp add: is_queue_set_other)
  ultimately show thesis by (rule that)
qed

text \<open>The loop leaves a queue alone that does not hold the thread, and unlinks a member otherwise.\<close>

lemma remove_loop_absent:
  "chain (nextwaiting h) NULL t (t # ys) \<Longrightarrow> th \<notin> set ys \<Longrightarrow> remove_loop q th t h = Some (q, h)"
proof (induction ys arbitrary: t)
  case Nil
  then show ?case by (subst remove_loop.simps) simp
next
  case (Cons y ys)
  then have "p_nextwaiting (h t) = y" "y \<noteq> NULL" "y \<noteq> th" by auto
  then have "remove_loop q th t h = remove_loop q th y h"
    by (subst remove_loop.simps) simp
  with Cons show ?case by simp
qed

lemma remove_loop_member:
  assumes "chain (nextwaiting h) NULL t (t # as @ th # bs)"
  shows "remove_loop q th t h =
    Some (if bs = [] then q\<lparr>tail := last (t # as)\<rparr> else q,
          set_nextwaiting th NULL (set_nextwaiting (last (t # as)) (p_nextwaiting (h th)) h))"
  using assms
proof (induction as arbitrary: t)
  case Nil
  have "distinct (t # th # bs)" using Nil chain_distinct [of _ _ t "t # th # bs"] by simp
  moreover have "p_nextwaiting (h th) = NULL \<longleftrightarrow> bs = []" using Nil by (cases bs) auto
  ultimately show ?case using Nil by (subst remove_loop.simps) (auto simp: Let_def)
next
  case (Cons a as)
  have "distinct (t # a # as @ th # bs)"
    using Cons.prems chain_distinct [of _ _ t "t # a # as @ th # bs"] by simp
  then have "p_nextwaiting (h t) = a" "a \<noteq> NULL" "a \<noteq> th" using Cons.prems by auto
  then have "remove_loop q th t h = remove_loop q th a h"
    by (subst remove_loop.simps) simp
  with Cons show ?case by simp
qed

lemma is_queue_unlink:
  assumes "is_queue h q (xs @ y # th # zs)"
    and "h' = set_nextwaiting th NULL (set_nextwaiting y (p_nextwaiting (h th)) h)"
    and "q' = (if zs = [] then q\<lparr>tail := y\<rparr> else q)"
  shows "is_queue h' q' (xs @ y # zs)"
proof -
  have "distinct (xs @ y # th # zs)" using assms(1) by (rule is_queue_distinct)
  then have "chain (nextwaiting h') NULL (head q) (xs @ y # zs)"
    using assms(1,2)
    by (intro chain_unlink [of "nextwaiting h" NULL "head q" xs y th zs]) (auto simp: is_queue_def)
  with assms(1,3) show ?thesis by (auto simp: is_queue_def)
qed

lemma remove_from_queue_absent:
  assumes "is_queue h q xs" and "th \<notin> set xs"
  shows "remove_from_queue q th h = Some (q, h)"
  using assms remove_loop_absent [of h "head q" "tl xs" th q]
  by (cases xs) (auto simp: remove_from_queue_def is_queue_def)

lemma remove_from_queue_member:
  assumes "is_queue h q (xs @ th # zs)"
  obtains q' h' where "remove_from_queue q th h = Some (q', h')" and "is_queue h' q' (xs @ zs)"
    and "\<And>t. t \<notin> set (xs @ th # zs) \<Longrightarrow> h' t = h t" and "p_nextwaiting (h' th) = NULL"
proof (cases xs rule: rev_cases)
  case Nil
  with assms obtain q' where d: "dequeue q h = (th, q', set_nextwaiting th NULL h)"
    and "is_queue (set_nextwaiting th NULL h) q' zs" by (auto elim: dequeue_Cons)
  moreover have "remove_from_queue q th h = Some (q', set_nextwaiting th NULL h)"
    using d assms Nil by (simp add: remove_from_queue_def dequeue_def Let_def is_queue_def)
  ultimately show thesis
    using Nil by (intro that [of q' "set_nextwaiting th NULL h"]) (simp_all add: set_nextwaiting_def)
next
  case (snoc ys y)
  define h' where "h' = set_nextwaiting th NULL (set_nextwaiting y (p_nextwaiting (h th)) h)"
  define q' where "q' = (if zs = [] then q\<lparr>tail := y\<rparr> else q)"
  have "xs \<noteq> []" using snoc by simp
  then obtain x ws where x: "xs = x # ws" by (auto simp: neq_Nil_conv)
  have y: "last (x # ws) = y" using snoc unfolding x [symmetric] by simp
  have q: "is_queue h q (x # ws @ th # zs)" using assms unfolding x by simp
  have "x \<noteq> th" using is_queue_distinct [OF q] by simp
  moreover have "head q = x" "x \<noteq> NULL" "chain (nextwaiting h) NULL x (x # ws @ th # zs)"
    using q by (auto simp: is_queue_def)
  ultimately have "remove_from_queue q th h = Some (q', h')"
    using remove_loop_member [of h x ws th zs q, unfolded y]
    by (simp add: remove_from_queue_def h'_def q'_def)
  moreover have "is_queue h' q' (xs @ zs)"
    using is_queue_unlink [of h q ys y th zs] assms snoc by (simp add: h'_def q'_def)
  ultimately show thesis
    using snoc by (intro that [of q' h']) (simp_all add: h'_def set_nextwaiting_def)
qed

lemma remove_from_queue_refines:
  assumes "is_queue h q xs"
  obtains q' h' where "remove_from_queue q th h = Some (q', h')" and "is_queue h' q' (remove1 th xs)"
    and "\<And>t. t \<notin> set xs \<Longrightarrow> h' t = h t" and "th \<in> set xs \<Longrightarrow> p_nextwaiting (h' th) = NULL"
proof (cases "th \<in> set xs")
  case True
  then obtain as bs where xs: "xs = as @ th # bs" by (auto simp: in_set_conv_decomp)
  then have "th \<notin> set as" using is_queue_distinct [OF assms] by auto
  then have r: "remove1 th xs = as @ bs" using xs by (simp add: remove1_middle)
  from assms xs have "is_queue h q (as @ th # bs)" by simp
  then show thesis
  proof (rule remove_from_queue_member)
    fix q' h'
    assume "remove_from_queue q th h = Some (q', h')" "is_queue h' q' (as @ bs)"
      "\<And>t. t \<notin> set (as @ th # bs) \<Longrightarrow> h' t = h t" "p_nextwaiting (h' th) = NULL"
    then show thesis by (intro that [of q' h']) (simp_all only: r, simp_all add: xs)
  qed
next
  case False
  with assms that [of q h] show thesis by (simp add: remove_from_queue_absent remove1_idem)
qed

section \<open>The interface of waiting queues\<close>

text \<open>
  \<open>ready h x\<close> says that \<open>x\<close> may be inserted: it is in no queue. \<open>serve\<close> and \<open>arrive\<close> iterate the two
  operations.
\<close>

fun arrive :: "('q \<Rightarrow> 'a \<Rightarrow> 'h \<Rightarrow> 'q \<times> 'h) \<Rightarrow> 'a list \<Rightarrow> 'q \<Rightarrow> 'h \<Rightarrow> 'q \<times> 'h" where
  "arrive enq [] q h = (q, h)"
| "arrive enq (x # xs) q h = (let (q', h') = enq q x h in arrive enq xs q' h')"

fun serve :: "('q \<Rightarrow> 'h \<Rightarrow> 'a \<times> 'q \<times> 'h) \<Rightarrow> nat \<Rightarrow> 'q \<Rightarrow> 'h \<Rightarrow> 'a list \<times> 'q \<times> 'h" where
  "serve deq 0 q h = ([], q, h)"
| "serve deq (Suc n) q h =
     (let (x, q', h') = deq q h; (xs, q'', h'') = serve deq n q' h' in (x # xs, q'', h''))"

locale wait_queue =
  fixes empty :: 'q
    and enq :: "'q \<Rightarrow> 'a \<Rightarrow> 'h \<Rightarrow> 'q \<times> 'h"
    and deq :: "'q \<Rightarrow> 'h \<Rightarrow> 'a \<times> 'q \<times> 'h"
    and rep :: "'h \<Rightarrow> 'q \<Rightarrow> 'a list \<Rightarrow> bool"
    and ready :: "'h \<Rightarrow> 'a \<Rightarrow> bool"
  assumes rep_empty: "rep h empty []"
    and rep_enq: "rep h q xs \<Longrightarrow> x \<notin> set xs \<Longrightarrow> ready h x \<Longrightarrow> enq q x h = (q', h') \<Longrightarrow>
      rep h' q' (xs @ [x])"
    and ready_enq: "rep h q xs \<Longrightarrow> ready h y \<Longrightarrow> y \<notin> set xs \<Longrightarrow> y \<noteq> x \<Longrightarrow> enq q x h = (q', h') \<Longrightarrow>
      ready h' y"
    and rep_deq: "rep h q (x # xs) \<Longrightarrow> \<exists>q' h'. deq q h = (x, q', h') \<and> rep h' q' xs \<and> ready h' x"
begin

lemma rep_arrive:
  "rep h q xs \<Longrightarrow> distinct (xs @ ys) \<Longrightarrow> (\<And>y. y \<in> set ys \<Longrightarrow> ready h y) \<Longrightarrow>
    arrive enq ys q h = (q', h') \<Longrightarrow> rep h' q' (xs @ ys)"
proof (induction ys arbitrary: xs q h)
  case Nil
  then show ?case by simp
next
  case (Cons y ys)
  obtain q1 h1 where e: "enq q y h = (q1, h1)" by (cases "enq q y h")
  have "ready h y" "y \<notin> set xs" "y \<notin> set ys" using Cons.prems by auto
  then have r1: "rep h1 q1 (xs @ [y])" using Cons.prems(1) e by (blast intro: rep_enq)
  have "ready h1 z" if "z \<in> set ys" for z
    by (rule ready_enq [OF Cons.prems(1) _ _ _ e]) (use Cons.prems that in auto)
  then have "rep h' q' ((xs @ [y]) @ ys)"
    using Cons.prems e by (intro Cons.IH [OF r1]) simp_all
  then show ?case by simp
qed

lemma rep_serve:
  "rep h q (xs @ ys) \<Longrightarrow> \<exists>q' h'. serve deq (length xs) q h = (xs, q', h') \<and> rep h' q' ys"
proof (induction xs arbitrary: q h)
  case Nil
  then show ?case by simp
next
  case (Cons x xs)
  then obtain q1 h1 where d: "deq q h = (x, q1, h1)" "rep h1 q1 (xs @ ys)"
    using rep_deq [of h q x "xs @ ys"] by auto
  with Cons.IH [OF d(2)] show ?case by auto
qed

text \<open>Threads are served in the order of their arrival.\<close>

lemma fifo:
  assumes "distinct xs" and "\<And>x. x \<in> set xs \<Longrightarrow> ready h x"
  shows "\<exists>q' h'. (let (q1, h1) = arrive enq xs empty h in serve deq (length xs) q1 h1) = (xs, q', h') \<and>
    rep h' q' []"
proof -
  obtain q1 h1 where a: "arrive enq xs empty h = (q1, h1)" by (cases "arrive enq xs empty h")
  have "rep h1 q1 ([] @ xs)" using assms a by (intro rep_arrive [OF rep_empty [of h]]) simp_all
  then show ?thesis using rep_serve [of h1 q1 xs "[]"] a by simp
qed

end

interpretation lq: wait_queue queue_init enqueue dequeue is_queue
  "\<lambda>h th. th \<noteq> NULL \<and> p_nextwaiting (h th) = NULL"
proof
  show "is_queue h queue_init []" for h by simp
next
  fix h q xs x q' h'
  assume "is_queue h q xs" "x \<notin> set xs" "x \<noteq> NULL \<and> p_nextwaiting (h x) = NULL" "enqueue q x h = (q', h')"
  then show "is_queue h' q' (xs @ [x])" by (auto intro: enqueue_refines)
next
  fix h q xs y x q' h'
  assume "is_queue h q xs" "y \<noteq> NULL \<and> p_nextwaiting (h y) = NULL" "y \<notin> set xs" "y \<noteq> x"
    "enqueue q x h = (q', h')"
  then show "y \<noteq> NULL \<and> p_nextwaiting (h' y) = NULL"
    by (auto simp: enqueue_def is_queue_def split: if_splits)
next
  fix h q x xs
  assume q: "is_queue h q (x # xs)"
  then have "x \<noteq> NULL" by (auto dest: is_queue_NULL)
  with q show "\<exists>q' h'. dequeue q h = (x, q', h') \<and> is_queue h' q' xs \<and>
      x \<noteq> NULL \<and> p_nextwaiting (h' x) = NULL"
    by (elim dequeue_Cons) simp
qed

section \<open>Properties\<close>

text \<open>
  Waiting queues are first in, first out: threads that are in no queue and enter an empty queue
  one after another are taken out in the order of their arrival, and the queue is empty again.
\<close>

theorem queue_fifo:
  assumes "distinct xs" and "\<forall>x \<in> set xs. x \<noteq> NULL \<and> p_nextwaiting (h x) = NULL"
  shows "\<exists>q' h'. (let (q1, h1) = arrive enqueue xs queue_init h in serve dequeue (length xs) q1 h1) = (xs, q', h') \<and>
    is_queue h' q' []"
  using assms by (intro lq.fifo) auto

theorem queue_fifo_witness:
  "\<exists>q' h'. (let (q1, h1) = arrive enqueue [8, 16, 24] queue_init (\<lambda>_. zero_descr)
      in serve dequeue (length [8 :: addr, 16, 24]) q1 h1) = ([8, 16, 24], q', h') \<and> is_queue h' q' []"
  by (rule queue_fifo) (simp_all add: zero_descr_def)

text \<open>
  C24. \<open>remove_from_queue\<close> terminates on every well-formed queue; it takes the given thread out of the
  queue wherever it stands, leaves the order of the others, and does not touch other threads.
\<close>

theorem remove_from_queue_correct:
  assumes "is_queue h q xs"
  shows "\<exists>q' h'. remove_from_queue q th h = Some (q', h') \<and> is_queue h' q' (remove1 th xs) \<and>
    (\<forall>t. t \<notin> set xs \<longrightarrow> h' t = h t) \<and> (th \<in> set xs \<longrightarrow> p_nextwaiting (h' th) = NULL)"
  by (rule remove_from_queue_refines [OF assms, of th]) blast

theorem remove_from_queue_correct_witness:
  "\<exists>q' h'. remove_from_queue \<lparr>head = 8, tail = 24\<rparr> 16
      ((\<lambda>_. zero_descr)(8 := zero_descr\<lparr>p_nextwaiting := 16\<rparr>, 16 := zero_descr\<lparr>p_nextwaiting := 24\<rparr>)) =
      Some (q', h') \<and> is_queue h' q' [8, 24]"
proof -
  let ?h = "(\<lambda>_. zero_descr)(8 := zero_descr\<lparr>p_nextwaiting := 16\<rparr>, 16 := zero_descr\<lparr>p_nextwaiting := 24\<rparr>)"
  have "is_queue ?h \<lparr>head = 8, tail = 24\<rparr> [8, 16, 24]" by (simp add: is_queue_def zero_descr_def)
  from remove_from_queue_correct [OF this, of 16] show ?thesis by auto
qed

end
