(* ===== verification/Restart.thy ===== *)
theory Restart
  imports Pthread_Types Machine
begin

text \<open>
  Suspending and restarting threads (\<open>restart.h\<close>) and the handlers of the two signals the library
  uses for it (\<open>pthread.c\<close>, \<open>manager.c\<close>).
\<close>

definition kill :: "int \<Rightarrow> nat \<Rightarrow> st \<Rightarrow> st" where
  [field_defs]: "kill pid sig s = log (Kill pid sig) s"

definition restart :: "pthread_t \<Rightarrow> st \<Rightarrow> st" where
  [field_defs]: "restart th s = kill (p_pid (descr s th)) PTHREAD_SIG_RESTART s"

lemma kill_simps [simp]:
  "descr (kill pid sig s) = descr s" "mutexes (kill pid sig s) = mutexes s"
  "conds (kill pid sig s) = conds s" "sems (kill pid sig s) = sems s"
  "cleanup_bufs (kill pid sig s) = cleanup_bufs s" "pthread_keys (kill pid sig s) = pthread_keys s"
  "pthread_keys_mutex (kill pid sig s) = pthread_keys_mutex s"
  "handlers (kill pid sig s) = handlers s"
  "pthread_atfork_prepare (kill pid sig s) = pthread_atfork_prepare s"
  "pthread_atfork_parent (kill pid sig s) = pthread_atfork_parent s"
  "pthread_atfork_child (kill pid sig s) = pthread_atfork_child s"
  "pthread_atfork_lock (kill pid sig s) = pthread_atfork_lock s"
  "initial_thread (kill pid sig s) = initial_thread s"
  "manager_thread (kill pid sig s) = manager_thread s"
  "main_thread (kill pid sig s) = main_thread s"
  "initial_thread_bos (kill pid sig s) = initial_thread_bos s"
  "manager_thread_bos (kill pid sig s) = manager_thread_bos s"
  "manager_thread_tos (kill pid sig s) = manager_thread_tos s"
  "manager_request (kill pid sig s) = manager_request s"
  "manager_reader (kill pid sig s) = manager_reader s"
  "exit_requested (kill pid sig s) = exit_requested s" "exit_code (kill pid sig s) = exit_code s"
  "stack_segments (kill pid sig s) = stack_segments s"
  "num_stack_segments (kill pid sig s) = num_stack_segments s"
  "terminated_children (kill pid sig s) = terminated_children s"
  "main_thread_exiting (kill pid sig s) = main_thread_exiting s"
  "sigmask (kill pid sig s) = sigmask s" "reqs (kill pid sig s) = reqs s" "sighandlers (kill pid sig s) = sighandlers s"
  "klog (kill pid sig s) = klog s @ [Kill pid sig]"
  by (simp_all add: kill_def)

lemma restart_simps [simp]:
  "descr (restart th s) = descr s" "mutexes (restart th s) = mutexes s"
  "conds (restart th s) = conds s" "sems (restart th s) = sems s"
  "cleanup_bufs (restart th s) = cleanup_bufs s" "pthread_keys (restart th s) = pthread_keys s"
  "pthread_keys_mutex (restart th s) = pthread_keys_mutex s" "handlers (restart th s) = handlers s"
  "pthread_atfork_prepare (restart th s) = pthread_atfork_prepare s"
  "pthread_atfork_parent (restart th s) = pthread_atfork_parent s"
  "pthread_atfork_child (restart th s) = pthread_atfork_child s"
  "pthread_atfork_lock (restart th s) = pthread_atfork_lock s"
  "initial_thread (restart th s) = initial_thread s"
  "manager_thread (restart th s) = manager_thread s" "main_thread (restart th s) = main_thread s"
  "initial_thread_bos (restart th s) = initial_thread_bos s"
  "manager_thread_bos (restart th s) = manager_thread_bos s"
  "manager_thread_tos (restart th s) = manager_thread_tos s"
  "manager_request (restart th s) = manager_request s"
  "manager_reader (restart th s) = manager_reader s"
  "exit_requested (restart th s) = exit_requested s" "exit_code (restart th s) = exit_code s"
  "stack_segments (restart th s) = stack_segments s"
  "num_stack_segments (restart th s) = num_stack_segments s"
  "terminated_children (restart th s) = terminated_children s"
  "main_thread_exiting (restart th s) = main_thread_exiting s" "sigmask (restart th s) = sigmask s"
  "reqs (restart th s) = reqs s" "sighandlers (restart th s) = sighandlers s"
  "klog (restart th s) = klog s @ [Kill (p_pid (descr s th)) PTHREAD_SIG_RESTART]"
  by (simp_all add: restart_def)

section \<open>Signal handlers\<close>

text \<open>
  A handler returns to the interrupted code, jumps to a \<open>sigsetjmp\<close>, calls \<open>pthread_exit\<close>, or ends
  the process.
\<close>

datatype handler_result = H_return | H_jump | H_pexit addr | H_exit int

definition pthread_manager_sighandler :: "nat \<Rightarrow> st \<Rightarrow> st" where
  "pthread_manager_sighandler sig s = s\<lparr>terminated_children := True\<rparr>"

definition pthread_sighandler :: "pthread_t \<Rightarrow> nat \<Rightarrow> st \<Rightarrow> handler_result \<times> st" where
  "pthread_sighandler self sig s =
     (if self = manager_thread s then (H_return, pthread_manager_sighandler sig s)
      else
        let s = upd_th self (p_signal_update (\<lambda>_. sig)) s
        in if p_signal_jmp (descr s self) then (H_jump, s) else (H_return, s))"

definition pthread_handle_sigcancel :: "pthread_t \<Rightarrow> st \<Rightarrow> handler_result \<times> st" where
  "pthread_handle_sigcancel self s =
     (if exit_requested s then (H_exit (exit_code s), s)
      else if p_canceled (descr s self) \<and> p_cancelstate (descr s self) = PTHREAD_CANCEL_ENABLE then
        if p_canceltype (descr s self) = PTHREAD_CANCEL_ASYNCHRONOUS then (H_pexit PTHREAD_CANCELED, s)
        else if p_cancel_jmp (descr s self)
          then (H_jump, upd_th self (p_cancel_jmp_update (\<lambda>_. False)) s)
          else (H_return, s)
      else (H_return, s))"

text \<open>Delivery of a signal to a thread. Signals other than the two have handlers of the program,
  which do not touch the state of the library.\<close>

definition deliver :: "pthread_t \<Rightarrow> nat \<Rightarrow> st \<Rightarrow> handler_result \<times> st" where
  "deliver self sig s =
     (if sig = PTHREAD_SIG_RESTART then pthread_sighandler self sig s
      else if sig = PTHREAD_SIG_CANCEL then pthread_handle_sigcancel self s
      else (H_return, s))"

section \<open>Suspension\<close>

text \<open>The loop \<open>do sigsuspend(&mask); while (self->p_signal != PTHREAD_SIG_RESTART);\<close>\<close>

partial_function (option) suspend_loop :: "env \<Rightarrow> pthread_t \<Rightarrow> sigset \<Rightarrow> st \<Rightarrow> unit res" where
  "suspend_loop E self msk s =
     (case sigsuspend_env E self msk s of None \<Rightarrow> None
      | Some (sig, s1) \<Rightarrow>
        (case deliver self sig s1 of (r, s2) \<Rightarrow>
          (case r of
             H_return \<Rightarrow> if p_signal (descr s2 self) \<noteq> PTHREAD_SIG_RESTART
                          then suspend_loop E self msk s2 else Some (Ret (), s2)
           | H_jump \<Rightarrow> Some (Jump, s2)
           | H_pexit v \<Rightarrow> Some (PExit v, s2)
           | H_exit c \<Rightarrow> Some (Exit c, s2))))"

definition suspend :: "env \<Rightarrow> pthread_t \<Rightarrow> st \<Rightarrow> unit res" where
  "suspend E self s = suspend_loop E self (sigmask s self - {PTHREAD_SIG_RESTART}) s"

definition suspend_with_cancellation :: "env \<Rightarrow> pthread_t \<Rightarrow> st \<Rightarrow> unit res" where
  "suspend_with_cancellation E self s =
     (let msk = sigmask s self - {PTHREAD_SIG_RESTART};
          s = upd_th self (p_cancel_jmp_update (\<lambda>_. True)) s;
          leave = upd_th self (p_cancel_jmp_update (\<lambda>_. False))
      in if \<not> (p_canceled (descr s self) \<and> p_cancelstate (descr s self) = PTHREAD_CANCEL_ENABLE)
         then (case suspend_loop E self msk s of
                 Some (Ret _, s') \<Rightarrow> Some (Ret (), leave s')
               | Some (Jump, s') \<Rightarrow>
                   Some (Ret (), s'\<lparr>sigmask := (sigmask s')(self := insert PTHREAD_SIG_RESTART msk)\<rparr>)
               | r \<Rightarrow> r)
         else Some (Ret (), leave s))"

section \<open>When a suspension ends\<close>

text \<open>The case distinction of one pass through the loop.\<close>

lemma suspend_loop_None [simp]:
  "sigsuspend_env E self msk s = None \<Longrightarrow> suspend_loop E self msk s = None"
  by (subst suspend_loop.simps) simp

lemma suspend_loop_return:
  "sigsuspend_env E self msk s = Some (sig, s1) \<Longrightarrow> deliver self sig s1 = (H_return, s2) \<Longrightarrow>
    p_signal (descr s2 self) = PTHREAD_SIG_RESTART \<Longrightarrow> suspend_loop E self msk s = Some (Ret (), s2)"
  by (subst suspend_loop.simps) simp

lemma suspend_loop_again:
  "sigsuspend_env E self msk s = Some (sig, s1) \<Longrightarrow> deliver self sig s1 = (H_return, s2) \<Longrightarrow>
    p_signal (descr s2 self) \<noteq> PTHREAD_SIG_RESTART \<Longrightarrow>
    suspend_loop E self msk s = suspend_loop E self msk s2"
  by (subst suspend_loop.simps) simp

lemma suspend_loop_jump:
  "sigsuspend_env E self msk s = Some (sig, s1) \<Longrightarrow> deliver self sig s1 = (H_jump, s2) \<Longrightarrow>
    suspend_loop E self msk s = Some (Jump, s2)"
  by (subst suspend_loop.simps) simp

lemma suspend_loop_pexit:
  "sigsuspend_env E self msk s = Some (sig, s1) \<Longrightarrow> deliver self sig s1 = (H_pexit v, s2) \<Longrightarrow>
    suspend_loop E self msk s = Some (PExit v, s2)"
  by (subst suspend_loop.simps) simp

lemmas suspend_loop_cases =
  suspend_loop_return suspend_loop_again suspend_loop_jump suspend_loop_pexit

text \<open>Induction over the passes of the loop, for facts about a suspension that came to an end.\<close>

lemma suspend_loop_induct:
  assumes ret: "suspend_loop E self msk s = Some r"
    and stop: "\<And>s sig s1 h s2. sigsuspend_env E self msk s = Some (sig, s1) \<Longrightarrow>
      deliver self sig s1 = (h, s2) \<Longrightarrow> h \<noteq> H_return \<or> p_signal (descr s2 self) = PTHREAD_SIG_RESTART \<Longrightarrow>
      P s (case h of H_return \<Rightarrow> Ret () | H_jump \<Rightarrow> Jump | H_pexit v \<Rightarrow> PExit v | H_exit c \<Rightarrow> Exit c, s2)"
    and again: "\<And>s sig s1 s2 r. sigsuspend_env E self msk s = Some (sig, s1) \<Longrightarrow>
      deliver self sig s1 = (H_return, s2) \<Longrightarrow> p_signal (descr s2 self) \<noteq> PTHREAD_SIG_RESTART \<Longrightarrow>
      P s2 r \<Longrightarrow> P s r"
  shows "P s r"
proof -
  have "E = E \<longrightarrow> self = self \<longrightarrow> msk = msk \<longrightarrow> P s r"
  proof (rule suspend_loop.raw_induct
      [where P = "\<lambda>E' self' msk' s r. E' = E \<longrightarrow> self' = self \<longrightarrow> msk' = msk \<longrightarrow> P s r", OF _ ret])
    fix f E' self' msk' s r
    assume IH: "\<And>E' self' msk' s r. f E' self' msk' s = Some r \<Longrightarrow>
        E' = E \<longrightarrow> self' = self \<longrightarrow> msk' = msk \<longrightarrow> P s r"
      and eq: "(case sigsuspend_env E' self' msk' s of None \<Rightarrow> None
      | Some (sig, s1) \<Rightarrow>
        (case deliver self' sig s1 of (r, s2) \<Rightarrow>
          (case r of
             H_return \<Rightarrow> if p_signal (descr s2 self') \<noteq> PTHREAD_SIG_RESTART
                          then f E' self' msk' s2 else Some (Ret (), s2)
           | H_jump \<Rightarrow> Some (Jump, s2)
           | H_pexit v \<Rightarrow> Some (PExit v, s2)
           | H_exit c \<Rightarrow> Some (Exit c, s2)))) = Some r"
    show "E' = E \<longrightarrow> self' = self \<longrightarrow> msk' = msk \<longrightarrow> P s r"
    proof (intro impI)
      assume same: "E' = E" "self' = self" "msk' = msk"
      obtain sig s1 where w: "sigsuspend_env E self msk s = Some (sig, s1)"
        using eq same by (auto split: option.splits)
      obtain h s2 where d: "deliver self sig s1 = (h, s2)" by (cases "deliver self sig s1")
      show "P s r"
      proof (cases "h = H_return \<and> p_signal (descr s2 self) \<noteq> PTHREAD_SIG_RESTART")
        case True
        with eq same w d have "f E self msk s2 = Some r" by simp
        with IH same have "P s2 r" by blast
        with w d True again show ?thesis by blast
      next
        case False
        then have "P s (case h of H_return \<Rightarrow> Ret () | H_jump \<Rightarrow> Jump | H_pexit v \<Rightarrow> PExit v
            | H_exit c \<Rightarrow> Exit c, s2)" using w d by (intro stop) auto
        moreover have "r = (case h of H_return \<Rightarrow> Ret () | H_jump \<Rightarrow> Jump | H_pexit v \<Rightarrow> PExit v
            | H_exit c \<Rightarrow> Exit c, s2)"
          using eq same w d False by (cases h) auto
        ultimately show ?thesis by simp
      qed
    qed
  qed
  then show ?thesis by simp
qed

text \<open>A suspension that returns has seen the restart signal as the last recorded one.\<close>

lemma suspend_returns_signal:
  assumes "suspend E self s = Some (Ret u, s')"
  shows "p_signal (descr s' self) = PTHREAD_SIG_RESTART"
proof -
  have "fst (Ret u, s') = Ret () \<longrightarrow> p_signal (descr (snd (Ret u, s')) self) = PTHREAD_SIG_RESTART"
    by (rule suspend_loop_induct [OF assms [unfolded suspend_def]])
      (auto split: handler_result.splits)
  then show ?thesis by simp
qed

text \<open>
  If the last recorded signal is not the restart signal when the thread goes to sleep, and the rest
  of the program neither restarts it nor writes the record, then the thread does not come back.
\<close>

lemma suspend_needs_restart:
  assumes "p_signal (descr s self) \<noteq> PTHREAD_SIG_RESTART"
    and "\<And>msk s sig s1. sigsuspend_env E self msk s = Some (sig, s1) \<Longrightarrow>
      sig \<noteq> PTHREAD_SIG_RESTART \<and> p_signal (descr s1 self) = p_signal (descr s self)"
  shows "suspend E self s \<noteq> Some (Ret u, s')"
proof
  have same: "p_signal (descr s2 self) = p_signal (descr s1 self)"
    if "deliver self sig s1 = (h, s2)" "sig \<noteq> PTHREAD_SIG_RESTART" for sig s1 h s2
    using that by (auto simp: deliver_def pthread_handle_sigcancel_def upd_th_def split: if_splits)
  assume "suspend E self s = Some (Ret u, s')"
  then have "suspend_loop E self (sigmask s self - {PTHREAD_SIG_RESTART}) s = Some (Ret u, s')"
    by (simp add: suspend_def)
  then have "p_signal (descr s self) \<noteq> PTHREAD_SIG_RESTART \<longrightarrow> fst (Ret u, s') \<noteq> Ret ()"
    by (rule suspend_loop_induct
        [where P = "\<lambda>s r. p_signal (descr s self) \<noteq> PTHREAD_SIG_RESTART \<longrightarrow> fst r \<noteq> Ret ()"])
      (use assms(2) same in \<open>force split: handler_result.splits\<close>)+
  with assms(1) show False by simp
qed

text \<open>
  An environment in which every suspended thread is restarted at once, a sleep lasts its full time,
  and a user function does nothing but leave a trace.
\<close>

definition prompt_env :: env where
  "prompt_env =
     \<lparr>sigsuspend_env = (\<lambda>_ _ s. Some (PTHREAD_SIG_RESTART, s)),
      nanosleep_env = (\<lambda>_ _ s. Some (None, s)),
      call_env = (\<lambda>f a s. (NULL, log (Call f a) s))\<rparr>"

lemma suspend_loop_prompt:
  assumes "self \<noteq> manager_thread s" and "\<not> p_signal_jmp (descr s self)"
  shows "suspend_loop prompt_env self msk s = Some (Ret (), upd_th self (p_signal_update (\<lambda>_. PTHREAD_SIG_RESTART)) s)"
  by (rule suspend_loop_return [of _ _ _ _ PTHREAD_SIG_RESTART s])
    (use assms in \<open>simp_all add: prompt_env_def deliver_def pthread_sighandler_def upd_th_def Let_def\<close>)

lemma suspend_prompt:
  assumes "self \<noteq> manager_thread s" and "\<not> p_signal_jmp (descr s self)"
  shows "suspend prompt_env self s = Some (Ret (), upd_th self (p_signal_update (\<lambda>_. PTHREAD_SIG_RESTART)) s)"
  using suspend_loop_prompt [OF assms] by (simp add: suspend_def)

lemma suspend_with_cancellation_prompt:
  assumes "self \<noteq> manager_thread s" and "\<not> p_signal_jmp (descr s self)" and "\<not> cancel_pending self s"
  shows "suspend_with_cancellation prompt_env self s =
    Some (Ret (), upd_th self (\<lambda>d. d\<lparr>p_signal := PTHREAD_SIG_RESTART, p_cancel_jmp := False\<rparr>) s)"
  using assms suspend_loop_prompt [of self "upd_th self (p_cancel_jmp_update (\<lambda>_. True)) s"]
  by (simp add: suspend_with_cancellation_def cancel_pending_def upd_th_def Let_def)

section \<open>Properties\<close>

text \<open>
  A thread whose last recorded signal is not the restart signal stays suspended until it is
  restarted: if no signal that ends its \<open>sigsuspend\<close> is the restart signal and nobody else writes the
  record, \<open>suspend\<close> does not return.
\<close>

theorem suspend_waits_for_restart:
  assumes "p_signal (descr s self) \<noteq> PTHREAD_SIG_RESTART"
    and "\<And>msk s sig s1. sigsuspend_env E self msk s = Some (sig, s1) \<Longrightarrow>
      sig \<noteq> PTHREAD_SIG_RESTART \<and> p_signal (descr s1 self) = p_signal (descr s self)"
  shows "suspend E self s \<noteq> Some (Ret u, s')"
  using assms by (rule suspend_needs_restart)

theorem suspend_waits_for_restart_witness:
  "suspend (prompt_env\<lparr>sigsuspend_env := (\<lambda>_ _ s. Some (14, s))\<rparr>) 8 zero_st \<noteq> Some (Ret (), zero_st)"
  by (rule suspend_waits_for_restart) (simp_all add: zero_st_def zero_descr_def)

text \<open>
  A defect of \<open>suspend\<close>. It does not clear the record of the last signal before it sleeps, so a
  thread that has been restarted once wakes up from a later suspension on any other signal that the
  program handles, although nobody has restarted it.
\<close>

theorem suspend_stale_signal:
  assumes "p_signal (descr s1 self) = PTHREAD_SIG_RESTART"
    and "sigsuspend_env E self (sigmask s self - {PTHREAD_SIG_RESTART}) s = Some (sig, s1)"
    and "sig \<noteq> PTHREAD_SIG_RESTART" and "sig \<noteq> PTHREAD_SIG_CANCEL"
  shows "suspend E self s = Some (Ret (), s1)"
  unfolding suspend_def
  by (rule suspend_loop_return [OF assms(2)]) (use assms in \<open>simp_all add: deliver_def\<close>)

theorem suspend_stale_signal_witness:
  "suspend (prompt_env\<lparr>sigsuspend_env := (\<lambda>_ _ s. Some (14, s))\<rparr>) 8
     (zero_st\<lparr>descr := (\<lambda>_. zero_descr\<lparr>p_signal := PTHREAD_SIG_RESTART\<rparr>)\<rparr>) =
   Some (Ret (), zero_st\<lparr>descr := (\<lambda>_. zero_descr\<lparr>p_signal := PTHREAD_SIG_RESTART\<rparr>)\<rparr>)"
  by (rule suspend_stale_signal [where sig = 14]) simp_all

text \<open>What the delivery of the restart signal leaves alone.\<close>

lemma deliver_restart_same:
  assumes "deliver t PTHREAD_SIG_RESTART s = (h, s')"
  shows "mutexes s' = mutexes s" and "sems s' = sems s" and "p_nextwaiting (descr s' u) = p_nextwaiting (descr s u)"
    and "p_signal_jmp (descr s' u) = p_signal_jmp (descr s u)" and "conds s' = conds s"
  using assms
  by (auto simp: deliver_def pthread_sighandler_def pthread_manager_sighandler_def upd_th_def Let_def
      split: if_splits)

end
