(* ===== verification/Mutex.thy ===== *)
theory Mutex
  imports Queue Restart
begin

text \<open>
  Mutexes (\<open>mutex.c\<close>): the operations on one mutex of the shared address space, executed by the
  thread \<open>self\<close>. What a thread does between \<open>acquire\<close> and \<open>release\<close> of the spin lock is a function of
  its own (\<open>mutex_lock_body\<close>, \<open>mutex_unlock_body\<close>); the interleaving of these sections by several
  threads is the subject of \<open>Mutex_Concurrent\<close>.
\<close>

definition acquire_mutex :: "addr \<Rightarrow> st \<Rightarrow> st option" where
  "acquire_mutex mu s = do {
     l \<leftarrow> acquire (m_spinlock (mutexes s mu));
     Some (upd_mutex mu (m_spinlock_update (\<lambda>_. l)) s) }"

definition release_mutex :: "addr \<Rightarrow> st \<Rightarrow> st" where
  [field_defs]: "release_mutex mu s =
     upd_mutex mu (\<lambda>m. m\<lparr>m_spinlock := release (m_spinlock m)\<rparr>) s"

definition pthread_mutex_init :: "addr \<Rightarrow> pthread_mutexattr_t option \<Rightarrow> st \<Rightarrow> int \<times> st" where
  "pthread_mutex_init mu mutex_attr s =
     (0, upd_mutex mu (\<lambda>_. \<lparr>m_spinlock = 0, m_count = 0, m_owner = NULL,
           m_kind = (case mutex_attr of None \<Rightarrow> PTHREAD_MUTEX_FAST_NP | Some a \<Rightarrow> mutexkind a),
           m_waiting = queue_init\<rparr>) s)"

definition pthread_mutex_destroy :: "addr \<Rightarrow> st \<Rightarrow> (int \<times> st) option" where
  "pthread_mutex_destroy mu s = do {
     s \<leftarrow> acquire_mutex mu s;
     let count = m_count (mutexes s mu);
     let s = release_mutex mu s;
     Some (if count > 0 then EBUSY else 0, s) }"

definition pthread_mutex_trylock :: "pthread_t \<Rightarrow> addr \<Rightarrow> st \<Rightarrow> (int \<times> st) option" where
  "pthread_mutex_trylock self mu s = do {
     s \<leftarrow> acquire_mutex mu s;
     let m = mutexes s mu;
     if m_kind m = PTHREAD_MUTEX_FAST_NP then
       if m_count m = 0
       then Some (0, release_mutex mu (upd_mutex mu (m_count_update (\<lambda>_. 1)) s))
       else Some (EBUSY, release_mutex mu s)
     else if m_kind m = PTHREAD_MUTEX_RECURSIVE_NP then
       if m_count m = 0 \<or> m_owner m = self
       then Some (0, release_mutex mu (upd_mutex mu
              (\<lambda>m. m\<lparr>m_count := m_count m + 1, m_owner := self\<rparr>) s))
       else Some (EBUSY, release_mutex mu s)
     else Some (EINVAL, s) }"

text \<open>
  One pass through the loop of \<open>pthread_mutex_lock\<close>, after the spin lock has been acquired: either
  the function returns a code, or the thread has entered the waiting queue and has to suspend itself.
\<close>

datatype attempt = Done int | Wait

definition mutex_lock_body :: "pthread_t \<Rightarrow> addr \<Rightarrow> st \<Rightarrow> attempt \<times> st" where
  "mutex_lock_body self mu s =
     (let m = mutexes s mu;
          wait = (let (q, h) = enqueue (m_waiting m) self (descr s);
                      s = upd_mutex mu (m_waiting_update (\<lambda>_. q)) (s\<lparr>descr := h\<rparr>)
                  in (Wait, release_mutex mu s))
      in if m_kind m = PTHREAD_MUTEX_FAST_NP then
           if m_count m = 0
           then (Done 0, release_mutex mu (upd_mutex mu (m_count_update (\<lambda>_. 1)) s))
           else wait
         else if m_kind m = PTHREAD_MUTEX_RECURSIVE_NP then
           if m_count m = 0 \<or> m_owner m = self
           then (Done 0, release_mutex mu (upd_mutex mu
                  (\<lambda>m. m\<lparr>m_count := m_count m + 1, m_owner := self\<rparr>) s))
           else wait
         else (Done EINVAL, s))"

definition pthread_mutex_lock_attempt :: "pthread_t \<Rightarrow> addr \<Rightarrow> st \<Rightarrow> (attempt \<times> st) option" where
  "pthread_mutex_lock_attempt self mu s = do {
     s \<leftarrow> acquire_mutex mu s;
     Some (mutex_lock_body self mu s) }"

partial_function (option) pthread_mutex_lock :: "env \<Rightarrow> pthread_t \<Rightarrow> addr \<Rightarrow> st \<Rightarrow> int res" where
  "pthread_mutex_lock E self mu s =
     (case pthread_mutex_lock_attempt self mu s of None \<Rightarrow> None
      | Some (a, s1) \<Rightarrow>
        (case a of Done r \<Rightarrow> Some (Ret r, s1)
         | Wait \<Rightarrow>
           (case suspend E self s1 of None \<Rightarrow> None
            | Some (f, s2) \<Rightarrow>
              (case f of Ret _ \<Rightarrow> pthread_mutex_lock E self mu s2
               | PExit v \<Rightarrow> Some (PExit v, s2)
               | Exit c \<Rightarrow> Some (Exit c, s2)
               | Jump \<Rightarrow> Some (Jump, s2)))))"

text \<open>
  \<open>pthread_mutex_unlock\<close> after the spin lock has been acquired: the code to return, the thread to
  restart (NULL if none), and the state after the spin lock has been released.
\<close>

definition mutex_unlock_body :: "addr \<Rightarrow> st \<Rightarrow> int \<times> pthread_t \<times> st" where
  "mutex_unlock_body mu s =
     (let wake = (\<lambda>s. let (th, q, h) = dequeue (m_waiting (mutexes s mu)) (descr s);
                          s = upd_mutex mu (m_waiting_update (\<lambda>_. q)) (s\<lparr>descr := h\<rparr>)
                      in (0, th, release_mutex mu s))
      in if m_kind (mutexes s mu) = PTHREAD_MUTEX_FAST_NP then
           wake (upd_mutex mu (m_count_update (\<lambda>_. 0)) s)
         else if m_kind (mutexes s mu) = PTHREAD_MUTEX_RECURSIVE_NP then
           let s = upd_mutex mu (m_count_update (\<lambda>c. c - 1)) s
           in if m_count (mutexes s mu) > 0 then (0, NULL, release_mutex mu s)
              else wake (upd_mutex mu (m_count_update (\<lambda>_. 0)) s)
         else (EINVAL, NULL, s))"

definition pthread_mutex_unlock :: "addr \<Rightarrow> st \<Rightarrow> (int \<times> st) option" where
  "pthread_mutex_unlock mu s = do {
     s \<leftarrow> acquire_mutex mu s;
     let (r, th, s) = mutex_unlock_body mu s;
     Some (r, if th \<noteq> NULL then restart th s else s) }"

definition pthread_mutexattr_init :: "pthread_mutexattr_t \<Rightarrow> int \<times> pthread_mutexattr_t" where
  "pthread_mutexattr_init attr = (0, attr\<lparr>mutexkind := PTHREAD_MUTEX_FAST_NP\<rparr>)"

definition pthread_mutexattr_destroy :: "pthread_mutexattr_t \<Rightarrow> int \<times> pthread_mutexattr_t" where
  "pthread_mutexattr_destroy attr = (0, attr)"

definition pthread_mutexattr_setkind_np ::
  "pthread_mutexattr_t \<Rightarrow> int \<Rightarrow> int \<times> pthread_mutexattr_t"
where
  "pthread_mutexattr_setkind_np attr kind =
     (if kind \<noteq> PTHREAD_MUTEX_FAST_NP \<and> kind \<noteq> PTHREAD_MUTEX_RECURSIVE_NP then (EINVAL, attr)
      else (0, attr\<lparr>mutexkind := kind\<rparr>))"

definition pthread_mutexattr_getkind_np :: "pthread_mutexattr_t \<Rightarrow> int \<times> int" where
  "pthread_mutexattr_getkind_np attr = (0, mutexkind attr)"

text \<open>\<open>pthread_once\<close>: the control word is tested and set atomically; the first caller runs the
  routine.\<close>

definition pthread_once :: "env \<Rightarrow> lockword \<Rightarrow> addr \<Rightarrow> st \<Rightarrow> int \<times> lockword \<times> st" where
  "pthread_once E once_control init_routine s =
     (let (old, once_control) = testandset once_control
      in (0, once_control, if old = 0 then snd (call_env E init_routine NULL s) else s))"

section \<open>Accessors\<close>

lemma release_mutex_simps [simp]:
  "descr (release_mutex mu s) = descr s"
  "mutexes (release_mutex mu s) = (mutexes s)(mu := (mutexes s mu)\<lparr>m_spinlock := 0\<rparr>)"
  "conds (release_mutex mu s) = conds s" "sems (release_mutex mu s) = sems s"
  "cleanup_bufs (release_mutex mu s) = cleanup_bufs s"
  "pthread_keys (release_mutex mu s) = pthread_keys s"
  "pthread_keys_mutex (release_mutex mu s) = pthread_keys_mutex s"
  "handlers (release_mutex mu s) = handlers s"
  "pthread_atfork_prepare (release_mutex mu s) = pthread_atfork_prepare s"
  "pthread_atfork_parent (release_mutex mu s) = pthread_atfork_parent s"
  "pthread_atfork_child (release_mutex mu s) = pthread_atfork_child s"
  "pthread_atfork_lock (release_mutex mu s) = pthread_atfork_lock s"
  "initial_thread (release_mutex mu s) = initial_thread s"
  "manager_thread (release_mutex mu s) = manager_thread s"
  "main_thread (release_mutex mu s) = main_thread s"
  "initial_thread_bos (release_mutex mu s) = initial_thread_bos s"
  "manager_thread_bos (release_mutex mu s) = manager_thread_bos s"
  "manager_thread_tos (release_mutex mu s) = manager_thread_tos s"
  "manager_request (release_mutex mu s) = manager_request s"
  "manager_reader (release_mutex mu s) = manager_reader s"
  "exit_requested (release_mutex mu s) = exit_requested s"
  "exit_code (release_mutex mu s) = exit_code s"
  "stack_segments (release_mutex mu s) = stack_segments s"
  "num_stack_segments (release_mutex mu s) = num_stack_segments s"
  "terminated_children (release_mutex mu s) = terminated_children s"
  "main_thread_exiting (release_mutex mu s) = main_thread_exiting s"
  "sigmask (release_mutex mu s) = sigmask s" "reqs (release_mutex mu s) = reqs s"
  "klog (release_mutex mu s) = klog s"
  by (simp_all add: release_mutex_def)

lemma acquire_mutex_eq:
  "acquire_mutex mu s =
     (if m_spinlock (mutexes s mu) = 0
      then Some (upd_mutex mu (m_spinlock_update (\<lambda>_. 1)) s) else None)"
  by (simp add: acquire_mutex_def)

lemma upd_mutex_id: "f (mutexes s mu) = mutexes s mu \<Longrightarrow> upd_mutex mu f s = s"
  by (simp add: upd_mutex_def)

lemma upd_mutex_comp: "upd_mutex mu f (upd_mutex mu g s) = upd_mutex mu (\<lambda>m. f (g m)) s"
  by (simp add: upd_mutex_def)

lemma mutex_spinlock_idem: "m_spinlock m = 0 \<Longrightarrow> m\<lparr>m_spinlock := 0\<rparr> = m"
  by (cases m) simp

lemma acquire_release_mutex:
  "m_spinlock (mutexes s mu) = 0 \<Longrightarrow>
    release_mutex mu (upd_mutex mu (m_spinlock_update (\<lambda>_. 1)) s) = s"
  unfolding release_mutex_def upd_mutex_comp by (rule upd_mutex_id) simp

section \<open>Well-formed mutexes\<close>

text \<open>
  Between operations a mutex has a free spin lock, one of the two kinds, a count that is not
  negative (at most 1 for a fast mutex), and a well-formed queue of waiting threads.
\<close>

definition mutex_kind_ok :: "pthread_mutex_t \<Rightarrow> bool" where
  "mutex_kind_ok m \<longleftrightarrow> m_kind m = PTHREAD_MUTEX_FAST_NP \<or> m_kind m = PTHREAD_MUTEX_RECURSIVE_NP"

definition mutex_count_ok :: "pthread_mutex_t \<Rightarrow> bool" where
  "mutex_count_ok m \<longleftrightarrow> 0 \<le> m_count m \<and> (m_kind m = PTHREAD_MUTEX_FAST_NP \<longrightarrow> m_count m \<le> 1)"

definition mutex_wf :: "heap \<Rightarrow> pthread_mutex_t \<Rightarrow> pthread_t list \<Rightarrow> bool" where
  "mutex_wf h m xs \<longleftrightarrow>
     m_spinlock m = 0 \<and> mutex_kind_ok m \<and> mutex_count_ok m \<and> is_queue h (m_waiting m) xs"

lemmas mutex_wf_defs = mutex_wf_def mutex_kind_ok_def mutex_count_ok_def

text \<open>When a lock attempt can succeed at once.\<close>

definition lockable :: "pthread_t \<Rightarrow> pthread_mutex_t \<Rightarrow> bool" where
  "lockable self m \<longleftrightarrow>
     m_count m = 0 \<or> (m_kind m = PTHREAD_MUTEX_RECURSIVE_NP \<and> m_owner m = self)"

lemma mutex_init_wf: "mutex_wf h (mutexes (snd (pthread_mutex_init mu None s)) mu) []"
  by (simp add: pthread_mutex_init_def mutex_wf_defs)

lemma lock_attempt_succeeds:
  assumes "mutex_wf (descr s) (mutexes s mu) xs" and "lockable self (mutexes s mu)"
  shows "\<exists>s'. pthread_mutex_lock_attempt self mu s = Some (Done 0, s') \<and>
    pthread_mutex_trylock self mu s = Some (0, s') \<and>
    descr s' = descr s \<and> klog s' = klog s \<and> mutex_wf (descr s') (mutexes s' mu) xs \<and>
    m_count (mutexes s' mu) = m_count (mutexes s mu) + 1 \<and>
    m_kind (mutexes s' mu) = m_kind (mutexes s mu) \<and>
    (\<forall>mu'. mu' \<noteq> mu \<longrightarrow> mutexes s' mu' = mutexes s mu')"
  using assms
  by (auto simp: pthread_mutex_lock_attempt_def mutex_lock_body_def acquire_mutex_eq mutex_wf_defs
      lockable_def pthread_mutex_trylock_def)

lemma lock_attempt_waits:
  assumes wf: "mutex_wf (descr s) (mutexes s mu) xs" and "\<not> lockable self (mutexes s mu)"
    and "self \<noteq> NULL" and "self \<notin> set xs" and "p_nextwaiting (descr s self) = NULL"
  shows "\<exists>s'. pthread_mutex_lock_attempt self mu s = Some (Wait, s') \<and>
    mutex_wf (descr s') (mutexes s' mu) (xs @ [self]) \<and> klog s' = klog s \<and> sigmask s' = sigmask s \<and>
    m_count (mutexes s' mu) = m_count (mutexes s mu)"
proof -
  obtain q h where e: "enqueue (m_waiting (mutexes s mu)) self (descr s) = (q, h)"
    by (cases "enqueue (m_waiting (mutexes s mu)) self (descr s)")
  then have "is_queue h q (xs @ [self])"
    using assms by (auto simp: mutex_wf_def intro: enqueue_refines)
  then show ?thesis using assms e
    by (auto simp: pthread_mutex_lock_attempt_def mutex_lock_body_def acquire_mutex_eq mutex_wf_defs
        lockable_def)
qed

lemma trylock_busy:
  assumes "mutex_wf (descr s) (mutexes s mu) xs" and "\<not> lockable self (mutexes s mu)"
  shows "pthread_mutex_trylock self mu s = Some (EBUSY, s)"
  using assms
  by (auto simp: pthread_mutex_trylock_def acquire_mutex_eq mutex_wf_defs lockable_def
      acquire_release_mutex)

text \<open>Unlocking: a recursive mutex that stays locked, and the hand-over to the first waiting thread.\<close>

lemma unlock_nested:
  assumes "mutex_wf (descr s) (mutexes s mu) xs" and "m_kind (mutexes s mu) = PTHREAD_MUTEX_RECURSIVE_NP"
    and "m_count (mutexes s mu) > 1"
  shows "\<exists>s'. pthread_mutex_unlock mu s = Some (0, s') \<and> mutex_wf (descr s') (mutexes s' mu) xs \<and>
    m_count (mutexes s' mu) = m_count (mutexes s mu) - 1 \<and> m_owner (mutexes s' mu) = m_owner (mutexes s mu) \<and>
    m_kind (mutexes s' mu) = m_kind (mutexes s mu) \<and>
    klog s' = klog s \<and> descr s' = descr s"
  using assms
  by (auto simp: pthread_mutex_unlock_def mutex_unlock_body_def acquire_mutex_eq mutex_wf_defs)

lemma unlock_releases:
  assumes wf: "mutex_wf (descr s) (mutexes s mu) xs"
    and last: "m_kind (mutexes s mu) = PTHREAD_MUTEX_FAST_NP \<or> m_count (mutexes s mu) \<le> 1"
  shows "\<exists>s'. pthread_mutex_unlock mu s = Some (0, s') \<and>
    mutex_wf (descr s') (mutexes s' mu) (tl xs) \<and> m_count (mutexes s' mu) = 0 \<and>
    m_kind (mutexes s' mu) = m_kind (mutexes s mu) \<and>
    klog s' = klog s @ (if xs = [] then [] else [Kill (p_pid (descr s (hd xs))) PTHREAD_SIG_RESTART]) \<and>
    (xs \<noteq> [] \<longrightarrow> p_nextwaiting (descr s' (hd xs)) = NULL) \<and> conds s' = conds s \<and>
    (\<forall>t. t \<notin> set xs \<longrightarrow> descr s' t = descr s t)"
proof (cases xs)
  case Nil
  then have "dequeue (m_waiting (mutexes s mu)) (descr s) = (NULL, m_waiting (mutexes s mu), descr s)"
    using wf by (simp add: mutex_wf_def dequeue_Nil)
  then show ?thesis using wf last Nil
    by (auto simp: pthread_mutex_unlock_def mutex_unlock_body_def acquire_mutex_eq mutex_wf_defs Let_def)
next
  case (Cons x ys)
  then obtain q where "dequeue (m_waiting (mutexes s mu)) (descr s) = (x, q, set_nextwaiting x NULL (descr s))"
    and "is_queue (set_nextwaiting x NULL (descr s)) q ys"
    using wf by (auto simp: mutex_wf_def elim: dequeue_Cons)
  moreover have "x \<noteq> NULL" using wf Cons by (auto simp: mutex_wf_def dest: is_queue_NULL)
  moreover have "p_pid (set_nextwaiting x NULL (descr s) x) = p_pid (descr s x)"
    "t \<noteq> x \<Longrightarrow> set_nextwaiting x NULL (descr s) t = descr s t" for t
    by (simp_all add: set_nextwaiting_def)
  ultimately show ?thesis using wf last Cons
    by (auto simp: pthread_mutex_unlock_def mutex_unlock_body_def acquire_mutex_eq mutex_wf_defs Let_def)
qed

section \<open>Blocking lock\<close>

lemma mutex_lock_immediate:
  assumes "pthread_mutex_lock_attempt self mu s = Some (Done r, s')"
  shows "pthread_mutex_lock E self mu s = Some (Ret r, s')"
  using assms by (subst pthread_mutex_lock.simps) simp

lemma mutex_lock_wait:
  assumes "pthread_mutex_lock_attempt self mu s = Some (Wait, s1)" and "suspend E self s1 = Some (Ret u, s2)"
  shows "pthread_mutex_lock E self mu s = pthread_mutex_lock E self mu s2"
  using assms by (subst pthread_mutex_lock.simps) simp

text \<open>
  However often the thread had to wait, and whatever the other threads did meanwhile: when
  \<open>pthread_mutex_lock\<close> returns, its last pass was a successful attempt.
\<close>

lemma mutex_lock_returns_attempt:
  assumes "pthread_mutex_lock E self mu s = Some (Ret r, s')"
  shows "\<exists>s0. pthread_mutex_lock_attempt self mu s0 = Some (Done r, s')"
proof -
  have "fst (Ret r, s') = Ret r \<longrightarrow>
      (\<exists>s0. pthread_mutex_lock_attempt self mu s0 = Some (Done r, snd (Ret r, s')))"
  proof (rule pthread_mutex_lock.raw_induct [where P = "\<lambda>E self mu s q. fst q = Ret r \<longrightarrow>
      (\<exists>s0. pthread_mutex_lock_attempt self mu s0 = Some (Done r, snd q))", OF _ assms])
    fix f E self mu s q
    assume IH: "\<And>E self mu s q. f E self mu s = Some q \<Longrightarrow> fst q = Ret r \<longrightarrow>
        (\<exists>s0. pthread_mutex_lock_attempt self mu s0 = Some (Done r, snd q))"
      and eq: "(case pthread_mutex_lock_attempt self mu s of None \<Rightarrow> None
      | Some (a, s1) \<Rightarrow>
        (case a of Done r \<Rightarrow> Some (Ret r, s1)
         | Wait \<Rightarrow>
           (case suspend E self s1 of None \<Rightarrow> None
            | Some (g, s2) \<Rightarrow>
              (case g of Ret _ \<Rightarrow> f E self mu s2
               | PExit v \<Rightarrow> Some (PExit v, s2)
               | Exit c \<Rightarrow> Some (Exit c, s2)
               | Jump \<Rightarrow> Some (Jump, s2))))) = Some q"
    have "(\<exists>s1. q = (Ret r, s1) \<and> pthread_mutex_lock_attempt self mu s = Some (Done r, s1)) \<or>
        (\<exists>s2. f E self mu s2 = Some q)" if "fst q = Ret r"
      using eq that by (auto split: option.splits attempt.splits flow.splits)
    then show "fst q = Ret r \<longrightarrow> (\<exists>s0. pthread_mutex_lock_attempt self mu s0 = Some (Done r, snd q))"
      using IH [of E self mu _ q] by (auto, blast)
  qed
  then show ?thesis by simp
qed

lemma lock_attempt_done:
  assumes "pthread_mutex_lock_attempt self mu s = Some (Done 0, s')"
  shows "m_count (mutexes s' mu) \<noteq> 0 \<or> m_count (mutexes s mu) = - 1"
  using assms
  by (auto simp: pthread_mutex_lock_attempt_def mutex_lock_body_def acquire_mutex_eq Let_def
      split: if_splits prod.splits)

section \<open>Properties\<close>

text \<open>For the witnesses: thread 8 owns the recursive mutex 0 twice.\<close>

definition recursive_held :: st where
  "recursive_held = zero_st\<lparr>mutexes := (\<lambda>_. PTHREAD_RECURSIVE_MUTEX_INITIALIZER_NP\<lparr>m_count := 2, m_owner := 8\<rparr>)\<rparr>"

lemma recursive_held_wf: "mutex_wf (descr recursive_held) (mutexes recursive_held 0) []"
  by (simp add: recursive_held_def mutex_wf_defs is_queue_def PTHREAD_RECURSIVE_MUTEX_INITIALIZER_NP_def)

text \<open>
  Locking a recursive mutex one owns and unlocking it again is the identity: both return 0 at
  once, the count grows by one in between, nobody is restarted, and the whole state is as before.
\<close>

theorem recursive_lock_unlock:
  assumes "mutex_wf (descr s) (mutexes s mu) xs" and "m_kind (mutexes s mu) = PTHREAD_MUTEX_RECURSIVE_NP"
    and "m_owner (mutexes s mu) = self" and "m_count (mutexes s mu) > 0"
  shows "\<exists>s1. pthread_mutex_lock E self mu s = Some (Ret 0, s1) \<and>
    m_count (mutexes s1 mu) = m_count (mutexes s mu) + 1 \<and> pthread_mutex_unlock mu s1 = Some (0, s)"
proof -
  have m: "m_spinlock (mutexes s mu) = 0" using assms(1) by (simp add: mutex_wf_def)
  define s1 where "s1 = upd_mutex mu (\<lambda>m. m\<lparr>m_count := m_count m + 1\<rparr>) s"
  have "pthread_mutex_lock_attempt self mu s = Some (Done 0, s1)"
    using assms m by (auto simp: pthread_mutex_lock_attempt_def mutex_lock_body_def acquire_mutex_eq
        release_mutex_def upd_mutex_def s1_def mutex_spinlock_idem)
  then have "pthread_mutex_lock E self mu s = Some (Ret 0, s1)" by (rule mutex_lock_immediate)
  moreover have "pthread_mutex_unlock mu s1 = Some (0, s)"
    using assms m by (auto simp: pthread_mutex_unlock_def mutex_unlock_body_def acquire_mutex_eq
        release_mutex_def upd_mutex_def s1_def fun_upd_idem)
  ultimately show ?thesis by (auto simp: s1_def)
qed

theorem recursive_lock_unlock_witness:
  "\<exists>s1. pthread_mutex_lock prompt_env 8 0 recursive_held = Some (Ret 0, s1) \<and>
    m_count (mutexes s1 0) = 3 \<and> pthread_mutex_unlock 0 s1 = Some (0, recursive_held)"
  using recursive_lock_unlock [OF recursive_held_wf, of 8 prompt_env]
  by (simp add: recursive_held_def PTHREAD_RECURSIVE_MUTEX_INITIALIZER_NP_def)

text \<open>
  \<open>pthread_mutex_trylock\<close> and \<open>pthread_mutex_lock\<close> agree: when the thread can have the mutex, both
  return 0 with the same new state, in which the count is one higher; when it cannot, \<open>trylock\<close>
  returns \<open>EBUSY\<close> and changes nothing, while \<open>lock\<close> puts the thread at the end of the waiting queue.
\<close>

theorem trylock_agrees_with_lock:
  assumes "mutex_wf (descr s) (mutexes s mu) xs" and "self \<noteq> NULL" and "self \<notin> set xs"
    and "p_nextwaiting (descr s self) = NULL"
  shows "if lockable self (mutexes s mu)
    then \<exists>s'. pthread_mutex_trylock self mu s = Some (0, s') \<and> pthread_mutex_lock E self mu s = Some (Ret 0, s') \<and>
      mutex_wf (descr s') (mutexes s' mu) xs \<and> m_count (mutexes s' mu) = m_count (mutexes s mu) + 1
    else pthread_mutex_trylock self mu s = Some (EBUSY, s) \<and>
      (\<exists>s'. pthread_mutex_lock_attempt self mu s = Some (Wait, s') \<and>
        mutex_wf (descr s') (mutexes s' mu) (xs @ [self]))"
proof (cases "lockable self (mutexes s mu)")
  case True
  from lock_attempt_succeeds [OF assms(1) this] obtain s' where
    "pthread_mutex_lock_attempt self mu s = Some (Done 0, s')" "pthread_mutex_trylock self mu s = Some (0, s')"
    "mutex_wf (descr s') (mutexes s' mu) xs" "m_count (mutexes s' mu) = m_count (mutexes s mu) + 1"
    by blast
  with True show ?thesis using mutex_lock_immediate [of self mu s 0 s' E] by auto
next
  case False
  with trylock_busy [OF assms(1) False] lock_attempt_waits [OF assms(1) False assms(2-4)]
  show ?thesis by auto
qed

theorem trylock_agrees_with_lock_witness:
  "pthread_mutex_trylock 16 0 recursive_held = Some (EBUSY, recursive_held)"
  using trylock_agrees_with_lock [OF recursive_held_wf, of 16]
  by (simp add: recursive_held_def PTHREAD_RECURSIVE_MUTEX_INITIALIZER_NP_def lockable_def zero_st_def
      zero_descr_def)

text \<open>
  The unlock that gives up a mutex hands it to the threads in the order of their arrival: the
  first waiting thread is taken off the queue and is the only one that is sent the restart signal,
  the count is 0 and the mutex is well-formed again.
\<close>

theorem unlock_restarts_first:
  assumes "mutex_wf (descr s) (mutexes s mu) xs"
    and "m_kind (mutexes s mu) = PTHREAD_MUTEX_FAST_NP \<or> m_count (mutexes s mu) \<le> 1"
  shows "\<exists>s'. pthread_mutex_unlock mu s = Some (0, s') \<and>
    mutex_wf (descr s') (mutexes s' mu) (tl xs) \<and> m_count (mutexes s' mu) = 0 \<and>
    klog s' = klog s @ (if xs = [] then [] else [Kill (p_pid (descr s (hd xs))) PTHREAD_SIG_RESTART])"
  using unlock_releases [OF assms] by blast

theorem unlock_restarts_first_witness:
  "\<exists>s'. pthread_mutex_unlock 0 (zero_st\<lparr>mutexes := (\<lambda>_. PTHREAD_MUTEX_INITIALIZER\<lparr>m_count := 1,
      m_waiting := \<lparr>head = 8, tail = 8\<rparr>\<rparr>)\<rparr>) = Some (0, s') \<and> klog s' = [Kill 0 PTHREAD_SIG_RESTART]"
proof -
  let ?s = "zero_st\<lparr>mutexes := (\<lambda>_. PTHREAD_MUTEX_INITIALIZER\<lparr>m_count := 1, m_waiting := \<lparr>head = 8, tail = 8\<rparr>\<rparr>)\<rparr>"
  have "mutex_wf (descr ?s) (mutexes ?s 0) [8]"
    by (simp add: mutex_wf_defs is_queue_def PTHREAD_MUTEX_INITIALIZER_def zero_st_def zero_descr_def)
  from unlock_restarts_first [OF this] show ?thesis
    by (auto simp: PTHREAD_MUTEX_INITIALIZER_def zero_st_def zero_descr_def)
qed

text \<open>
  A defect of the error paths. On a mutex of an unknown kind, \<open>pthread_mutex_lock\<close>,
  \<open>pthread_mutex_trylock\<close> and \<open>pthread_mutex_unlock\<close> return \<open>EINVAL\<close> without releasing the spin lock
  they have acquired: every later operation on the mutex, even \<open>pthread_mutex_destroy\<close>, spins for
  ever.
\<close>

theorem invalid_kind_leaks_spinlock:
  assumes "m_spinlock (mutexes s mu) = 0" and "\<not> mutex_kind_ok (mutexes s mu)"
  shows "\<exists>s'. pthread_mutex_lock E self mu s = Some (Ret EINVAL, s') \<and>
    pthread_mutex_trylock self mu s = Some (EINVAL, s') \<and> pthread_mutex_unlock mu s = Some (EINVAL, s') \<and>
    pthread_mutex_lock E self mu s' = None \<and> pthread_mutex_unlock mu s' = None \<and>
    pthread_mutex_destroy mu s' = None"
proof -
  define s' where "s' = upd_mutex mu (m_spinlock_update (\<lambda>_. 1)) s"
  have a: "pthread_mutex_lock_attempt self mu s = Some (Done EINVAL, s')"
    using assms by (simp add: pthread_mutex_lock_attempt_def mutex_lock_body_def acquire_mutex_eq
        mutex_kind_ok_def s'_def)
  have "pthread_mutex_lock_attempt self mu s' = None"
    by (simp add: pthread_mutex_lock_attempt_def acquire_mutex_eq s'_def)
  then have "pthread_mutex_lock E self mu s' = None" by (subst pthread_mutex_lock.simps) simp
  with mutex_lock_immediate [OF a, of E] assms show ?thesis
    by (intro exI [of _ s']) (simp add: pthread_mutex_trylock_def pthread_mutex_unlock_def
        pthread_mutex_destroy_def mutex_unlock_body_def acquire_mutex_eq mutex_kind_ok_def s'_def)
qed

theorem invalid_kind_leaks_spinlock_witness:
  "\<exists>s'. pthread_mutex_trylock 8 0 (zero_st\<lparr>mutexes := (\<lambda>_. PTHREAD_MUTEX_INITIALIZER\<lparr>m_kind := 7\<rparr>)\<rparr>) =
      Some (EINVAL, s') \<and> pthread_mutex_destroy 0 s' = None"
  using invalid_kind_leaks_spinlock [of "zero_st\<lparr>mutexes := (\<lambda>_. PTHREAD_MUTEX_INITIALIZER\<lparr>m_kind := 7\<rparr>)\<rparr>" 0]
  by (auto simp: PTHREAD_MUTEX_INITIALIZER_def mutex_kind_ok_def)

end
