(* ===== verification/Mutex_Concurrent.thy ===== *)
theory Mutex_Concurrent
  imports Mutex
begin

text \<open>
  Any number of threads on one fast mutex. A thread moves between the control points of
  \<open>pthread_mutex_lock\<close>, \<open>suspend\<close> and \<open>pthread_mutex_unlock\<close>; a step is one \<open>testandset\<close>, one section
  under the spin lock, one signal sent by \<open>restart\<close>, or one signal received in \<open>sigsuspend\<close>. The steps
  run the definitions of \<open>Mutex\<close> on the shared state (\<open>mstep\<close>). They are shown to refine an abstract
  lock with an explicit list of waiting threads (\<open>astep\<close>), whose invariant gives mutual exclusion and
  the absence of lost wake-ups.

  The restart signal is pending for a thread (\<open>m_sig\<close>) from the call of \<open>restart\<close> until its handler
  has run. Here it is the only signal that ends a suspension.
\<close>

datatype mpc =
    MIdle | MLockSpin | MLockCrit | MSleeping | MOwner | MUnlockSpin | MUnlockCrit | MUnlockWake addr

record msys =
  m_st :: st
  m_ctl :: "pthread_t \<Rightarrow> mpc"
  m_sig :: "pthread_t \<Rightarrow> bool"

inductive mstep :: "addr \<Rightarrow> msys \<Rightarrow> msys \<Rightarrow> bool" for mu where
  lock_call: "m_ctl x t = MIdle \<Longrightarrow> t \<noteq> NULL \<Longrightarrow>
     mstep mu x (x\<lparr>m_ctl := (m_ctl x)(t := MLockSpin)\<rparr>)"
| lock_acq: "m_ctl x t = MLockSpin \<Longrightarrow> acquire_mutex mu (m_st x) = Some s' \<Longrightarrow>
     mstep mu x (x\<lparr>m_st := s', m_ctl := (m_ctl x)(t := MLockCrit)\<rparr>)"
| lock_got: "m_ctl x t = MLockCrit \<Longrightarrow> mutex_lock_body t mu (m_st x) = (Done r, s') \<Longrightarrow>
     mstep mu x (x\<lparr>m_st := s', m_ctl := (m_ctl x)(t := MOwner)\<rparr>)"
| lock_wait: "m_ctl x t = MLockCrit \<Longrightarrow> mutex_lock_body t mu (m_st x) = (Wait, s') \<Longrightarrow>
     mstep mu x (x\<lparr>m_st := s', m_ctl := (m_ctl x)(t := MSleeping)\<rparr>)"
| wake: "m_ctl x t = MSleeping \<Longrightarrow> m_sig x t \<Longrightarrow>
     deliver t PTHREAD_SIG_RESTART (m_st x) = (H_return, s') \<Longrightarrow>
     mstep mu x (x\<lparr>m_st := s', m_ctl := (m_ctl x)(t := MLockSpin), m_sig := (m_sig x)(t := False)\<rparr>)"
| unlock_call: "m_ctl x t = MOwner \<Longrightarrow> mstep mu x (x\<lparr>m_ctl := (m_ctl x)(t := MUnlockSpin)\<rparr>)"
| unlock_acq: "m_ctl x t = MUnlockSpin \<Longrightarrow> acquire_mutex mu (m_st x) = Some s' \<Longrightarrow>
     mstep mu x (x\<lparr>m_st := s', m_ctl := (m_ctl x)(t := MUnlockCrit)\<rparr>)"
| unlock_none: "m_ctl x t = MUnlockCrit \<Longrightarrow> mutex_unlock_body mu (m_st x) = (r, NULL, s') \<Longrightarrow>
     mstep mu x (x\<lparr>m_st := s', m_ctl := (m_ctl x)(t := MIdle)\<rparr>)"
| unlock_some: "m_ctl x t = MUnlockCrit \<Longrightarrow> mutex_unlock_body mu (m_st x) = (r, th, s') \<Longrightarrow> th \<noteq> NULL \<Longrightarrow>
     mstep mu x (x\<lparr>m_st := s', m_ctl := (m_ctl x)(t := MUnlockWake th)\<rparr>)"
| unlock_wake: "m_ctl x t = MUnlockWake th \<Longrightarrow>
     mstep mu x (x\<lparr>m_st := restart th (m_st x), m_ctl := (m_ctl x)(t := MIdle),
                   m_sig := (m_sig x)(th := True)\<rparr>)"

text \<open>Initially the mutex is in its initial state and no thread is in any queue or in \<open>sigwait\<close>.\<close>

definition minit :: "addr \<Rightarrow> msys \<Rightarrow> bool" where
  "minit mu x \<longleftrightarrow>
     mutexes (m_st x) mu = PTHREAD_MUTEX_INITIALIZER \<and>
     (\<forall>t. p_nextwaiting (descr (m_st x) t) = NULL \<and> \<not> p_signal_jmp (descr (m_st x) t)) \<and>
     m_ctl x = (\<lambda>_. MIdle) \<and> m_sig x = (\<lambda>_. False)"

inductive mreach :: "addr \<Rightarrow> msys \<Rightarrow> bool" for mu where
  init: "minit mu x \<Longrightarrow> mreach mu x"
| step: "mreach mu x \<Longrightarrow> mstep mu x y \<Longrightarrow> mreach mu y"

section \<open>The abstract lock\<close>

record alock =
  a_spin :: "pthread_t option"
  a_owner :: "pthread_t option"
  a_queue :: "pthread_t list"
  a_ctl :: "pthread_t \<Rightarrow> mpc"
  a_sig :: "pthread_t \<Rightarrow> bool"

inductive astep :: "alock \<Rightarrow> alock \<Rightarrow> bool" where
  a_lock_call: "a_ctl a t = MIdle \<Longrightarrow> t \<noteq> NULL \<Longrightarrow> astep a (a\<lparr>a_ctl := (a_ctl a)(t := MLockSpin)\<rparr>)"
| a_lock_acq: "a_ctl a t = MLockSpin \<Longrightarrow> a_spin a = None \<Longrightarrow>
     astep a (a\<lparr>a_spin := Some t, a_ctl := (a_ctl a)(t := MLockCrit)\<rparr>)"
| a_lock_got: "a_ctl a t = MLockCrit \<Longrightarrow> a_owner a = None \<Longrightarrow>
     astep a (a\<lparr>a_spin := None, a_owner := Some t, a_ctl := (a_ctl a)(t := MOwner)\<rparr>)"
| a_lock_wait: "a_ctl a t = MLockCrit \<Longrightarrow> a_owner a \<noteq> None \<Longrightarrow>
     astep a (a\<lparr>a_spin := None, a_queue := a_queue a @ [t], a_ctl := (a_ctl a)(t := MSleeping)\<rparr>)"
| a_wake: "a_ctl a t = MSleeping \<Longrightarrow> a_sig a t \<Longrightarrow>
     astep a (a\<lparr>a_ctl := (a_ctl a)(t := MLockSpin), a_sig := (a_sig a)(t := False)\<rparr>)"
| a_unlock_call: "a_ctl a t = MOwner \<Longrightarrow> astep a (a\<lparr>a_ctl := (a_ctl a)(t := MUnlockSpin)\<rparr>)"
| a_unlock_acq: "a_ctl a t = MUnlockSpin \<Longrightarrow> a_spin a = None \<Longrightarrow>
     astep a (a\<lparr>a_spin := Some t, a_ctl := (a_ctl a)(t := MUnlockCrit)\<rparr>)"
| a_unlock_none: "a_ctl a t = MUnlockCrit \<Longrightarrow> a_queue a = [] \<Longrightarrow>
     astep a (a\<lparr>a_spin := None, a_owner := None, a_queue := [], a_ctl := (a_ctl a)(t := MIdle)\<rparr>)"
| a_unlock_some: "a_ctl a t = MUnlockCrit \<Longrightarrow> a_queue a = th # q \<Longrightarrow>
     astep a (a\<lparr>a_spin := None, a_owner := None, a_queue := q,
                a_ctl := (a_ctl a)(t := MUnlockWake th)\<rparr>)"
| a_unlock_wake: "a_ctl a t = MUnlockWake th \<Longrightarrow>
     astep a (a\<lparr>a_ctl := (a_ctl a)(t := MIdle), a_sig := (a_sig a)(th := True)\<rparr>)"

text \<open>Control points inside the spin lock, and control points of the thread that owns the mutex.\<close>

definition in_crit :: "mpc \<Rightarrow> bool" where
  "in_crit c \<longleftrightarrow> c = MLockCrit \<or> c = MUnlockCrit"

definition owning :: "mpc \<Rightarrow> bool" where
  "owning c \<longleftrightarrow> c = MOwner \<or> c = MUnlockSpin \<or> c = MUnlockCrit"

text \<open>The threads that some other thread has dequeued and is about to restart.\<close>

definition waking :: "(pthread_t \<Rightarrow> mpc) \<Rightarrow> pthread_t set" where
  "waking ctl = {t. \<exists>u. ctl u = MUnlockWake t}"

text \<open>The thread is on its way to the lock: trying, restarted, or about to be restarted.\<close>

definition a_coming :: "alock \<Rightarrow> pthread_t \<Rightarrow> bool" where
  "a_coming a t \<longleftrightarrow> a_ctl a t \<in> {MLockSpin, MLockCrit} \<or> a_sig a t \<or> t \<in> waking (a_ctl a)"

definition spin_ok :: "alock \<Rightarrow> bool" where
  "spin_ok a \<longleftrightarrow> excl in_crit (a_ctl a) (a_spin a)"

definition held_ok :: "alock \<Rightarrow> bool" where
  "held_ok a \<longleftrightarrow> excl owning (a_ctl a) (a_owner a)"

definition waking_ok :: "(pthread_t \<Rightarrow> mpc) \<Rightarrow> bool" where
  "waking_ok ctl \<longleftrightarrow> (\<forall>t u v. ctl u = MUnlockWake t \<longrightarrow> ctl v = MUnlockWake t \<longrightarrow> u = v)"

definition sleep_ok :: "alock \<Rightarrow> bool" where
  "sleep_ok a \<longleftrightarrow>
     (\<forall>t. t \<in> set (a_queue a) \<longleftrightarrow> a_ctl a t = MSleeping \<and> \<not> a_sig a t \<and> t \<notin> waking (a_ctl a)) \<and>
     distinct (a_queue a) \<and>
     (\<forall>t \<in> waking (a_ctl a). a_ctl a t = MSleeping \<and> \<not> a_sig a t) \<and> waking_ok (a_ctl a) \<and>
     (\<forall>t. a_sig a t \<longrightarrow> a_ctl a t = MSleeping) \<and> a_ctl a NULL = MIdle"

definition wake_ok :: "alock \<Rightarrow> bool" where
  "wake_ok a \<longleftrightarrow> (a_owner a = None \<longrightarrow> a_queue a \<noteq> [] \<longrightarrow> (\<exists>t. a_coming a t))"

lemma waking_other [simp]:
  "(\<And>u. ctl t \<noteq> MUnlockWake u) \<Longrightarrow> (\<And>u. c \<noteq> MUnlockWake u) \<Longrightarrow> waking (ctl(t := c)) = waking ctl"
  unfolding waking_def by auto metis

lemma waking_add:
  "(\<And>u. ctl t \<noteq> MUnlockWake u) \<Longrightarrow> waking (ctl(t := MUnlockWake th)) = insert th (waking ctl)"
  unfolding waking_def by auto metis

lemma waking_drop:
  "ctl t = MUnlockWake th \<Longrightarrow> waking_ok ctl \<Longrightarrow> (\<And>u. c \<noteq> MUnlockWake u) \<Longrightarrow>
    waking (ctl(t := c)) = waking ctl - {th}"
  unfolding waking_def waking_ok_def by auto (metis mpc.inject)+

lemma waking_ok_other:
  "waking_ok ctl \<Longrightarrow> (\<And>u. c \<noteq> MUnlockWake u) \<Longrightarrow> waking_ok (ctl(t := c))"
  by (auto simp: waking_ok_def)

lemma waking_ok_add:
  "waking_ok ctl \<Longrightarrow> th \<notin> waking ctl \<Longrightarrow> waking_ok (ctl(t := MUnlockWake th))"
  by (auto simp: waking_ok_def waking_def)

lemma spin_ok_step: "astep a b \<Longrightarrow> spin_ok a \<Longrightarrow> spin_ok b"
  by (induction rule: astep.induct)
    (simp_all add: spin_ok_def excl_same excl_take excl_drop in_crit_def)

lemma held_ok_step: "astep a b \<Longrightarrow> held_ok a \<Longrightarrow> held_ok b"
  by (induction rule: astep.induct)
    (simp_all add: held_ok_def excl_same excl_take excl_drop owning_def)

lemma sleep_okD:
  assumes "sleep_ok a"
  shows "t \<in> set (a_queue a) \<longleftrightarrow> a_ctl a t = MSleeping \<and> \<not> a_sig a t \<and> t \<notin> waking (a_ctl a)"
    and "distinct (a_queue a)"
    and "t \<in> waking (a_ctl a) \<Longrightarrow> a_ctl a t = MSleeping \<and> \<not> a_sig a t"
    and "waking_ok (a_ctl a)"
    and "a_sig a t \<Longrightarrow> a_ctl a t = MSleeping"
    and "a_ctl a NULL = MIdle"
  using assms by (simp_all add: sleep_ok_def)

text \<open>
  A move between control points that are neither sleep nor wake-up, and the moves into and out of
  them.
\<close>

lemma sleep_ok_move:
  assumes a: "sleep_ok a" and old: "a_ctl a t \<noteq> MSleeping" "\<And>u. a_ctl a t \<noteq> MUnlockWake u"
    and new: "c \<noteq> MSleeping" "\<And>u. c \<noteq> MUnlockWake u" and "t \<noteq> NULL"
    and b: "a_ctl b = (a_ctl a)(t := c)" "a_sig b = a_sig a" "a_queue b = a_queue a"
  shows "sleep_ok b"
proof -
  have "waking (a_ctl b) = waking (a_ctl a)" using b(1) old(2) new(2) by simp
  moreover have "t \<notin> set (a_queue a)" "\<not> a_sig a t" "t \<notin> waking (a_ctl a)"
    using sleep_okD(1,3,5) [OF a, of t] sleep_okD(6) [OF a] old(1) by auto
  ultimately show ?thesis
    using a \<open>t \<noteq> NULL\<close> new b unfolding sleep_ok_def by (simp add: waking_ok_other) metis
qed

lemma sleep_ok_wait:
  assumes a: "sleep_ok a" and t: "a_ctl a t = MLockCrit"
  shows "sleep_ok (a\<lparr>a_spin := None, a_queue := a_queue a @ [t], a_ctl := (a_ctl a)(t := MSleeping)\<rparr>)"
proof -
  have "waking ((a_ctl a)(t := MSleeping)) = waking (a_ctl a)" using t by simp
  moreover have "t \<notin> set (a_queue a)" "\<not> a_sig a t" "t \<notin> waking (a_ctl a)" "t \<noteq> NULL"
    using sleep_okD(1,3,5) [OF a, of t] sleep_okD(6) [OF a] t by auto
  ultimately show ?thesis
    using a unfolding sleep_ok_def by (simp add: waking_ok_other)
qed

lemma sleep_ok_wake:
  assumes a: "sleep_ok a" and t: "a_ctl a t = MSleeping" "a_sig a t"
  shows "sleep_ok (a\<lparr>a_ctl := (a_ctl a)(t := MLockSpin), a_sig := (a_sig a)(t := False)\<rparr>)"
proof -
  have "waking ((a_ctl a)(t := MLockSpin)) = waking (a_ctl a)" using t by simp
  moreover have "t \<notin> set (a_queue a)" "t \<notin> waking (a_ctl a)" "t \<noteq> NULL"
    using sleep_okD(1,3,5) [OF a, of t] sleep_okD(6) [OF a] t by auto
  ultimately show ?thesis
    using a unfolding sleep_ok_def by (simp add: waking_ok_other) metis
qed

lemma sleep_ok_unlock:
  assumes a: "sleep_ok a" and t: "a_ctl a t = MUnlockCrit" and q: "a_queue a = th # q"
  shows "sleep_ok (a\<lparr>a_spin := None, a_owner := None, a_queue := q,
                     a_ctl := (a_ctl a)(t := MUnlockWake th)\<rparr>)" (is "sleep_ok ?b")
proof -
  have w: "waking ((a_ctl a)(t := MUnlockWake th)) = insert th (waking (a_ctl a))"
    using t by (simp add: waking_add)
  have th: "a_ctl a th = MSleeping" "\<not> a_sig a th" "th \<notin> waking (a_ctl a)" "th \<notin> set q" "distinct q"
    using sleep_okD(1) [OF a, of th] sleep_okD(2) [OF a] q by auto
  have t': "t \<noteq> th" "t \<noteq> NULL" "\<not> a_sig a t" "t \<notin> waking (a_ctl a)" "t \<notin> set q"
    using sleep_okD(1,3,5) [OF a, of t] sleep_okD(6) [OF a] t th q by auto
  have "u \<in> set q \<longleftrightarrow> ((a_ctl a)(t := MUnlockWake th)) u = MSleeping \<and> \<not> a_sig a u \<and>
      u \<notin> insert th (waking (a_ctl a))" for u
    using sleep_okD(1) [OF a, of u] q th t' by auto
  moreover have "waking_ok ((a_ctl a)(t := MUnlockWake th))"
    using sleep_okD(4) [OF a] th by (simp add: waking_ok_add)
  moreover have "((a_ctl a)(t := MUnlockWake th)) u = MSleeping \<and> \<not> a_sig a u"
    if "u \<in> insert th (waking (a_ctl a))" for u
    using that sleep_okD(3) [OF a, of u] th t' by auto
  moreover have "((a_ctl a)(t := MUnlockWake th)) u = MSleeping" if "a_sig a u" for u
    using that sleep_okD(5) [OF a, of u] t' by auto
  ultimately show ?thesis
    using sleep_okD(6) [OF a] th t' unfolding sleep_ok_def by (simp add: w del: fun_upd_apply) simp
qed

lemma sleep_ok_restart:
  assumes a: "sleep_ok a" and t: "a_ctl a t = MUnlockWake th"
  shows "sleep_ok (a\<lparr>a_ctl := (a_ctl a)(t := MIdle), a_sig := (a_sig a)(th := True)\<rparr>)"
proof -
  have w: "waking ((a_ctl a)(t := MIdle)) = waking (a_ctl a) - {th}"
    using t sleep_okD(4) [OF a] by (simp add: waking_drop)
  have th: "th \<in> waking (a_ctl a)" using t by (auto simp: waking_def)
  then have th': "a_ctl a th = MSleeping" "th \<notin> set (a_queue a)" "th \<noteq> t" "th \<noteq> NULL"
    using sleep_okD(1,3,5) [OF a, of th] sleep_okD(6) [OF a] t by auto
  have t': "t \<noteq> NULL" "t \<notin> set (a_queue a)" "\<not> a_sig a t" "t \<notin> waking (a_ctl a)"
    using sleep_okD(1,3,5) [OF a, of t] sleep_okD(6) [OF a] t by auto
  have "u \<in> set (a_queue a) \<longleftrightarrow> ((a_ctl a)(t := MIdle)) u = MSleeping \<and> \<not> ((a_sig a)(th := True)) u \<and>
      u \<notin> waking (a_ctl a) - {th}" for u
    using sleep_okD(1) [OF a, of u] th' t' by auto
  moreover have "((a_ctl a)(t := MIdle)) u = MSleeping \<and> \<not> ((a_sig a)(th := True)) u"
    if "u \<in> waking (a_ctl a) - {th}" for u
    using that sleep_okD(3) [OF a, of u] t' by auto
  moreover have "((a_ctl a)(t := MIdle)) u = MSleeping" if "((a_sig a)(th := True)) u" for u
    using that sleep_okD(5) [OF a, of u] th' t' by (auto split: if_splits)
  ultimately show ?thesis
    using sleep_okD(2,4,6) [OF a] t' unfolding sleep_ok_def
    by (simp add: w waking_ok_other del: fun_upd_apply) simp
qed

lemma sleep_ok_step:
  assumes "astep a b" and "sleep_ok a"
  shows "sleep_ok b"
  using assms
proof (induction rule: astep.induct)
  case (a_lock_call a t)
  show ?case
    by (rule sleep_ok_move [OF a_lock_call.prems, of t MLockSpin]) (use a_lock_call sleep_okD(6) [of a] in auto)
next
  case (a_unlock_none a t)
  show ?case
    by (rule sleep_ok_move [OF a_unlock_none.prems, of t MIdle]) (use a_unlock_none sleep_okD(6) [of a] in auto)
next
  case (a_lock_acq a t)
  show ?case
    by (rule sleep_ok_move [OF a_lock_acq.prems, of t MLockCrit]) (use a_lock_acq sleep_okD(6) [of a] in auto)
next
  case (a_lock_got a t)
  show ?case
    by (rule sleep_ok_move [OF a_lock_got.prems, of t MOwner]) (use a_lock_got sleep_okD(6) [of a] in auto)
next
  case (a_unlock_call a t)
  show ?case
    by (rule sleep_ok_move [OF a_unlock_call.prems, of t MUnlockSpin]) (use a_unlock_call sleep_okD(6) [of a] in auto)
next
  case (a_unlock_acq a t)
  show ?case
    by (rule sleep_ok_move [OF a_unlock_acq.prems, of t MUnlockCrit]) (use a_unlock_acq sleep_okD(6) [of a] in auto)
qed (simp_all add: sleep_ok_wait sleep_ok_wake sleep_ok_unlock sleep_ok_restart)

text \<open>A thread that is on its way stays so when another thread moves between points of unlocking.\<close>

lemma wake_ok_other:
  assumes "wake_ok a" and "a_ctl a t \<in> {MOwner, MUnlockSpin}" and "a_ctl b = (a_ctl a)(t := c)"
    and "\<And>u. c \<noteq> MUnlockWake u" and "a_sig b = a_sig a" and "a_owner b = a_owner a"
    and "a_queue b = a_queue a"
  shows "wake_ok b"
proof -
  have "waking (a_ctl b) = waking (a_ctl a)" using assms(2,3,4) by auto
  then have "a_coming b w" if "a_coming a w" for w
    using that assms(2,3,5) by (auto simp: a_coming_def)
  with assms(1,6,7) show ?thesis by (auto simp: wake_ok_def)
qed

lemma wake_ok_step: "astep a b \<Longrightarrow> wake_ok a \<Longrightarrow> wake_ok b"
proof (induction rule: astep.induct)
  case (a_lock_call a t)
  have "a_coming (a\<lparr>a_ctl := (a_ctl a)(t := MLockSpin)\<rparr>) t" by (simp add: a_coming_def)
  then show ?case by (auto simp: wake_ok_def)
next
  case (a_lock_acq a t)
  have "a_coming (a\<lparr>a_spin := Some t, a_ctl := (a_ctl a)(t := MLockCrit)\<rparr>) t" by (simp add: a_coming_def)
  then show ?case by (auto simp: wake_ok_def)
next
  case (a_wake a t)
  have "a_coming (a\<lparr>a_ctl := (a_ctl a)(t := MLockSpin), a_sig := (a_sig a)(t := False)\<rparr>) t"
    by (simp add: a_coming_def)
  then show ?case by (auto simp: wake_ok_def)
next
  case (a_unlock_call a t)
  show ?case by (rule wake_ok_other [OF a_unlock_call.prems, of t _ MUnlockSpin]) (use a_unlock_call in auto)
next
  case (a_unlock_acq a t)
  show ?case by (rule wake_ok_other [OF a_unlock_acq.prems, of t _ MUnlockCrit]) (use a_unlock_acq in auto)
next
  case (a_unlock_some a t th q)
  have "a_coming (a\<lparr>a_spin := None, a_owner := None, a_queue := q,
      a_ctl := (a_ctl a)(t := MUnlockWake th)\<rparr>) th" by (auto simp: a_coming_def waking_def)
  then show ?case by (auto simp: wake_ok_def)
next
  case (a_unlock_wake a t th)
  have "a_coming (a\<lparr>a_ctl := (a_ctl a)(t := MIdle), a_sig := (a_sig a)(th := True)\<rparr>) th"
    by (simp add: a_coming_def)
  then show ?case by (auto simp: wake_ok_def)
qed (auto simp: wake_ok_def)

definition ainv :: "alock \<Rightarrow> bool" where
  "ainv a \<longleftrightarrow> spin_ok a \<and> held_ok a \<and> sleep_ok a \<and> wake_ok a"

lemma ainv_step: "astep a b \<Longrightarrow> ainv a \<Longrightarrow> ainv b"
  by (simp add: ainv_def spin_ok_step held_ok_step sleep_ok_step wake_ok_step)

section \<open>Refinement\<close>

definition mrel :: "addr \<Rightarrow> msys \<Rightarrow> alock \<Rightarrow> bool" where
  "mrel mu x a \<longleftrightarrow>
     (let m = mutexes (m_st x) mu; h = descr (m_st x) in
      m_kind m = PTHREAD_MUTEX_FAST_NP \<and>
      m_spinlock m = (if a_spin a = None then 0 else 1) \<and>
      m_count m = (if a_owner a = None then 0 else 1) \<and>
      is_queue h (m_waiting m) (a_queue a) \<and>
      (\<forall>t. t \<notin> set (a_queue a) \<longrightarrow> p_nextwaiting (h t) = NULL) \<and>
      (\<forall>t. \<not> p_signal_jmp (h t)) \<and>
      m_ctl x = a_ctl a \<and> m_sig x = a_sig a)"

definition a_start :: alock where
  "a_start = \<lparr>a_spin = None, a_owner = None, a_queue = [], a_ctl = (\<lambda>_. MIdle), a_sig = (\<lambda>_. False)\<rparr>"

lemma minit_mrel: "minit mu x \<Longrightarrow> mrel mu x a_start"
  by (auto simp: minit_def mrel_def a_start_def PTHREAD_MUTEX_INITIALIZER_def is_queue_def)

lemma ainv_start: "ainv a_start"
  by (simp add: ainv_def spin_ok_def held_ok_def sleep_ok_def wake_ok_def waking_ok_def waking_def excl_def in_crit_def owning_def a_start_def)

lemma mrel_lock_wait:
  assumes "mrel mu x a" and "ainv a" and t: "m_ctl x t = MLockCrit"
    and body: "mutex_lock_body t mu (m_st x) = (Wait, s')"
  shows "a_owner a \<noteq> None \<and> mrel mu (x\<lparr>m_st := s', m_ctl := (m_ctl x)(t := MSleeping)\<rparr>)
    (a\<lparr>a_spin := None, a_queue := a_queue a @ [t], a_ctl := (a_ctl a)(t := MSleeping)\<rparr>)"
proof -
  obtain q h where e: "enqueue (m_waiting (mutexes (m_st x) mu)) t (descr (m_st x)) = (q, h)"
    by (cases "enqueue (m_waiting (mutexes (m_st x) mu)) t (descr (m_st x))")
  have a: "t \<notin> set (a_queue a)" "t \<noteq> NULL" "is_queue (descr (m_st x)) (m_waiting (mutexes (m_st x) mu)) (a_queue a)"
    "\<And>u. u \<notin> set (a_queue a) \<Longrightarrow> p_nextwaiting (descr (m_st x) u) = NULL"
    using assms(1,2) t by (auto simp: mrel_def ainv_def sleep_ok_def Let_def)
  have q: "is_queue h q (a_queue a @ [t])" using a e by (auto intro: enqueue_refines)
  have "p_nextwaiting (h u) = NULL" if "u \<notin> set (a_queue a)" "u \<noteq> t" for u
    using that a e by (auto simp: enqueue_def is_queue_def split: if_splits)
  moreover have "p_signal_jmp (h u) = p_signal_jmp (descr (m_st x) u)" for u
    using e by (auto simp: enqueue_def set_nextwaiting_def split: if_splits)
  ultimately show ?thesis
    using assms(1) body e q by (auto simp: mrel_def mutex_lock_body_def Let_def split: if_splits)
qed

lemma mrel_unlock:
  assumes "mrel mu x a" and "mutex_unlock_body mu (m_st x) = (r, th, s')"
  shows "if a_queue a = [] then th = NULL else th = hd (a_queue a) \<and> th \<noteq> NULL"
    and "mrel mu (x\<lparr>m_st := s', m_ctl := c\<rparr>)
      (a\<lparr>a_spin := None, a_owner := None, a_queue := tl (a_queue a), a_ctl := c\<rparr>)"
proof -
  have m: "m_kind (mutexes (m_st x) mu) = PTHREAD_MUTEX_FAST_NP"
    and q: "is_queue (descr (m_st x)) (m_waiting (mutexes (m_st x) mu)) (a_queue a)"
    and n: "\<And>u. u \<notin> set (a_queue a) \<Longrightarrow> p_nextwaiting (descr (m_st x) u) = NULL"
    and sg: "m_sig x = a_sig a" "\<And>u. \<not> p_signal_jmp (descr (m_st x) u)"
    using assms(1) by (auto simp: mrel_def Let_def)
  have "(if a_queue a = [] then th = NULL else th = hd (a_queue a) \<and> th \<noteq> NULL) \<and>
    mrel mu (x\<lparr>m_st := s', m_ctl := c\<rparr>)
      (a\<lparr>a_spin := None, a_owner := None, a_queue := tl (a_queue a), a_ctl := c\<rparr>)"
  proof (cases "a_queue a")
    case Nil
    with q have "dequeue (m_waiting (mutexes (m_st x) mu)) (descr (m_st x)) =
        (NULL, m_waiting (mutexes (m_st x) mu), descr (m_st x))" by (simp add: dequeue_Nil)
    with Nil assms(2) m q n sg show ?thesis by (auto simp: mutex_unlock_body_def mrel_def Let_def)
  next
    case (Cons y ys)
    with q obtain q' where d: "dequeue (m_waiting (mutexes (m_st x) mu)) (descr (m_st x)) =
        (y, q', set_nextwaiting y NULL (descr (m_st x)))"
      and "is_queue (set_nextwaiting y NULL (descr (m_st x))) q' ys" by (auto elim: dequeue_Cons)
    moreover have "p_signal_jmp (set_nextwaiting y NULL (descr (m_st x)) u) = p_signal_jmp (descr (m_st x) u)" for u
      by (simp add: set_nextwaiting_def)
    moreover have "y \<noteq> NULL" using q Cons by (auto dest: is_queue_NULL)
    ultimately show ?thesis
      using Cons assms(2) m n sg by (auto simp: mutex_unlock_body_def mrel_def Let_def)
  qed
  then show "if a_queue a = [] then th = NULL else th = hd (a_queue a) \<and> th \<noteq> NULL"
    and "mrel mu (x\<lparr>m_st := s', m_ctl := c\<rparr>)
      (a\<lparr>a_spin := None, a_owner := None, a_queue := tl (a_queue a), a_ctl := c\<rparr>)" by auto
qed

lemma mrel_same:
  assumes "mrel mu x a" and "mutexes s' mu = mutexes (m_st x) mu"
    and "\<And>t. p_nextwaiting (descr s' t) = p_nextwaiting (descr (m_st x) t)"
    and "\<And>t. p_signal_jmp (descr s' t) = p_signal_jmp (descr (m_st x) t)"
  shows "mrel mu (x\<lparr>m_st := s', m_ctl := c, m_sig := g\<rparr>) (a\<lparr>a_ctl := c, a_sig := g\<rparr>)"
  using assms is_queue_cong [of "a_queue a" "descr s'" "descr (m_st x)"] by (simp add: mrel_def Let_def)

lemma mrel_acquire:
  assumes "mrel mu x a" and "acquire_mutex mu (m_st x) = Some s'"
  shows "a_spin a = None" and "mrel mu (x\<lparr>m_st := s', m_ctl := c\<rparr>) (a\<lparr>a_spin := Some t, a_ctl := c\<rparr>)"
  using assms by (auto simp: mrel_def acquire_mutex_eq Let_def split: if_splits)

lemma mrel_got:
  assumes "mrel mu x a" and "mutex_lock_body t mu (m_st x) = (Done r, s')"
  shows "a_owner a = None"
    and "mrel mu (x\<lparr>m_st := s', m_ctl := c\<rparr>) (a\<lparr>a_spin := None, a_owner := Some t, a_ctl := c\<rparr>)"
  using assms by (auto simp: mrel_def mutex_lock_body_def Let_def split: if_splits prod.splits)

lemma refines_by: "astep a b \<Longrightarrow> mrel mu y b \<Longrightarrow> \<exists>b. astep a b \<and> mrel mu y b"
  by blast

text \<open>Every step of the threads is a step of the abstract lock.\<close>

lemma mstep_refines:
  assumes "mstep mu x y" and "mrel mu x a" and "ainv a"
  shows "\<exists>b. astep a b \<and> mrel mu y b"
  using assms
proof (induction rule: mstep.induct)
  case (lock_call x t)
  then have "astep a (a\<lparr>a_ctl := (a_ctl a)(t := MLockSpin)\<rparr>)"
    by (intro a_lock_call) (auto simp: mrel_def Let_def)
  with lock_call show ?case by (intro exI conjI) (auto simp: mrel_def Let_def)
next
  case (lock_acq x t s')
  then have "a_ctl a t = MLockSpin" "a_ctl a = m_ctl x" by (auto simp: mrel_def Let_def)
  note now = this lock_acq mrel_acquire(1) [of mu x a s']
    mrel_acquire(2) [of mu x a s' "(m_ctl x)(t := MLockCrit)" t]
  show ?case by (rule refines_by [OF a_lock_acq]) (use now in simp_all)
next
  case (lock_got x t r s')
  then have "a_ctl a t = MLockCrit" "a_ctl a = m_ctl x" by (auto simp: mrel_def Let_def)
  note now = this lock_got mrel_got(1) [of mu x a t r s']
    mrel_got(2) [of mu x a t r s' "(m_ctl x)(t := MOwner)"]
  show ?case by (rule refines_by [OF a_lock_got]) (use now in simp_all)
next
  case (lock_wait x t s')
  then have "a_ctl a t = MLockCrit" "a_ctl a = m_ctl x" by (auto simp: mrel_def Let_def)
  note now = this lock_wait mrel_lock_wait [of mu x a t s']
  show ?case by (rule refines_by [OF a_lock_wait]) (use now in auto)
next
  case (wake x t s')
  then have "a_ctl a t = MSleeping" "a_sig a t" "a_ctl a = m_ctl x" "a_sig a = m_sig x"
    by (auto simp: mrel_def Let_def)
  note now = this wake mrel_same [of mu x a s'] deliver_restart_same [of t "m_st x" H_return s']
  show ?case by (rule refines_by [OF a_wake]) (use now in simp_all)
next
  case (unlock_call x t)
  then have "astep a (a\<lparr>a_ctl := (a_ctl a)(t := MUnlockSpin)\<rparr>)"
    by (intro a_unlock_call) (auto simp: mrel_def Let_def)
  with unlock_call show ?case by (intro exI conjI) (auto simp: mrel_def Let_def)
next
  case (unlock_acq x t s')
  then have "a_ctl a t = MUnlockSpin" "a_ctl a = m_ctl x" by (auto simp: mrel_def Let_def)
  note now = this unlock_acq mrel_acquire(1) [of mu x a s']
    mrel_acquire(2) [of mu x a s' "(m_ctl x)(t := MUnlockCrit)" t]
  show ?case by (rule refines_by [OF a_unlock_acq]) (use now in simp_all)
next
  case (unlock_none x t r s')
  then have ctl: "a_ctl a t = MUnlockCrit" "a_ctl a = m_ctl x" by (auto simp: mrel_def Let_def)
  have q: "a_queue a = []" using mrel_unlock(1) [of mu x a r NULL s'] unlock_none by (auto split: if_splits)
  show ?case by (rule refines_by [OF a_unlock_none])
    (use ctl q unlock_none mrel_unlock(2) [of mu x a r NULL s' "(m_ctl x)(t := MIdle)"] in simp_all)
next
  case (unlock_some x t r th s')
  then have ctl: "a_ctl a t = MUnlockCrit" "a_ctl a = m_ctl x" by (auto simp: mrel_def Let_def)
  obtain q where q: "a_queue a = th # q"
    using mrel_unlock(1) [of mu x a r th s'] unlock_some by (cases "a_queue a") auto
  show ?case by (rule refines_by [OF a_unlock_some])
    (use ctl q unlock_some mrel_unlock(2) [of mu x a r th s' "(m_ctl x)(t := MUnlockWake th)"] in simp_all)
next
  case (unlock_wake x t th)
  then have "a_ctl a t = MUnlockWake th" "a_ctl a = m_ctl x" "a_sig a = m_sig x"
    by (auto simp: mrel_def Let_def)
  note now = this unlock_wake mrel_same [of mu x a "restart th (m_st x)"]
  show ?case by (rule refines_by [OF a_unlock_wake]) (use now in simp_all)
qed

inductive areach :: "alock \<Rightarrow> bool" where
  a_init: "areach a_start"
| a_step: "areach a \<Longrightarrow> astep a b \<Longrightarrow> areach b"

lemma areach_ainv: "areach a \<Longrightarrow> ainv a"
  by (induction rule: areach.induct) (simp_all add: ainv_start ainv_step)

lemma mreach_areach:
  assumes "mreach mu x"
  obtains a where "areach a" and "mrel mu x a" and "ainv a"
proof -
  from assms have "\<exists>a. areach a \<and> mrel mu x a"
  proof (induction rule: mreach.induct)
    case (init x)
    then show ?case using minit_mrel a_init by blast
  next
    case (step x y)
    then show ?case using mstep_refines areach_ainv a_step by metis
  qed
  then show thesis using that areach_ainv by blast
qed

section \<open>Consequences for the threads\<close>

text \<open>Whenever a thread sleeps, the mutex is owned or some thread is on its way to take it.\<close>

lemma sleeper_not_forgotten:
  assumes "ainv a" and "a_ctl a t = MSleeping"
  shows "\<exists>u. owning (a_ctl a u) \<or> a_coming a u"
proof (cases "t \<in> set (a_queue a)")
  case True
  show ?thesis
  proof (cases "a_owner a")
    case None
    with True assms(1) show ?thesis by (auto simp: ainv_def wake_ok_def)
  next
    case (Some u)
    with assms(1) show ?thesis by (auto simp: ainv_def held_ok_def excl_def)
  qed
next
  case False
  with assms show ?thesis by (auto simp: ainv_def sleep_ok_def a_coming_def)
qed

text \<open>A thread inside the spin lock can always leave it, and a thread that is not asleep can move
  as soon as the spin lock is free.\<close>

definition moves :: "addr \<Rightarrow> msys \<Rightarrow> pthread_t \<Rightarrow> bool" where
  "moves mu x u \<longleftrightarrow> m_ctl x u \<noteq> MIdle \<and> (\<exists>y. mstep mu x y \<and> m_ctl y u \<noteq> m_ctl x u)"

lemma moves_by:
  assumes "mstep mu x y" and "m_ctl x u \<noteq> MIdle" and "m_ctl y u \<noteq> m_ctl x u"
  shows "moves mu x u"
  using assms by (auto simp: moves_def)

lemma moves_crit:
  assumes "mrel mu x a" and "in_crit (m_ctl x u)"
  shows "moves mu x u"
proof (cases "m_ctl x u = MLockCrit")
  case True
  obtain d s' where b: "mutex_lock_body u mu (m_st x) = (d, s')" by (cases "mutex_lock_body u mu (m_st x)")
  show ?thesis
  proof (cases d)
    case (Done r)
    show ?thesis by (rule moves_by [OF lock_got [OF True]]) (use b Done True in simp_all)
  next
    case Wait
    show ?thesis by (rule moves_by [OF lock_wait [OF True]]) (use b Wait True in simp_all)
  qed
next
  case False
  then have u: "m_ctl x u = MUnlockCrit" using assms(2) by (simp add: in_crit_def)
  obtain r th s' where b: "mutex_unlock_body mu (m_st x) = (r, th, s')"
    by (cases "mutex_unlock_body mu (m_st x)")
  show ?thesis
  proof (cases "th = NULL")
    case True
    show ?thesis by (rule moves_by [OF unlock_none [OF u]]) (use b True u in simp_all)
  next
    case False
    show ?thesis by (rule moves_by [OF unlock_some [OF u b False]]) (use u in simp_all)
  qed
qed

lemma moves_spin:
  assumes "mrel mu x a" and "ainv a" and u: "m_ctl x u \<in> {MLockSpin, MUnlockSpin}"
  shows "\<exists>v. moves mu x v"
proof (cases "a_spin a")
  case None
  with assms(1) obtain s' where s': "acquire_mutex mu (m_st x) = Some s'"
    by (auto simp: mrel_def Let_def acquire_mutex_eq)
  from u consider "m_ctl x u = MLockSpin" | "m_ctl x u = MUnlockSpin" by auto
  then have "moves mu x u"
  proof cases
    case 1
    show ?thesis by (rule moves_by [OF lock_acq [OF 1 s']]) (use 1 in simp_all)
  next
    case 2
    show ?thesis by (rule moves_by [OF unlock_acq [OF 2 s']]) (use 2 in simp_all)
  qed
  then show ?thesis by blast
next
  case (Some v)
  with assms(1,2) have "in_crit (m_ctl x v)"
    by (auto simp: mrel_def ainv_def spin_ok_def excl_def Let_def)
  with assms(1) show ?thesis by (blast intro: moves_crit)
qed

lemma moves_signalled:
  assumes "mrel mu x a" and u: "m_ctl x u = MSleeping" "m_sig x u"
  shows "moves mu x u"
proof -
  have "\<not> p_signal_jmp (descr (m_st x) u)" using assms(1) by (auto simp: mrel_def Let_def)
  then have "\<exists>s'. deliver u PTHREAD_SIG_RESTART (m_st x) = (H_return, s')"
    by (simp add: deliver_def pthread_sighandler_def upd_th_def)
  then obtain s' where d: "deliver u PTHREAD_SIG_RESTART (m_st x) = (H_return, s')" ..
  show ?thesis by (rule moves_by [OF wake [OF u d]]) (use u in simp_all)
qed

lemma moves_waking:
  assumes "m_ctl x u = MUnlockWake th"
  shows "moves mu x u"
  by (rule moves_by [OF unlock_wake [OF assms]]) (use assms in simp_all)

lemma moves_owning:
  assumes "mrel mu x a" and "ainv a" and u: "owning (m_ctl x u)"
  shows "\<exists>v. moves mu x v"
proof -
  consider "m_ctl x u = MOwner" | "m_ctl x u = MUnlockSpin" | "m_ctl x u = MUnlockCrit"
    using u by (auto simp: owning_def)
  then show ?thesis
  proof cases
    case 1
    have "moves mu x u" by (rule moves_by [OF unlock_call [OF 1]]) (use 1 in simp_all)
    then show ?thesis by blast
  qed (use assms(1,2) moves_spin [of mu x a u] moves_crit [of mu x a u] in \<open>auto simp: in_crit_def\<close>)
qed

lemma moves_coming:
  assumes "mrel mu x a" and "ainv a" and u: "a_coming a u"
  shows "\<exists>v. moves mu x v"
proof -
  have ctl: "m_ctl x = a_ctl a" "m_sig x = a_sig a" using assms(1) by (auto simp: mrel_def Let_def)
  consider "m_ctl x u \<in> {MLockSpin, MUnlockSpin}" | "in_crit (m_ctl x u)" | "m_sig x u"
    | v where "m_ctl x v = MUnlockWake u"
    using u ctl by (auto simp: a_coming_def waking_def in_crit_def)
  then show ?thesis
  proof cases
    case 3
    then have "m_ctl x u = MSleeping" using assms(2) ctl by (auto simp: ainv_def sleep_ok_def)
    with 3 assms(1) show ?thesis by (blast intro: moves_signalled)
  qed (use assms moves_spin moves_crit moves_waking in blast)+
qed

lemma moves_any:
  assumes "mrel mu x a" and "ainv a" and "m_ctl x t \<noteq> MIdle"
  shows "\<exists>v. moves mu x v"
proof -
  have ctl: "m_ctl x = a_ctl a" using assms(1) by (auto simp: mrel_def Let_def)
  consider "owning (m_ctl x t)" | "a_coming a t" | th where "m_ctl x t = MUnlockWake th"
    | "m_ctl x t = MSleeping"
    using assms(3) ctl by (cases "m_ctl x t") (auto simp: owning_def a_coming_def)
  then show ?thesis
  proof cases
    case 4
    then obtain u where "owning (m_ctl x u) \<or> a_coming a u"
      using sleeper_not_forgotten [OF assms(2)] ctl by auto
    with assms show ?thesis using moves_owning moves_coming by blast
  qed (use assms moves_owning moves_coming moves_waking in blast)+
qed

section \<open>Properties\<close>

text \<open>
  A thread that runs \<open>pthread_mutex_lock\<close> alone, up to its return or its suspension, and an execution
  in which thread 8 owns the mutex and thread 16 sleeps, for the witnesses.
\<close>

lemma lock_body_fast:
  assumes "m_kind (mutexes s mu) = PTHREAD_MUTEX_FAST_NP"
  shows "\<exists>s'. mutex_lock_body t mu s = (if m_count (mutexes s mu) = 0 then Done 0 else Wait, s') \<and>
    m_spinlock (mutexes s' mu) = 0 \<and> m_kind (mutexes s' mu) = PTHREAD_MUTEX_FAST_NP \<and>
    m_count (mutexes s' mu) = (if m_count (mutexes s mu) = 0 then 1 else m_count (mutexes s mu))"
  using assms by (simp add: mutex_lock_body_def split: prod.splits)

lemma mreach_lock:
  assumes "mreach mu x" and t: "m_ctl x t = MIdle" "t \<noteq> NULL"
    and m: "m_spinlock (mutexes (m_st x) mu) = 0" "m_kind (mutexes (m_st x) mu) = PTHREAD_MUTEX_FAST_NP"
  shows "\<exists>y. mreach mu y \<and>
    m_ctl y = (m_ctl x)(t := if m_count (mutexes (m_st x) mu) = 0 then MOwner else MSleeping) \<and>
    m_spinlock (mutexes (m_st y) mu) = 0 \<and> m_kind (mutexes (m_st y) mu) = PTHREAD_MUTEX_FAST_NP \<and>
    (m_count (mutexes (m_st x) mu) = 0 \<longrightarrow> m_count (mutexes (m_st y) mu) = 1)"
proof -
  define c where "c = (if m_count (mutexes (m_st x) mu) = 0 then MOwner else MSleeping)"
  define x1 where "x1 = x\<lparr>m_ctl := (m_ctl x)(t := MLockSpin)\<rparr>"
  define s1 where "s1 = upd_mutex mu (m_spinlock_update (\<lambda>_. 1)) (m_st x)"
  define x2 where "x2 = x1\<lparr>m_st := s1, m_ctl := (m_ctl x1)(t := MLockCrit)\<rparr>"
  obtain s2 where b: "mutex_lock_body t mu s1 = (if c = MOwner then Done 0 else Wait, s2)"
    and s2: "m_spinlock (mutexes s2 mu) = 0" "m_kind (mutexes s2 mu) = PTHREAD_MUTEX_FAST_NP"
      "c = MOwner \<longrightarrow> m_count (mutexes s2 mu) = 1"
    using m lock_body_fast [of s1 mu t] by (auto simp: s1_def c_def)
  define x3 where "x3 = x2\<lparr>m_st := s2, m_ctl := (m_ctl x2)(t := c)\<rparr>"
  have "mstep mu x x1" unfolding x1_def using t by (rule lock_call)
  moreover have "mstep mu x1 x2" unfolding x2_def
    by (rule lock_acq) (use m in \<open>simp_all add: x1_def s1_def acquire_mutex_eq\<close>)
  moreover have "mstep mu x2 x3"
  proof (cases "c = MOwner")
    case True
    show ?thesis unfolding x3_def True by (rule lock_got) (use b True in \<open>simp_all add: x2_def\<close>)
  next
    case False
    then have "c = MSleeping" by (auto simp: c_def)
    then show ?thesis unfolding x3_def by (simp only:, intro lock_wait) (use b in \<open>simp_all add: x2_def\<close>)
  qed
  ultimately have "mreach mu x3" using assms(1) by (blast intro: step)
  then show ?thesis
    using s2 by (intro exI [of _ x3]) (auto simp: x3_def x2_def x1_def c_def)
qed

lemma mreach_example: "\<exists>x. mreach 0 x \<and> m_ctl x 8 = MOwner \<and> m_ctl x 16 = MSleeping"
proof -
  define x where "x = \<lparr>m_st = zero_st, m_ctl = (\<lambda>_. MIdle), m_sig = (\<lambda>_. False)\<rparr>"
  have m: "mutexes (m_st x) 0 = PTHREAD_MUTEX_INITIALIZER" by (simp add: x_def zero_st_def)
  have "mreach 0 x"
    by (rule init) (simp add: minit_def x_def zero_st_def zero_descr_def)
  then obtain y where y: "mreach 0 y" "m_ctl y = (m_ctl x)(8 := MOwner)"
    "m_spinlock (mutexes (m_st y) 0) = 0" "m_kind (mutexes (m_st y) 0) = PTHREAD_MUTEX_FAST_NP"
    "m_count (mutexes (m_st y) 0) = 1"
    using mreach_lock [of 0 x 8] m by (auto simp: PTHREAD_MUTEX_INITIALIZER_def x_def)
  then obtain z where "mreach 0 z" "m_ctl z = (m_ctl y)(16 := MSleeping)"
    using mreach_lock [OF y(1), of 16] by (auto simp: x_def)
  with y(2) show ?thesis by (intro exI [of _ z]) simp
qed

text \<open>
  C1. Mutual exclusion. In every state that any number of threads can reach on a fast mutex by
  interleaving the steps of \<open>pthread_mutex_lock\<close> and \<open>pthread_mutex_unlock\<close>, at most one thread has
  returned from the lock and not yet given it up.
\<close>

theorem mutex_mutual_exclusion:
  assumes "mreach mu x" and "owning (m_ctl x t)" and "owning (m_ctl x u)"
  shows "t = u"
proof -
  obtain a where "mrel mu x a" "ainv a" using assms(1) by (rule mreach_areach)
  with assms(2,3) show ?thesis
    by (auto simp: mrel_def ainv_def held_ok_def Let_def dest: excl_unique)
qed

theorem mutex_mutual_exclusion_witness:
  "\<exists>x. mreach 0 x \<and> m_ctl x 8 = MOwner \<and> {u. owning (m_ctl x u)} = {8}"
proof -
  obtain x where x: "mreach 0 x" "m_ctl x 8 = MOwner" using mreach_example by blast
  then have "owning (m_ctl x 8)" by (simp add: owning_def)
  with x mutex_mutual_exclusion [OF x(1), of _ 8] show ?thesis by blast
qed

text \<open>
  C2. No lost wake-up. Whenever a thread sleeps in \<open>pthread_mutex_lock\<close>, the mutex is owned by a
  thread, or some thread is on its way to take it: it polls the spin lock, is inside the section, has
  its restart signal pending, or has been dequeued by a thread that is about to restart it.
\<close>

theorem mutex_no_lost_wakeup:
  assumes "mreach mu x" and "m_ctl x t = MSleeping"
  shows "\<exists>u. owning (m_ctl x u) \<or> m_ctl x u \<in> {MLockSpin, MLockCrit} \<or> m_sig x u \<or>
    (\<exists>v. m_ctl x v = MUnlockWake u)"
proof -
  obtain a where a: "mrel mu x a" "ainv a" using assms(1) by (rule mreach_areach)
  then have "m_ctl x = a_ctl a" "m_sig x = a_sig a" by (auto simp: mrel_def Let_def)
  with sleeper_not_forgotten [OF a(2), of t] assms(2) show ?thesis
    by (auto simp: a_coming_def waking_def)
qed

theorem mutex_no_lost_wakeup_witness:
  "\<exists>x u. mreach 0 x \<and> m_ctl x 16 = MSleeping \<and>
    (owning (m_ctl x u) \<or> m_ctl x u \<in> {MLockSpin, MLockCrit} \<or> m_sig x u \<or>
     (\<exists>v. m_ctl x v = MUnlockWake u))"
proof -
  obtain x where x: "mreach 0 x" "m_ctl x 16 = MSleeping" using mreach_example by blast
  with mutex_no_lost_wakeup [OF x] show ?thesis by blast
qed

text \<open>
  Deadlock freedom. As long as some thread is between the call of \<open>pthread_mutex_lock\<close> and the
  return from \<open>pthread_mutex_unlock\<close>, one such thread can take a step: no reachable state of the
  protocol is stuck.
\<close>

theorem mutex_progress:
  assumes "mreach mu x" and "m_ctl x t \<noteq> MIdle"
  shows "\<exists>u y. m_ctl x u \<noteq> MIdle \<and> mstep mu x y \<and> m_ctl y u \<noteq> m_ctl x u"
proof -
  obtain a where "mrel mu x a" "ainv a" using assms(1) by (rule mreach_areach)
  with assms(2) moves_any [of mu x a t] show ?thesis by (auto simp: moves_def)
qed

theorem mutex_progress_witness:
  "\<exists>x u y. mreach 0 x \<and> m_ctl x 16 = MSleeping \<and> m_ctl x u \<noteq> MIdle \<and> mstep 0 x y \<and>
    m_ctl y u \<noteq> m_ctl x u"
proof -
  obtain x where x: "mreach 0 x" "m_ctl x 16 = MSleeping" using mreach_example by blast
  then have "m_ctl x 16 \<noteq> MIdle" by simp
  with x mutex_progress [OF x(1), of 16] show ?thesis by blast
qed

text \<open>
  C3. Refinement. Every state the threads reach on the C data (spin lock word, count, linked queue)
  corresponds to a reachable state of an abstract lock with an owner and a list of waiting threads,
  with the mutex locked exactly when the abstract lock has an owner and the linked queue holding
  exactly the listed threads in order.
\<close>

theorem mutex_refines_lock:
  assumes "mreach mu x"
  shows "\<exists>a. areach a \<and> (m_count (mutexes (m_st x) mu) = 1 \<longleftrightarrow> a_owner a \<noteq> None) \<and>
    is_queue (descr (m_st x)) (m_waiting (mutexes (m_st x) mu)) (a_queue a) \<and>
    m_ctl x = a_ctl a \<and> m_sig x = a_sig a"
proof -
  obtain a where "areach a" "mrel mu x a" using assms by (rule mreach_areach)
  then show ?thesis by (intro exI [of _ a]) (simp add: mrel_def Let_def)
qed

theorem mutex_refines_lock_witness:
  "\<exists>x a. mreach 0 x \<and> m_ctl x 16 = MSleeping \<and> areach a \<and>
    is_queue (descr (m_st x)) (m_waiting (mutexes (m_st x) 0)) (a_queue a) \<and> m_ctl x = a_ctl a"
proof -
  obtain x where x: "mreach 0 x" "m_ctl x 16 = MSleeping" using mreach_example by blast
  with mutex_refines_lock [OF x(1)] show ?thesis by blast
qed

end
