(* ===== verification/Condvar.thy ===== *)
theory Condvar
  imports Mutex
begin

text \<open>
  Condition variables (\<open>condvar.c\<close>). A waiting thread enters the queue of the condition before it
  gives up the mutex; \<open>pthread_cond_signal\<close> restarts the first thread of the queue and
  \<open>pthread_cond_broadcast\<close> all of them in order. \<open>remove_from_queue\<close> is in \<open>Queue\<close>.
\<close>

definition acquire_cond :: "addr \<Rightarrow> st \<Rightarrow> st option" where
  "acquire_cond c s = do {
     l \<leftarrow> acquire (c_spinlock (conds s c));
     Some (upd_cond c (c_spinlock_update (\<lambda>_. l)) s) }"

definition release_cond :: "addr \<Rightarrow> st \<Rightarrow> st" where
  [field_defs]: "release_cond c s = upd_cond c (\<lambda>x. x\<lparr>c_spinlock := release (c_spinlock x)\<rparr>) s"

definition pthread_cond_init :: "addr \<Rightarrow> st \<Rightarrow> int \<times> st" where
  "pthread_cond_init c s = (0, upd_cond c (\<lambda>_. \<lparr>c_spinlock = 0, c_waiting = queue_init\<rparr>) s)"

definition pthread_cond_destroy :: "addr \<Rightarrow> st \<Rightarrow> (int \<times> st) option" where
  "pthread_cond_destroy c s = do {
     s \<leftarrow> acquire_cond c s;
     let hd_thread = head (c_waiting (conds s c));
     let s = release_cond c s;
     Some (if hd_thread \<noteq> NULL then EBUSY else 0, s) }"

text \<open>\<open>enqueue(&cond->c_waiting, self)\<close> and \<open>remove_from_queue(&cond->c_waiting, self)\<close>.\<close>

definition cond_enqueue :: "addr \<Rightarrow> pthread_t \<Rightarrow> st \<Rightarrow> st" where
  "cond_enqueue c self s =
     (let (q, h) = enqueue (c_waiting (conds s c)) self (descr s)
      in upd_cond c (c_waiting_update (\<lambda>_. q)) (s\<lparr>descr := h\<rparr>))"

definition cond_remove :: "addr \<Rightarrow> pthread_t \<Rightarrow> st \<Rightarrow> st option" where
  "cond_remove c self s = do {
     (q, h) \<leftarrow> remove_from_queue (c_waiting (conds s c)) self (descr s);
     Some (upd_cond c (c_waiting_update (\<lambda>_. q)) (s\<lparr>descr := h\<rparr>)) }"

text \<open>
  The first half of a wait, up to the suspension: the thread enters the queue, then releases the
  mutex.
\<close>

definition cond_wait_enter :: "pthread_t \<Rightarrow> addr \<Rightarrow> addr \<Rightarrow> st \<Rightarrow> st option" where
  "cond_wait_enter self c mutex s = do {
     s \<leftarrow> acquire_cond c s;
     let s = cond_enqueue c self s;
     let s = release_cond c s;
     (_, s) \<leftarrow> pthread_mutex_unlock mutex s;
     Some s }"

definition pthread_cond_wait :: "env \<Rightarrow> pthread_t \<Rightarrow> addr \<Rightarrow> addr \<Rightarrow> st \<Rightarrow> int res" where
  "pthread_cond_wait E self c mutex s = do {
     s \<leftarrow> cond_wait_enter self c mutex s;
     and_then (suspend_with_cancellation E self s) (\<lambda>_ s.
     and_then (pthread_mutex_lock E self mutex s) (\<lambda>_ s.
       if cancel_pending self s then do {
         s \<leftarrow> acquire_cond c s;
         s \<leftarrow> cond_remove c self s;
         let s = release_cond c s;
         Some (PExit PTHREAD_CANCELED, s) }
       else Some (Ret 0, s))) }"

section \<open>Waiting with a timeout\<close>

text \<open>
  The sleep of \<open>pthread_cond_timedwait_relative\<close>. The value is \<open>retsleep\<close>: 0 if the time has
  elapsed, -1 after a signal. The restart signal is unblocked during the sleep; its handler jumps
  back to the \<open>sigsetjmp\<close>, and the jump leaves the restart signal blocked.
\<close>

definition timedwait_sleep :: "env \<Rightarrow> pthread_t \<Rightarrow> int \<times> int \<Rightarrow> st \<Rightarrow> int res" where
  "timedwait_sleep E self reltime s =
     (let initial_mask = sigmask s self;
          set_mask = (\<lambda>msk s. s\<lparr>sigmask := (sigmask s)(self := msk)\<rparr>)
      in case nanosleep_env E self reltime (set_mask (initial_mask - {PTHREAD_SIG_RESTART}) s) of
           None \<Rightarrow> None
         | Some (None, s) \<Rightarrow> Some (Ret 0, set_mask initial_mask s)
         | Some (Some sig, s) \<Rightarrow>
             (case deliver self sig s of
                (H_return, s) \<Rightarrow> Some (Ret (- 1), set_mask initial_mask (set_errno self EINTR s))
              | (H_jump, s) \<Rightarrow>
                  if sig = PTHREAD_SIG_RESTART
                  then Some (Ret (- 1), set_mask (insert PTHREAD_SIG_RESTART initial_mask) s)
                  else Some (Jump, s)
              | (H_pexit v, s) \<Rightarrow> Some (PExit v, s)
              | (H_exit c, s) \<Rightarrow> Some (Exit c, s)))"

definition pthread_cond_timedwait_relative ::
  "env \<Rightarrow> pthread_t \<Rightarrow> addr \<Rightarrow> addr \<Rightarrow> int \<times> int \<Rightarrow> st \<Rightarrow> int res"
where
  "pthread_cond_timedwait_relative E self c mutex reltime s = do {
     s \<leftarrow> cond_wait_enter self c mutex s;
     let s = upd_th self (\<lambda>d. d\<lparr>p_signal_jmp := True, p_signal := 0\<rparr>) s;
     and_then (if cancel_pending self s then Some (Ret (- 1), s)
               else timedwait_sleep E self reltime s) (\<lambda>retsleep s. do {
       let s = upd_th self (p_signal_jmp_update (\<lambda>_. False)) s;
       s \<leftarrow> acquire_cond c s;
       if cancel_pending self s then do {
         s \<leftarrow> cond_remove c self s;
         let s = release_cond c s;
         and_then (pthread_mutex_lock E self mutex s) (\<lambda>_ s. Some (PExit PTHREAD_CANCELED, s)) }
       else if p_signal (descr s self) = 0 then do {
         s \<leftarrow> cond_remove c self s;
         let s = release_cond c s;
         and_then (pthread_mutex_lock E self mutex s) (\<lambda>_ s.
           Some (Ret (if retsleep = 0 then ETIMEDOUT else EINTR), s)) }
       else do {
         let s = release_cond c s;
         and_then (pthread_mutex_lock E self mutex s) (\<lambda>_ s. Some (Ret 0, s)) } }) }"

text \<open>The time that is left: seconds and nanoseconds of \<open>abstime\<close> less seconds and microseconds of
  \<open>now\<close>, with a borrow.\<close>

definition timedwait_reltime :: "int \<times> int \<Rightarrow> int \<times> int \<Rightarrow> int \<times> int" where
  "timedwait_reltime abstime now =
     (let tv_sec = fst abstime - fst now;
          tv_nsec = snd abstime - snd now * 1000
      in if tv_nsec < 0 then (tv_sec - 1, tv_nsec + 1000000000) else (tv_sec, tv_nsec))"

definition pthread_cond_timedwait ::
  "env \<Rightarrow> int \<times> int \<Rightarrow> pthread_t \<Rightarrow> addr \<Rightarrow> addr \<Rightarrow> int \<times> int \<Rightarrow> st \<Rightarrow> int res"
where
  "pthread_cond_timedwait E now self c mutex abstime s =
     (let reltime = timedwait_reltime abstime now
      in if fst reltime < 0 then Some (Ret ETIMEDOUT, s)
         else pthread_cond_timedwait_relative E self c mutex reltime s)"

section \<open>Waking\<close>

definition pthread_cond_signal :: "addr \<Rightarrow> st \<Rightarrow> (int \<times> st) option" where
  "pthread_cond_signal c s = do {
     s \<leftarrow> acquire_cond c s;
     let (th, q, h) = dequeue (c_waiting (conds s c)) (descr s);
     let s = upd_cond c (c_waiting_update (\<lambda>_. q)) (s\<lparr>descr := h\<rparr>);
     let s = release_cond c s;
     Some (0, if th \<noteq> NULL then restart th s else s) }"

text \<open>\<open>while ((th = dequeue(&tosignal)) != NULL) restart(th);\<close>\<close>

partial_function (option) broadcast_loop :: "pthread_queue \<Rightarrow> st \<Rightarrow> st option" where
  "broadcast_loop tosignal s =
     (let (th, q, h) = dequeue tosignal (descr s); s = s\<lparr>descr := h\<rparr>
      in if th \<noteq> NULL then broadcast_loop q (restart th s) else Some s)"

definition pthread_cond_broadcast :: "addr \<Rightarrow> st \<Rightarrow> (int \<times> st) option" where
  "pthread_cond_broadcast c s = do {
     s \<leftarrow> acquire_cond c s;
     let tosignal = c_waiting (conds s c);
     let s = upd_cond c (c_waiting_update (\<lambda>_. queue_init)) s;
     let s = release_cond c s;
     s \<leftarrow> broadcast_loop tosignal s;
     Some (0, s) }"

definition pthread_condattr_init :: int where
  "pthread_condattr_init = 0"

definition pthread_condattr_destroy :: int where
  "pthread_condattr_destroy = 0"

section \<open>Accessors\<close>

lemma release_cond_simps [simp]:
  "descr (release_cond c s) = descr s" "mutexes (release_cond c s) = mutexes s"
  "conds (release_cond c s) = (conds s)(c := (conds s c)\<lparr>c_spinlock := 0\<rparr>)"
  "sems (release_cond c s) = sems s" "cleanup_bufs (release_cond c s) = cleanup_bufs s"
  "pthread_keys (release_cond c s) = pthread_keys s"
  "pthread_keys_mutex (release_cond c s) = pthread_keys_mutex s"
  "handlers (release_cond c s) = handlers s"
  "pthread_atfork_prepare (release_cond c s) = pthread_atfork_prepare s"
  "pthread_atfork_parent (release_cond c s) = pthread_atfork_parent s"
  "pthread_atfork_child (release_cond c s) = pthread_atfork_child s"
  "pthread_atfork_lock (release_cond c s) = pthread_atfork_lock s"
  "initial_thread (release_cond c s) = initial_thread s"
  "manager_thread (release_cond c s) = manager_thread s"
  "main_thread (release_cond c s) = main_thread s"
  "initial_thread_bos (release_cond c s) = initial_thread_bos s"
  "manager_thread_bos (release_cond c s) = manager_thread_bos s"
  "manager_thread_tos (release_cond c s) = manager_thread_tos s"
  "manager_request (release_cond c s) = manager_request s"
  "manager_reader (release_cond c s) = manager_reader s"
  "exit_requested (release_cond c s) = exit_requested s"
  "exit_code (release_cond c s) = exit_code s"
  "stack_segments (release_cond c s) = stack_segments s"
  "num_stack_segments (release_cond c s) = num_stack_segments s"
  "terminated_children (release_cond c s) = terminated_children s"
  "main_thread_exiting (release_cond c s) = main_thread_exiting s"
  "sigmask (release_cond c s) = sigmask s" "reqs (release_cond c s) = reqs s"
  "klog (release_cond c s) = klog s"
  by (simp_all add: release_cond_def)

lemma acquire_cond_eq:
  "acquire_cond c s =
     (if c_spinlock (conds s c) = 0
      then Some (upd_cond c (c_spinlock_update (\<lambda>_. 1)) s) else None)"
  by (simp add: acquire_cond_def)

text \<open>Between operations a condition has a free spin lock and a well-formed queue.\<close>

definition cond_wf :: "heap \<Rightarrow> pthread_cond_t \<Rightarrow> pthread_t list \<Rightarrow> bool" where
  "cond_wf h x xs \<longleftrightarrow> c_spinlock x = 0 \<and> is_queue h (c_waiting x) xs"

lemma cond_signal_wakes:
  assumes wf: "cond_wf (descr s) (conds s c) xs"
  shows "\<exists>s'. pthread_cond_signal c s = Some (0, s') \<and>
    cond_wf (descr s') (conds s' c) (tl xs) \<and> mutexes s' = mutexes s \<and>
    klog s' = klog s @ (if xs = [] then [] else [Kill (p_pid (descr s (hd xs))) PTHREAD_SIG_RESTART]) \<and>
    (xs \<noteq> [] \<longrightarrow> p_nextwaiting (descr s' (hd xs)) = NULL)"
proof (cases xs)
  case Nil
  then have "dequeue (c_waiting (conds s c)) (descr s) = (NULL, c_waiting (conds s c), descr s)"
    using wf by (simp add: cond_wf_def dequeue_Nil)
  then show ?thesis using wf Nil by (simp add: pthread_cond_signal_def acquire_cond_eq cond_wf_def)
next
  case (Cons x ys)
  then obtain q where "dequeue (c_waiting (conds s c)) (descr s) = (x, q, set_nextwaiting x NULL (descr s))"
    and "is_queue (set_nextwaiting x NULL (descr s)) q ys"
    using wf by (auto simp: cond_wf_def elim: dequeue_Cons)
  moreover have "x \<noteq> NULL" using wf Cons by (auto simp: cond_wf_def dest: is_queue_NULL)
  moreover have "p_pid (set_nextwaiting x NULL (descr s) x) = p_pid (descr s x)"
    by (simp add: set_nextwaiting_def)
  ultimately show ?thesis using wf Cons
    by (simp add: pthread_cond_signal_def acquire_cond_eq cond_wf_def)
qed

text \<open>The loop of \<open>pthread_cond_broadcast\<close> ends, and restarts the threads of the queue in order.\<close>

lemma broadcast_loop_wakes:
  assumes "is_queue (descr s) q xs"
  shows "\<exists>s'. broadcast_loop q s = Some s' \<and> conds s' = conds s \<and> mutexes s' = mutexes s \<and>
    klog s' = klog s @ map (\<lambda>t. Kill (p_pid (descr s t)) PTHREAD_SIG_RESTART) xs \<and>
    (\<forall>t. descr s' t = (if t \<in> set xs then (descr s t)\<lparr>p_nextwaiting := NULL\<rparr> else descr s t))"
  using assms
proof (induction xs arbitrary: q s)
  case Nil
  then show ?case by (subst broadcast_loop.simps) (simp add: dequeue_Nil)
next
  case (Cons x xs)
  from Cons.prems obtain q' where d: "dequeue q (descr s) = (x, q', set_nextwaiting x NULL (descr s))"
    and q': "is_queue (set_nextwaiting x NULL (descr s)) q' xs" by (rule dequeue_Cons)
  have x: "x \<noteq> NULL" "x \<notin> set xs"
    using is_queue_NULL [OF Cons.prems] is_queue_distinct [OF Cons.prems] by auto
  define s1 where "s1 = restart x (s\<lparr>descr := set_nextwaiting x NULL (descr s)\<rparr>)"
  have "broadcast_loop q s = broadcast_loop q' s1"
    using d x by (subst broadcast_loop.simps) (simp add: s1_def)
  moreover have "\<exists>s'. broadcast_loop q' s1 = Some s' \<and> conds s' = conds s1 \<and> mutexes s' = mutexes s1 \<and>
    klog s' = klog s1 @ map (\<lambda>t. Kill (p_pid (descr s1 t)) PTHREAD_SIG_RESTART) xs \<and>
    (\<forall>t. descr s' t = (if t \<in> set xs then (descr s1 t)\<lparr>p_nextwaiting := NULL\<rparr> else descr s1 t))"
    by (rule Cons.IH) (use q' in \<open>simp add: s1_def\<close>)
  moreover have "conds s1 = conds s" "mutexes s1 = mutexes s"
    "klog s1 = klog s @ [Kill (p_pid (descr s x)) PTHREAD_SIG_RESTART]"
    "descr s1 t = (if t = x then (descr s t)\<lparr>p_nextwaiting := NULL\<rparr> else descr s t)"
    "p_pid (descr s1 t) = p_pid (descr s t)" for t
    by (simp_all add: s1_def set_nextwaiting_def)
  ultimately show ?case using x by auto
qed

text \<open>What the first half of a wait leaves behind.\<close>

lemma cond_enqueue_refines:
  assumes "is_queue (descr s) (c_waiting (conds s c)) xs" and "self \<noteq> NULL" and "self \<notin> set xs"
    and "p_nextwaiting (descr s self) = NULL"
  shows "is_queue (descr (cond_enqueue c self s)) (c_waiting (conds (cond_enqueue c self s) c)) (xs @ [self])"
    and "mutexes (cond_enqueue c self s) = mutexes s"
    and "klog (cond_enqueue c self s) = klog s"
    and "c_spinlock (conds (cond_enqueue c self s) c) = c_spinlock (conds s c)"
proof -
  obtain q h where e: "enqueue (c_waiting (conds s c)) self (descr s) = (q, h)"
    by (cases "enqueue (c_waiting (conds s c)) self (descr s)")
  then have "is_queue h q (xs @ [self])" using assms by (auto intro: enqueue_refines)
  with e show "is_queue (descr (cond_enqueue c self s)) (c_waiting (conds (cond_enqueue c self s) c)) (xs @ [self])"
    and "mutexes (cond_enqueue c self s) = mutexes s" and "klog (cond_enqueue c self s) = klog s"
    and "c_spinlock (conds (cond_enqueue c self s) c) = c_spinlock (conds s c)"
    by (simp_all add: cond_enqueue_def)
qed

text \<open>Every way in which a wait comes back has reacquired the mutex last.\<close>

lemma mutex_lock_flow:
  assumes "and_then (pthread_mutex_lock E self mu s) (\<lambda>_ s. Some (f s, s)) = Some (Ret r, s')"
  shows "\<exists>r' s0. pthread_mutex_lock_attempt self mu s0 = Some (Done r', s') \<and> f s' = Ret r"
  using assms mutex_lock_returns_attempt by (auto dest!: and_then_RetD) blast

lemma enqueue_frame:
  assumes "enqueue q th h = (q', h')" and "is_queue h q xs" and "t \<notin> set xs"
  shows "h' t = h t"
  using assms by (auto simp: enqueue_def is_queue_def set_nextwaiting_def split: if_splits)

lemma cond_wait_enter_refines:
  assumes c: "cond_wf (descr s) (conds s c) xs" and m: "mutex_wf (descr s) (mutexes s mu) ys"
    and disj: "set xs \<inter> set ys = {}" and self: "self \<noteq> NULL" "self \<notin> set xs \<union> set ys"
      "p_nextwaiting (descr s self) = NULL"
    and held: "m_kind (mutexes s mu) = PTHREAD_MUTEX_FAST_NP \<or> m_count (mutexes s mu) \<le> 1"
  obtains s' where "cond_wait_enter self c mu s = Some s'"
    and "cond_wf (descr s') (conds s' c) (xs @ [self])"
    and "mutex_wf (descr s') (mutexes s' mu) (tl ys)" and "m_count (mutexes s' mu) = 0"
    and "klog s' = klog s @ (if ys = [] then [] else [Kill (p_pid (descr s (hd ys))) PTHREAD_SIG_RESTART])"
proof -
  define s1 where "s1 = release_cond c (cond_enqueue c self (upd_cond c (c_spinlock_update (\<lambda>_. 1)) s))"
  obtain q h where e: "enqueue (c_waiting (conds s c)) self (descr s) = (q, h)"
    by (cases "enqueue (c_waiting (conds s c)) self (descr s)")
  have s1: "descr s1 = h" "c_waiting (conds s1 c) = q" "c_spinlock (conds s1 c) = 0"
    "mutexes s1 = mutexes s" "klog s1 = klog s"
    using e by (simp_all add: s1_def cond_enqueue_def)
  have q: "is_queue h q (xs @ [self])"
    using e c self by (auto simp: cond_wf_def intro: enqueue_refines)
  have frame: "h t = descr s t" if "t \<notin> set xs" for t
    using enqueue_frame [OF e] c that by (auto simp: cond_wf_def)
  have ys: "h t = descr s t" if "t \<in> set ys" for t using frame disj that by auto
  have "is_queue h (m_waiting (mutexes s mu)) ys \<longleftrightarrow> is_queue (descr s) (m_waiting (mutexes s mu)) ys"
    by (rule is_queue_cong) (simp add: ys)
  with m have "mutex_wf (descr s1) (mutexes s1 mu) ys" by (simp add: mutex_wf_def s1)
  then obtain s' where u: "pthread_mutex_unlock mu s1 = Some (0, s')"
    "mutex_wf (descr s') (mutexes s' mu) (tl ys)" "m_count (mutexes s' mu) = 0"
    "klog s' = klog s @ (if ys = [] then [] else [Kill (p_pid (h (hd ys))) PTHREAD_SIG_RESTART])"
    "conds s' = conds s1" and frame': "\<And>t. t \<notin> set ys \<Longrightarrow> descr s' t = h t"
    using unlock_releases [of s1 mu ys] held s1 by auto
  have "descr s' t = h t" if "t \<in> set (xs @ [self])" for t using that frame' disj self by auto
  then have "is_queue (descr s') q (xs @ [self]) \<longleftrightarrow> is_queue h q (xs @ [self])"
    by (intro is_queue_cong) simp
  with q s1 u(5) have "cond_wf (descr s') (conds s' c) (xs @ [self])" by (simp add: cond_wf_def)
  moreover have "cond_wait_enter self c mu s = Some s'"
    using c u(1) by (simp add: cond_wait_enter_def acquire_cond_eq cond_wf_def s1_def)
  moreover have "klog s' = klog s @ (if ys = [] then [] else [Kill (p_pid (descr s (hd ys))) PTHREAD_SIG_RESTART])"
    using u(4) ys by auto
  ultimately show thesis using that u(2,3) by blast
qed

lemma broadcast_wakes_all:
  assumes "cond_wf (descr s) (conds s c) xs"
  shows "\<exists>s'. pthread_cond_broadcast c s = Some (0, s') \<and> cond_wf (descr s') (conds s' c) [] \<and>
    klog s' = klog s @ map (\<lambda>t. Kill (p_pid (descr s t)) PTHREAD_SIG_RESTART) xs \<and>
    (\<forall>t. descr s' t = (if t \<in> set xs then (descr s t)\<lparr>p_nextwaiting := NULL\<rparr> else descr s t))"
proof -
  define s1 where "s1 = release_cond c (upd_cond c (c_waiting_update (\<lambda>_. queue_init))
    (upd_cond c (c_spinlock_update (\<lambda>_. 1)) s))"
  have s1: "descr s1 = descr s" "klog s1 = klog s"
    "conds s1 c = \<lparr>c_spinlock = 0, c_waiting = queue_init\<rparr>" by (simp_all add: s1_def)
  then obtain s' where "broadcast_loop (c_waiting (conds s c)) s1 = Some s'" "conds s' = conds s1"
    "klog s' = klog s @ map (\<lambda>t. Kill (p_pid (descr s t)) PTHREAD_SIG_RESTART) xs"
    "\<forall>t. descr s' t = (if t \<in> set xs then (descr s t)\<lparr>p_nextwaiting := NULL\<rparr> else descr s t)"
    using broadcast_loop_wakes [of s1 "c_waiting (conds s c)" xs] assms by (auto simp: cond_wf_def)
  moreover have "pthread_cond_broadcast c s =
      Option.bind (broadcast_loop (c_waiting (conds s c)) s1) (\<lambda>s. Some (0, s))"
    using assms by (simp add: pthread_cond_broadcast_def acquire_cond_eq cond_wf_def s1_def)
  ultimately show ?thesis using s1(3) by (intro exI [of _ s']) (simp add: cond_wf_def)
qed

text \<open>The return of a wait.\<close>

lemma cond_wait_return:
  assumes "pthread_cond_wait E self c mu s = Some (Ret r, s')"
  shows "r = 0 \<and> \<not> cancel_pending self s' \<and>
    (\<exists>r' s0. pthread_mutex_lock_attempt self mu s0 = Some (Done r', s'))"
proof -
  obtain s1 s2 r' where l: "pthread_mutex_lock E self mu s1 = Some (Ret r', s2)"
    and k: "(if cancel_pending self s2 then do {
         s \<leftarrow> acquire_cond c s2;
         s \<leftarrow> cond_remove c self s;
         let s = release_cond c s;
         Some (PExit PTHREAD_CANCELED, s) } else Some (Ret 0, s2)) = Some (Ret r, s')"
    using assms by (auto simp: pthread_cond_wait_def bind_eq_Some_conv dest!: and_then_RetD)
  then have "r = 0" "s' = s2" "\<not> cancel_pending self s2"
    by (auto simp: bind_eq_Some_conv split: if_splits)
  with mutex_lock_returns_attempt [OF l] show ?thesis by blast
qed

lemma timedwait_return:
  assumes "pthread_cond_timedwait_relative E self c mu reltime s = Some (Ret r, s')"
  shows "r \<in> {0, ETIMEDOUT, EINTR} \<and>
    (\<exists>r' s0. pthread_mutex_lock_attempt self mu s0 = Some (Done r', s'))"
proof -
  obtain y where e: "cond_wait_enter self c mu s = Some y"
    using assms by (auto simp: pthread_cond_timedwait_relative_def bind_eq_Some_conv)
  note run = assms [unfolded pthread_cond_timedwait_relative_def e, simplified Let_def, simplified]
  obtain f s1 where l: "and_then (pthread_mutex_lock E self mu s1) (\<lambda>_ s. Some (f, s)) = Some (Ret r, s')"
    and f: "f \<in> {Ret 0, Ret ETIMEDOUT, Ret EINTR, PExit PTHREAD_CANCELED}"
    using and_then_RetD [OF run] by (auto simp: bind_eq_Some_conv split: if_splits)
  then show ?thesis using mutex_lock_flow [of E self mu s1 "\<lambda>_. f" r s'] by auto
qed

section \<open>Properties\<close>

text \<open>For the witnesses: threads 8 and 16 wait for condition 0, thread 24 holds mutex 4.\<close>

definition two_waiting :: st where
  "two_waiting = zero_st\<lparr>
     descr := (\<lambda>_. zero_descr)(8 := zero_descr\<lparr>p_nextwaiting := 16, p_pid := 100\<rparr>,
                              16 := zero_descr\<lparr>p_pid := 101\<rparr>, 24 := zero_descr\<lparr>p_pid := 102\<rparr>),
     conds := (\<lambda>_. \<lparr>c_spinlock = 0, c_waiting = \<lparr>head = 8, tail = 16\<rparr>\<rparr>),
     mutexes := (\<lambda>_. PTHREAD_MUTEX_INITIALIZER\<lparr>m_count := 1\<rparr>)\<rparr>"

lemma two_waiting_cond: "cond_wf (descr two_waiting) (conds two_waiting 0) [8, 16]"
  by (simp add: cond_wf_def is_queue_def two_waiting_def zero_descr_def)

lemma two_waiting_mutex: "mutex_wf (descr two_waiting) (mutexes two_waiting 4) []"
  by (simp add: mutex_wf_defs is_queue_def two_waiting_def PTHREAD_MUTEX_INITIALIZER_def)

lemma cond_wait_prompt: "\<exists>s'. pthread_cond_wait prompt_env 24 0 4 two_waiting = Some (Ret 0, s')"
proof -
  define s1 where "s1 = the (cond_wait_enter 24 0 4 two_waiting)"
  note run = cond_wait_enter_def acquire_cond_eq cond_enqueue_def enqueue_def two_waiting_def zero_st_def
    zero_descr_def PTHREAD_MUTEX_INITIALIZER_def pthread_mutex_unlock_def acquire_mutex_eq
    mutex_unlock_body_def dequeue_def set_nextwaiting_def release_cond_def upd_cond_def upd_mutex_def
    release_mutex_def
  have e: "cond_wait_enter 24 0 4 two_waiting = Some s1"
    and s1: "manager_thread s1 = 0" "\<not> p_signal_jmp (descr s1 24)" "\<not> p_canceled (descr s1 24)"
      "mutexes s1 4 = PTHREAD_MUTEX_INITIALIZER"
    by (simp_all add: s1_def run)
  define s2 where "s2 = upd_th 24 (\<lambda>d. d\<lparr>p_signal := PTHREAD_SIG_RESTART, p_cancel_jmp := False\<rparr>) s1"
  have w: "suspend_with_cancellation prompt_env 24 s1 = Some (Ret (), s2)"
    unfolding s2_def by (rule suspend_with_cancellation_prompt) (simp_all add: s1 cancel_pending_def)
  have s2: "mutexes s2 4 = PTHREAD_MUTEX_INITIALIZER" "\<not> p_canceled (descr s2 24)"
    using s1 by (simp_all add: s2_def upd_th_def)
  then obtain s3 where s3: "pthread_mutex_lock_attempt 24 4 s2 = Some (Done 0, s3)" "descr s3 = descr s2"
    using lock_attempt_succeeds [of s2 4 "[]" 24]
    by (auto simp: mutex_wf_defs lockable_def is_queue_def PTHREAD_MUTEX_INITIALIZER_def)
  then have "pthread_mutex_lock prompt_env 24 4 s2 = Some (Ret 0, s3)" by (intro mutex_lock_immediate)
  then show ?thesis using e w s2 s3 by (simp add: pthread_cond_wait_def cancel_pending_def)
qed

text \<open>
  \<open>pthread_cond_broadcast\<close> terminates, sends the restart signal to exactly the threads that wait
  for the condition, in the order in which they have arrived, leaves the queue empty, and unlinks
  each of them.
\<close>

theorem cond_broadcast_wakes_all_in_order:
  assumes "cond_wf (descr s) (conds s c) xs"
  shows "\<exists>s'. pthread_cond_broadcast c s = Some (0, s') \<and> cond_wf (descr s') (conds s' c) [] \<and>
    klog s' = klog s @ map (\<lambda>t. Kill (p_pid (descr s t)) PTHREAD_SIG_RESTART) xs \<and>
    (\<forall>t. descr s' t = (if t \<in> set xs then (descr s t)\<lparr>p_nextwaiting := NULL\<rparr> else descr s t))"
  using assms by (rule broadcast_wakes_all)

theorem cond_broadcast_witness:
  "\<exists>s'. pthread_cond_broadcast 0 two_waiting = Some (0, s') \<and> cond_wf (descr s') (conds s' 0) [] \<and>
    klog s' = [Kill 100 PTHREAD_SIG_RESTART, Kill 101 PTHREAD_SIG_RESTART]"
  using cond_broadcast_wakes_all_in_order [OF two_waiting_cond]
  by (auto simp: two_waiting_def zero_st_def)

text \<open>
  \<open>pthread_cond_wait\<close> gives up the mutex only after the thread is in the queue of the condition:
  when it goes to sleep it is the last thread of that queue, the mutex is free and its first waiting
  thread has been restarted. A signal that follows therefore restarts the first waiting thread, and
  with nobody else waiting it restarts this one.
\<close>

theorem cond_wait_enters_before_unlock:
  assumes "cond_wf (descr s) (conds s c) xs" and "mutex_wf (descr s) (mutexes s mu) ys"
    and "set xs \<inter> set ys = {}" and "self \<noteq> NULL" and "self \<notin> set xs \<union> set ys"
    and "p_nextwaiting (descr s self) = NULL"
    and "m_kind (mutexes s mu) = PTHREAD_MUTEX_FAST_NP \<or> m_count (mutexes s mu) \<le> 1"
  shows "\<exists>s1 s2. cond_wait_enter self c mu s = Some s1 \<and>
    cond_wf (descr s1) (conds s1 c) (xs @ [self]) \<and>
    mutex_wf (descr s1) (mutexes s1 mu) (tl ys) \<and> m_count (mutexes s1 mu) = 0 \<and>
    klog s1 = klog s @ (if ys = [] then [] else [Kill (p_pid (descr s (hd ys))) PTHREAD_SIG_RESTART]) \<and>
    pthread_cond_signal c s1 = Some (0, s2) \<and> cond_wf (descr s2) (conds s2 c) (tl (xs @ [self])) \<and>
    klog s2 = klog s1 @ [Kill (p_pid (descr s1 (hd (xs @ [self])))) PTHREAD_SIG_RESTART]"
proof -
  obtain s1 where s1: "cond_wait_enter self c mu s = Some s1" "cond_wf (descr s1) (conds s1 c) (xs @ [self])"
    "mutex_wf (descr s1) (mutexes s1 mu) (tl ys)" "m_count (mutexes s1 mu) = 0"
    "klog s1 = klog s @ (if ys = [] then [] else [Kill (p_pid (descr s (hd ys))) PTHREAD_SIG_RESTART])"
    using assms by (rule cond_wait_enter_refines)
  with cond_signal_wakes [OF s1(2)] show ?thesis by auto
qed

theorem cond_wait_enters_before_unlock_witness:
  "\<exists>s1. cond_wait_enter 24 0 4 two_waiting = Some s1 \<and>
    cond_wf (descr s1) (conds s1 0) [8, 16, 24] \<and> m_count (mutexes s1 4) = 0"
  using cond_wait_enters_before_unlock [OF two_waiting_cond two_waiting_mutex, of 24]
  by (auto simp: two_waiting_def zero_descr_def PTHREAD_MUTEX_INITIALIZER_def)

text \<open>
  When \<open>pthread_cond_wait\<close> returns, it returns 0, cancellation is not pending, and the last thing
  the thread did was a successful pass of \<open>pthread_mutex_lock\<close>: it holds the mutex again.
\<close>

theorem cond_wait_reacquires:
  assumes "pthread_cond_wait E self c mu s = Some (Ret r, s')"
  shows "r = 0 \<and> \<not> cancel_pending self s' \<and>
    (\<exists>r' s0. pthread_mutex_lock_attempt self mu s0 = Some (Done r', s'))"
  using assms by (rule cond_wait_return)

theorem cond_wait_reacquires_witness:
  "\<exists>s' s0 r'. pthread_cond_wait prompt_env 24 0 4 two_waiting = Some (Ret 0, s') \<and>
    \<not> cancel_pending 24 s' \<and> pthread_mutex_lock_attempt 24 4 s0 = Some (Done r', s')"
proof -
  obtain s' where "pthread_cond_wait prompt_env 24 0 4 two_waiting = Some (Ret 0, s')"
    using cond_wait_prompt by blast
  with cond_wait_reacquires [OF this] show ?thesis by blast
qed

text \<open>
  The relative time \<open>pthread_cond_timedwait\<close> sleeps is exactly the difference of the two instants,
  and its nanoseconds are normalised to less than a second.
\<close>

theorem timedwait_reltime_correct:
  assumes "0 \<le> nsec" and "nsec < 1000000000" and "0 \<le> usec" and "usec < 1000000"
    and "timedwait_reltime (sec, nsec) (nsec', usec) = (rs, rn)"
  shows "0 \<le> rn \<and> rn < 1000000000 \<and>
    rs * 1000000000 + rn = (sec * 1000000000 + nsec) - (nsec' * 1000000000 + usec * 1000)"
  using assms by (auto simp: timedwait_reltime_def Let_def split: if_splits)

theorem timedwait_reltime_witness:
  "timedwait_reltime (10, 5) (7, 1) = (2, 999999005) \<and> (0 :: int) \<le> 999999005"
  using timedwait_reltime_correct [of 5 1 10 7 2 999999005] by (simp add: timedwait_reltime_def)

text \<open>
  \<open>pthread_cond_timedwait\<close> returns 0, \<open>ETIMEDOUT\<close> or \<open>EINTR\<close>. If the deadline has already passed
  it returns \<open>ETIMEDOUT\<close> at once without giving up the mutex; otherwise the last thing it did was a
  successful pass of \<open>pthread_mutex_lock\<close>.
\<close>

theorem timedwait_codes:
  assumes "pthread_cond_timedwait E now self c mu abstime s = Some (Ret r, s')"
  shows "(fst (timedwait_reltime abstime now) < 0 \<and> r = ETIMEDOUT \<and> s' = s) \<or>
    (r \<in> {0, ETIMEDOUT, EINTR} \<and> (\<exists>r' s0. pthread_mutex_lock_attempt self mu s0 = Some (Done r', s')))"
  using assms timedwait_return [of E self c mu "timedwait_reltime abstime now" s r s']
  by (auto simp: pthread_cond_timedwait_def Let_def split: if_splits)

theorem timedwait_codes_witness:
  "pthread_cond_timedwait prompt_env (7, 1) 24 0 4 (7, 5) two_waiting = Some (Ret ETIMEDOUT, two_waiting) \<and>
    fst (timedwait_reltime (7, 5) (7, 1)) < 0"
  using timedwait_codes [of prompt_env "(7, 1)" 24 0 4 "(7, 5)" two_waiting ETIMEDOUT two_waiting]
  by (simp add: pthread_cond_timedwait_def timedwait_reltime_def)

end
