(* ===== verification/Condvar_Concurrent.thy ===== *)
theory Condvar_Concurrent
  imports Condvar
begin

text \<open>
  Any number of threads on one fast mutex and one condition. A thread locks and unlocks the mutex, waits for the condition
  while it holds the mutex, and signals or broadcasts, with or without the mutex. A step is one section under the spin lock of
  the mutex or of the condition (\<open>Mutex_Concurrent\<close> has the spin lock of a mutex in steps of its own), one
  signal sent by \<open>restart\<close>, or one signal received in \<open>sigsuspend\<close>. The steps run the definitions of \<open>Mutex\<close> and
  \<open>Condvar\<close> on the shared state, so that the queues of the mutex, of the condition and of every broadcast that is
  under way are linked through the same field of the descriptors. Nobody is cancelled.
\<close>

section \<open>The steps\<close>

text \<open>The section of \<open>pthread_cond_signal\<close> and that of \<open>pthread_cond_broadcast\<close>.\<close>

definition cond_take :: "addr \<Rightarrow> st \<Rightarrow> (pthread_t \<times> st) option" where
  "cond_take c s = do {
     s \<leftarrow> acquire_cond c s;
     let (th, q, h) = dequeue (c_waiting (conds s c)) (descr s);
     let s = upd_cond c (c_waiting_update (\<lambda>_. q)) (s\<lparr>descr := h\<rparr>);
     Some (th, release_cond c s) }"

definition cond_take_all :: "addr \<Rightarrow> st \<Rightarrow> (pthread_queue \<times> st) option" where
  "cond_take_all c s = do {
     s \<leftarrow> acquire_cond c s;
     let tosignal = c_waiting (conds s c);
     let s = upd_cond c (c_waiting_update (\<lambda>_. queue_init)) s;
     Some (tosignal, release_cond c s) }"

lemma cond_signal_sections:
  "pthread_cond_signal c s = do { (th, s) \<leftarrow> cond_take c s; Some (0, if th \<noteq> NULL then restart th s else s) }"
  "pthread_cond_broadcast c s = do { (q, s) \<leftarrow> cond_take_all c s; s \<leftarrow> broadcast_loop q s; Some (0, s) }"
  subgoal by (cases "acquire_cond c s") (simp_all add: pthread_cond_signal_def cond_take_def Let_def split: prod.splits)
  subgoal by (cases "acquire_cond c s") (simp_all add: pthread_cond_broadcast_def cond_take_all_def Let_def)
  done

text \<open>
  Control points: \<open>KEntered\<close> is the point in \<open>pthread_cond_wait\<close> after the queue has been entered. \<open>KRestart th k\<close> is
  before the call \<open>restart(th)\<close>, \<open>KBroad q k\<close> in the loop of \<open>pthread_cond_broadcast\<close>; both go on with \<open>k\<close>.
\<close>

datatype kpc =
    KIdle | KLock | KLockSleep | KHold | KEntered | KCondSleep
  | KRestart pthread_t kpc | KBroad pthread_queue kpc

record ksys =
  k_st :: st
  k_ctl :: "pthread_t \<Rightarrow> kpc"
  k_sig :: "pthread_t \<Rightarrow> bool"

abbreviation kwake :: "pthread_t \<Rightarrow> kpc \<Rightarrow> kpc" where
  "kwake th k \<equiv> (if th \<noteq> NULL then KRestart th k else k)"

abbreviation kmove :: "pthread_t \<Rightarrow> st \<Rightarrow> kpc \<Rightarrow> ksys \<Rightarrow> ksys" where
  "kmove t s k x \<equiv> x\<lparr>k_st := s, k_ctl := (k_ctl x)(t := k)\<rparr>"

inductive kstep :: "addr \<Rightarrow> addr \<Rightarrow> ksys \<Rightarrow> ksys \<Rightarrow> bool" for mu c where
  lock_call: "k_ctl x t = KIdle \<Longrightarrow> t \<noteq> NULL \<Longrightarrow> kstep mu c x (kmove t (k_st x) KLock x)"
| lock_got: "k_ctl x t = KLock \<Longrightarrow> pthread_mutex_lock_attempt t mu (k_st x) = Some (Done r, s) \<Longrightarrow>
    kstep mu c x (kmove t s KHold x)"
| lock_wait: "k_ctl x t = KLock \<Longrightarrow> pthread_mutex_lock_attempt t mu (k_st x) = Some (Wait, s) \<Longrightarrow>
    kstep mu c x (kmove t s KLockSleep x)"
| woken: "k_ctl x t = KLockSleep \<or> k_ctl x t = KCondSleep \<Longrightarrow> k_sig x t \<Longrightarrow>
    deliver t PTHREAD_SIG_RESTART (k_st x) = (H_return, s) \<Longrightarrow>
    kstep mu c x ((kmove t s KLock x)\<lparr>k_sig := (k_sig x)(t := False)\<rparr>)"
| unlock: "k_ctl x t = KHold \<Longrightarrow> acquire_mutex mu (k_st x) = Some s' \<Longrightarrow> mutex_unlock_body mu s' = (r, th, s) \<Longrightarrow>
    kstep mu c x (kmove t s (kwake th KIdle) x)"
| wait_enter: "k_ctl x t = KHold \<Longrightarrow> acquire_cond c (k_st x) = Some s \<Longrightarrow>
    kstep mu c x (kmove t (release_cond c (cond_enqueue c t s)) KEntered x)"
| wait_unlock: "k_ctl x t = KEntered \<Longrightarrow> acquire_mutex mu (k_st x) = Some s' \<Longrightarrow> mutex_unlock_body mu s' = (r, th, s) \<Longrightarrow>
    kstep mu c x (kmove t s (kwake th KCondSleep) x)"
| signal: "k_ctl x t = k \<Longrightarrow> k = KIdle \<or> k = KHold \<Longrightarrow> t \<noteq> NULL \<Longrightarrow> cond_take c (k_st x) = Some (th, s) \<Longrightarrow>
    kstep mu c x (kmove t s (kwake th k) x)"
| broadcast: "k_ctl x t = k \<Longrightarrow> k = KIdle \<or> k = KHold \<Longrightarrow> t \<noteq> NULL \<Longrightarrow> cond_take_all c (k_st x) = Some (q, s) \<Longrightarrow>
    kstep mu c x (kmove t s (KBroad q k) x)"
| broad_next: "k_ctl x t = KBroad q k \<Longrightarrow> dequeue q (descr (k_st x)) = (th, q', h) \<Longrightarrow>
    kstep mu c x (kmove t ((k_st x)\<lparr>descr := h\<rparr>) (if th \<noteq> NULL then KRestart th (KBroad q' k) else k) x)"
| restart_th: "k_ctl x t = KRestart th k \<Longrightarrow>
    kstep mu c x ((kmove t (restart th (k_st x)) k x)\<lparr>k_sig := (k_sig x)(th := True)\<rparr>)"

text \<open>Initially the mutex and the condition are in their initial states and no thread is in an operation.\<close>

definition kstart :: "addr \<Rightarrow> addr \<Rightarrow> ksys \<Rightarrow> bool" where
  "kstart mu c x \<longleftrightarrow> mutexes (k_st x) mu = PTHREAD_MUTEX_INITIALIZER \<and> conds (k_st x) c = PTHREAD_COND_INITIALIZER \<and>
     (\<forall>t. p_nextwaiting (descr (k_st x) t) = NULL \<and> \<not> p_signal_jmp (descr (k_st x) t)) \<and>
     k_ctl x = (\<lambda>_. KIdle) \<and> k_sig x = (\<lambda>_. False)"

inductive kreach :: "addr \<Rightarrow> addr \<Rightarrow> ksys \<Rightarrow> bool" for mu c where
  start: "kstart mu c x \<Longrightarrow> kreach mu c x"
| step: "kreach mu c x \<Longrightarrow> kstep mu c x y \<Longrightarrow> kreach mu c y"

section \<open>The queues\<close>

text \<open>
  The queues of the system: that of the mutex, that of the condition, and the local one of each thread that broadcasts. A
  thread is in none of them or in exactly one, waits to be restarted by a certain thread, or has the signal pending.
\<close>

datatype qid = QM | QC | QB pthread_t

datatype kplace = Out | In qid | To_restart pthread_t | Pending

definition queues_ok :: "heap \<Rightarrow> (qid \<Rightarrow> pthread_queue) \<Rightarrow> (qid \<Rightarrow> pthread_t list) \<Rightarrow> (pthread_t \<Rightarrow> kplace) \<Rightarrow> bool" where
  "queues_ok h qv qs pl \<longleftrightarrow> (\<forall>i. is_queue h (qv i) (qs i)) \<and> (\<forall>i t. t \<in> set (qs i) \<longleftrightarrow> pl t = In i) \<and>
     (\<forall>t. (\<forall>i. pl t \<noteq> In i) \<longrightarrow> p_nextwaiting (h t) = NULL)"

lemma queues_okD:
  assumes "queues_ok h qv qs pl"
  shows "is_queue h (qv i) (qs i)" and "t \<in> set (qs i) \<longleftrightarrow> pl t = In i"
    and "(\<And>i. pl t \<noteq> In i) \<Longrightarrow> p_nextwaiting (h t) = NULL"
  using assms by (simp_all add: queues_ok_def)

lemma queues_ok_cong:
  assumes "queues_ok h qv qs pl" and "\<And>t. p_nextwaiting (h' t) = p_nextwaiting (h t)"
  shows "queues_ok h' qv qs pl"
  using assms is_queue_cong [of _ h h'] unfolding queues_ok_def by simp

lemma queues_ok_place:
  assumes "queues_ok h qv qs pl" and "\<And>i. pl t \<noteq> In i" and "\<And>i. p \<noteq> In i"
  shows "queues_ok h qv qs (pl(t := p))"
  using assms unfolding queues_ok_def by (auto simp: fun_upd_def)

lemma queues_ok_enqueue:
  assumes Q: "queues_ok h qv qs pl" and out: "\<And>i. pl t \<noteq> In i" and "t \<noteq> NULL" and e: "enqueue (qv i) t h = (q, h')"
  shows "queues_ok h' (qv(i := q)) (qs(i := qs i @ [t])) (pl(t := In i))"
proof -
  note D = queues_okD [OF Q]
  have n: "t \<notin> set (qs j)" for j using D(2) [of t j] out by simp
  have q: "is_queue h' q (qs i @ [t])"
    by (rule enqueue_refines [OF D(1) assms(3) n D(3) e]) (rule out)
  have fr: "h' u = h u" if "u \<notin> set (qs i)" for u using enqueue_frame [OF e D(1) that] .
  have "is_queue h' (qv j) (qs j)" if "j \<noteq> i" for j
  proof -
    have "u \<notin> set (qs i)" if "u \<in> set (qs j)" for u using D(2) [of u i] D(2) [of u j] \<open>j \<noteq> i\<close> that by auto
    then show ?thesis using is_queue_cong [of "qs j" h h'] fr D(1) [of j] by metis
  qed
  moreover have "p_nextwaiting (h' u) = NULL" if "\<forall>j. (pl(t := In i)) u \<noteq> In j" for u
  proof -
    have "\<And>j. pl u \<noteq> In j" using that by (auto split: if_splits)
    then show ?thesis using fr [of u] D(3) [of u] D(2) [of u i] by simp
  qed
  ultimately show ?thesis using q D(2) out unfolding queues_ok_def by auto
qed

lemma queues_ok_dequeue:
  assumes Q: "queues_ok h qv qs pl" and d: "dequeue (qv i) h = (th, q, h')" and p: "\<And>j. p \<noteq> In j"
  shows "th = NULL \<and> qs i = [] \<and> q = qv i \<and> h' = h \<or>
    th \<noteq> NULL \<and> (\<exists>l. qs i = th # l \<and> queues_ok h' (qv(i := q)) (qs(i := l)) (pl(th := p))) \<and> pl th = In i"
proof (cases "qs i")
  case Nil
  with queues_okD(1) [OF Q, of i] d show ?thesis by (simp add: dequeue_Nil)
next
  case (Cons a l)
  note D = queues_okD [OF Q]
  have "is_queue h (qv i) (a # l)" using D(1) [of i] Cons by simp
  from dequeue_Cons [OF this] d have a: "th = a" "h' = set_nextwaiting a NULL h" "is_queue h' q l" by (metis prod.inject)+
  have "a \<noteq> NULL" "a \<notin> set l" using is_queue_NULL [OF D(1), of i] is_queue_distinct [OF D(1), of i] Cons by auto
  have pa: "pl a = In i" using D(2) [of a i] Cons by simp
  have "is_queue h' (qv j) (qs j)" if "j \<noteq> i" for j
    unfolding a(2) using D(1) [of j] D(2) [of a j] pa that by (subst is_queue_set_other) auto
  moreover have "u \<in> set l \<longleftrightarrow> (pl(a := p)) u = In i" for u
    using D(2) [of u i] Cons \<open>a \<notin> set l\<close> p by auto
  moreover have "u \<in> set (qs j) \<longleftrightarrow> (pl(a := p)) u = In j" if "j \<noteq> i" for u j
    using D(2) [of u j] pa p that by auto
  moreover have "p_nextwaiting (h' u) = NULL" if "\<forall>j. (pl(a := p)) u \<noteq> In j" for u
    using that D(3) [of u] by (auto simp: a(2) split: if_splits)
  ultimately have "queues_ok h' (qv(i := q)) (qs(i := l)) (pl(a := p))" using a(3) unfolding queues_ok_def by auto
  then show ?thesis using Cons a(1) \<open>a \<noteq> NULL\<close> pa by blast
qed

lemma queues_ok_take:
  assumes Q: "queues_ok h qv qs pl" and e: "qs (QB u) = []"
  shows "queues_ok h (qv(QC := queue_init, QB u := qv QC)) (qs(QC := [], QB u := qs QC))
    (\<lambda>t. if pl t = In QC then In (QB u) else pl t)"
proof -
  note D = queues_okD [OF Q]
  have "pl t \<noteq> In (QB u)" for t using D(2) [of t "QB u"] e by simp
  then show ?thesis using Q unfolding queues_ok_def by auto
qed

section \<open>What the sections do\<close>

definition fast_free :: "pthread_mutex_t \<Rightarrow> bool" where
  "fast_free m \<longleftrightarrow> m_spinlock m = 0 \<and> m_kind m = PTHREAD_MUTEX_FAST_NP"

lemma lock_attempt_effect:
  assumes "fast_free (mutexes s mu)" and "pthread_mutex_lock_attempt t mu s = Some (a, s')"
  shows "m_count (mutexes s mu) = 0 \<and> a = Done 0 \<and> descr s' = descr s \<and> conds s' = conds s \<and>
      mutexes s' mu = (mutexes s mu)\<lparr>m_count := 1\<rparr> \<or>
    m_count (mutexes s mu) \<noteq> 0 \<and> a = Wait \<and> conds s' = conds s \<and>
      (\<exists>q. enqueue (m_waiting (mutexes s mu)) t (descr s) = (q, descr s') \<and>
        mutexes s' mu = (mutexes s mu)\<lparr>m_waiting := q\<rparr>)"
  using assms
  by (cases "mutexes s mu")
    (auto simp: fast_free_def pthread_mutex_lock_attempt_def acquire_mutex_eq mutex_lock_body_def Let_def
      split: prod.splits if_splits)

lemma unlock_effect:
  assumes "fast_free (mutexes s mu)" and "acquire_mutex mu s = Some s1" and "mutex_unlock_body mu s1 = (r, th, s')"
  shows "conds s' = conds s" and "\<exists>q. dequeue (m_waiting (mutexes s mu)) (descr s) = (th, q, descr s') \<and>
    mutexes s' mu = (mutexes s mu)\<lparr>m_count := 0, m_waiting := q\<rparr>"
  using assms
  by (cases "mutexes s mu"; auto simp: fast_free_def acquire_mutex_eq mutex_unlock_body_def Let_def split: prod.splits if_splits)+

lemma enter_effect:
  assumes "acquire_cond c s = Some s1" and "s' = release_cond c (cond_enqueue c t s1)"
  shows "mutexes s' = mutexes s" and "c_spinlock (conds s' c) = 0"
    and "enqueue (c_waiting (conds s c)) t (descr s) = (c_waiting (conds s' c), descr s')"
  using assms by (auto simp: acquire_cond_eq cond_enqueue_def split: prod.splits if_splits)

lemma take_effect:
  assumes "cond_take c s = Some (th, s')"
  shows "mutexes s' = mutexes s" and "c_spinlock (conds s' c) = 0"
    and "dequeue (c_waiting (conds s c)) (descr s) = (th, c_waiting (conds s' c), descr s')"
  using assms by (auto simp: cond_take_def acquire_cond_eq Let_def split: prod.splits if_splits)

lemma take_all_effect:
  assumes "cond_take_all c s = Some (q, s')"
  shows "mutexes s' = mutexes s" and "c_spinlock (conds s' c) = 0" and "descr s' = descr s"
    and "q = c_waiting (conds s c)" and "c_waiting (conds s' c) = queue_init"
  using assms by (auto simp: cond_take_all_def acquire_cond_eq Let_def split: if_splits)

section \<open>The invariant\<close>

text \<open>Where a thread goes on, which thread it is about to restart, and its local queue.\<close>

fun after :: "kpc \<Rightarrow> kpc" where
  "after (KRestart th k) = after k"
| "after (KBroad q k) = after k"
| "after k = k"

fun restarting :: "kpc \<Rightarrow> pthread_t option" where
  "restarting (KRestart th k) = Some th"
| "restarting _ = None"

fun local_q :: "kpc \<Rightarrow> pthread_queue" where
  "local_q (KRestart th k) = local_q k"
| "local_q (KBroad q k) = q"
| "local_q _ = queue_init"

definition holds :: "kpc \<Rightarrow> bool" where
  "holds k \<longleftrightarrow> after k = KHold \<or> after k = KEntered"

definition waits :: "kpc \<Rightarrow> bool" where
  "waits k \<longleftrightarrow> after k = KLockSleep \<or> after k = KEntered \<or> after k = KCondSleep"

definition kview :: "addr \<Rightarrow> addr \<Rightarrow> ksys \<Rightarrow> qid \<Rightarrow> pthread_queue" where
  "kview mu c x i = (case i of QM \<Rightarrow> m_waiting (mutexes (k_st x) mu) | QC \<Rightarrow> c_waiting (conds (k_st x) c)
     | QB u \<Rightarrow> local_q (k_ctl x u))"

lemma kview_simps [simp]:
  "kview mu c x QM = m_waiting (mutexes (k_st x) mu)" "kview mu c x QC = c_waiting (conds (k_st x) c)"
  "kview mu c x (QB u) = local_q (k_ctl x u)"
  by (simp_all add: kview_def)

text \<open>The continuations that occur.\<close>

definition shape :: "kpc \<Rightarrow> bool" where
  "shape k \<longleftrightarrow> (case k of
     KRestart th k' \<Rightarrow> k' = KIdle \<or> k' = KHold \<or> k' = KCondSleep \<or> (\<exists>q b. k' = KBroad q b \<and> (b = KIdle \<or> b = KHold))
   | KBroad q b \<Rightarrow> b = KIdle \<or> b = KHold
   | _ \<Rightarrow> True)"

text \<open>The places of the threads agree with their control points.\<close>

definition places_ok :: "(pthread_t \<Rightarrow> kpc) \<Rightarrow> (pthread_t \<Rightarrow> bool) \<Rightarrow> (pthread_t \<Rightarrow> kplace) \<Rightarrow> bool" where
  "places_ok ctl sig pl \<longleftrightarrow>
     (\<forall>t u. restarting (ctl u) = Some t \<longleftrightarrow> pl t = To_restart u) \<and> (\<forall>t. sig t \<longleftrightarrow> pl t = Pending) \<and>
     (\<forall>t. pl t = Out \<longleftrightarrow> \<not> waits (ctl t)) \<and> (\<forall>t. pl t = In QM \<longrightarrow> ctl t = KLockSleep) \<and>
     (\<forall>t i. pl t = In i \<longrightarrow> i \<noteq> QM \<longrightarrow> ctl t \<noteq> KLockSleep) \<and> ctl NULL = KIdle \<and> (\<forall>t. shape (ctl t))"

text \<open>A thread that will come to the mutex: it is there, has been restarted, or is about to be restarted.\<close>

definition coming :: "(pthread_t \<Rightarrow> kpc) \<Rightarrow> (pthread_t \<Rightarrow> kplace) \<Rightarrow> pthread_t \<Rightarrow> bool" where
  "coming ctl pl t \<longleftrightarrow> ctl t = KLock \<or> pl t = Pending \<or> (\<exists>u. pl t = To_restart u)"

definition kinv :: "addr \<Rightarrow> addr \<Rightarrow> ksys \<Rightarrow> (qid \<Rightarrow> pthread_t list) \<Rightarrow> (pthread_t \<Rightarrow> kplace) \<Rightarrow> pthread_t option \<Rightarrow> bool" where
  "kinv mu c x qs pl ow \<longleftrightarrow>
     queues_ok (descr (k_st x)) (kview mu c x) qs pl \<and> places_ok (k_ctl x) (k_sig x) pl \<and>
     excl holds (k_ctl x) ow \<and> fast_free (mutexes (k_st x) mu) \<and> (m_count (mutexes (k_st x) mu) = 0 \<longleftrightarrow> ow = None) \<and>
     c_spinlock (conds (k_st x) c) = 0 \<and> (\<forall>t. \<not> p_signal_jmp (descr (k_st x) t)) \<and>
     (ow = None \<longrightarrow> qs QM \<noteq> [] \<longrightarrow> (\<exists>t. coming (k_ctl x) pl t))"

lemma kinvD:
  assumes "kinv mu c x qs pl ow"
  shows "queues_ok (descr (k_st x)) (kview mu c x) qs pl" and "places_ok (k_ctl x) (k_sig x) pl"
    and "excl holds (k_ctl x) ow" and "fast_free (mutexes (k_st x) mu)"
    and "m_count (mutexes (k_st x) mu) = 0 \<longleftrightarrow> ow = None" and "c_spinlock (conds (k_st x) c) = 0"
    and "\<not> p_signal_jmp (descr (k_st x) t)" and "ow = None \<Longrightarrow> qs QM \<noteq> [] \<Longrightarrow> \<exists>t. coming (k_ctl x) pl t"
  using assms by (simp_all add: kinv_def)

lemma places_okD:
  assumes "places_ok ctl sig pl"
  shows "restarting (ctl u) = Some t \<longleftrightarrow> pl t = To_restart u" and "sig t \<longleftrightarrow> pl t = Pending"
    and "pl t = Out \<longleftrightarrow> \<not> waits (ctl t)" and "pl t = In QM \<Longrightarrow> ctl t = KLockSleep"
    and "pl t = In i \<Longrightarrow> i \<noteq> QM \<Longrightarrow> ctl t \<noteq> KLockSleep" and "ctl NULL = KIdle" and "shape (ctl t)"
  using assms by (auto simp: places_ok_def)

lemma kinv_start:
  assumes "kstart mu c x"
  shows "kinv mu c x (\<lambda>_. []) (\<lambda>_. Out) None"
proof -
  have "is_queue h (kview mu c x i) []" for h i
    using assms by (cases i) (simp_all add: kstart_def PTHREAD_MUTEX_INITIALIZER_def PTHREAD_COND_INITIALIZER_def is_queue_def queue_init_def)
  then show ?thesis using assms
    by (simp add: kinv_def kstart_def queues_ok_def places_ok_def excl_def holds_def waits_def shape_def fast_free_def
        PTHREAD_MUTEX_INITIALIZER_def PTHREAD_COND_INITIALIZER_def)
qed

section \<open>Every step keeps the invariant\<close>

lemma places_ok_move:
  assumes "places_ok ctl sig pl" and "restarting (ctl t) = None" and "restarting k = None" and "waits k = waits (ctl t)"
    and "ctl t \<noteq> KLockSleep" and "k \<noteq> KLockSleep" and "t \<noteq> NULL" and "shape k"
  shows "places_ok (ctl(t := k)) sig pl"
proof -
  have "pl u \<noteq> To_restart t" for u using places_okD(1) [OF assms(1), of t u] assms(2) by simp
  with assms show ?thesis unfolding places_ok_def by auto
qed

lemma places_ok_wait:
  assumes "places_ok ctl sig pl" and "restarting (ctl t) = None" and "restarting k = None" and "\<not> waits (ctl t)"
    and "waits k" and "k = KLockSleep \<longleftrightarrow> i = QM" and "t \<noteq> NULL" and "shape k"
  shows "places_ok (ctl(t := k)) sig (pl(t := In i))"
proof -
  have "pl u \<noteq> To_restart t" for u using places_okD(1) [OF assms(1), of t u] assms(2) by simp
  moreover have "pl t = Out" using places_okD(3) [OF assms(1), of t] assms(4) by simp
  then have "pl t \<noteq> Pending" "pl t \<noteq> To_restart u" for u by simp_all
  ultimately show ?thesis using assms unfolding places_ok_def by auto
qed

lemma places_ok_pick:
  assumes "places_ok ctl sig pl" and "restarting (ctl t) = None" and "pl th = In i" and "waits k = waits (ctl t)"
    and "ctl t \<noteq> KLockSleep" and "t \<noteq> NULL" and "shape (KRestart th k)"
  shows "places_ok (ctl(t := KRestart th k)) sig (pl(th := To_restart t))"
proof -
  have w: "waits (KRestart th k) = waits k" by (simp add: waits_def)
  note D = places_okD [OF assms(1)]
  have "pl u \<noteq> To_restart t" for u using D(1) [of t u] assms(2) by simp
  moreover have "waits (ctl th)" "pl th \<noteq> Pending" using D(3) [of th] assms(3) by simp_all
  ultimately show ?thesis using assms w unfolding places_ok_def by auto
qed

lemma places_ok_send:
  assumes "places_ok ctl sig pl" and "ctl t = KRestart th k"
  shows "places_ok (ctl(t := k)) (sig(th := True)) (pl(th := Pending))"
proof -
  note D = places_okD [OF assms(1)]
  have w: "waits (KRestart th k) = waits k" by (simp add: waits_def)
  have s: "shape k" "restarting k = None" "k \<noteq> KLockSleep" using D(7) [of t] assms(2) by (auto simp: shape_def)
  have p: "pl th = To_restart t" using D(1) [of t th] assms(2) by simp
  have q: "pl u \<noteq> To_restart t" if "u \<noteq> th" for u using D(1) [of t u] assms(2) that by auto
  have n: "t \<noteq> NULL" "waits (ctl th)" using D(3) [of th] D(6) assms(2) p by auto
  show ?thesis using assms w s p q n unfolding places_ok_def by auto
qed

lemma places_ok_woken:
  assumes "places_ok ctl sig pl" and "ctl t = KLockSleep \<or> ctl t = KCondSleep" and "sig t"
  shows "places_ok (ctl(t := KLock)) (sig(t := False)) (pl(t := Out))"
proof -
  note D = places_okD [OF assms(1)]
  have "t \<noteq> NULL" "restarting (ctl t) = None" "pl t = Pending" using D(2) [of t] D(6) assms by auto
  moreover have "pl u \<noteq> To_restart t" for u using D(1) [of t u] calculation(2) by simp
  ultimately show ?thesis using assms unfolding places_ok_def by (auto simp: waits_def shape_def)
qed

lemma places_ok_take:
  assumes "places_ok ctl sig pl"
  shows "places_ok ctl sig (\<lambda>v. if pl v = In QC then In (QB u) else pl v)"
proof -
  note D = places_okD [OF assms]
  show ?thesis unfolding places_ok_def
  proof (intro conjI allI impI)
    fix t i assume "(if pl t = In QC then In (QB u) else pl t) = In i" "i \<noteq> QM"
    then have "pl t = In QC \<or> pl t = In i" by (simp split: if_splits)
    then show "ctl t \<noteq> KLockSleep" using D(5) [of t QC] D(5) [of t i] \<open>i \<noteq> QM\<close> by auto
  next
    fix t assume "(if pl t = In QC then In (QB u) else pl t) = In QM"
    then show "ctl t = KLockSleep" using D(4) [of t] by (simp split: if_splits)
  next
    fix t show "(if pl t = In QC then In (QB u) else pl t) = Out \<longleftrightarrow> \<not> waits (ctl t)" using D(3) [of t] by auto
  qed (simp_all add: D)
qed

lemma queue_jmp:
  "enqueue q t h = (q', h') \<Longrightarrow> p_signal_jmp (h' u) = p_signal_jmp (h u)"
  "dequeue q h = (th, q', h') \<Longrightarrow> p_signal_jmp (h' u) = p_signal_jmp (h u)"
  by (auto simp: enqueue_def dequeue_def set_nextwaiting_def Let_def split: if_splits)

lemma kview_eqI:
  assumes "m_waiting (mutexes (k_st x) mu) = qv QM" and "c_waiting (conds (k_st x) c) = qv QC"
    and "\<And>u. local_q (k_ctl x u) = qv (QB u)"
  shows "kview mu c x = qv"
proof
  fix i show "kview mu c x i = qv i" using assms by (cases i) simp_all
qed

lemma kinvI:
  assumes "queues_ok (descr (k_st x)) qv qs pl" and "kview mu c x = qv" and "places_ok (k_ctl x) (k_sig x) pl"
    and "excl holds (k_ctl x) ow" and "fast_free (mutexes (k_st x) mu)"
    and "m_count (mutexes (k_st x) mu) = 0 \<longleftrightarrow> ow = None" and "c_spinlock (conds (k_st x) c) = 0"
    and "\<And>t. \<not> p_signal_jmp (descr (k_st x) t)" and "ow = None \<Longrightarrow> qs QM \<noteq> [] \<Longrightarrow> \<exists>t. coming (k_ctl x) pl t"
  shows "kinv mu c x qs pl ow"
  using assms by (simp add: kinv_def)

lemma kinv_lock_call:
  assumes I: "kinv mu c x qs pl ow" and t: "k_ctl x t = KIdle" "t \<noteq> NULL"
  shows "kinv mu c (kmove t (k_st x) KLock x) qs pl ow"
proof -
  note D = kinvD [OF I]
  have "places_ok ((k_ctl x)(t := KLock)) (k_sig x) pl"
    by (rule places_ok_move [OF D(2)]) (use t in \<open>simp_all add: waits_def shape_def\<close>)
  moreover have "excl holds ((k_ctl x)(t := KLock)) ow" by (rule excl_same [OF D(3)]) (simp add: t holds_def)
  moreover have "kview mu c (kmove t (k_st x) KLock x) = kview mu c x" by (rule kview_eqI) (simp_all add: t)
  ultimately show ?thesis using D(1,4-7) by (intro kinvI) (auto simp: coming_def)
qed

lemma kinv_lock:
  assumes I: "kinv mu c x qs pl ow" and t: "k_ctl x t = KLock"
    and a: "pthread_mutex_lock_attempt t mu (k_st x) = Some (a, s)"
  shows "\<exists>qs' pl' ow'. kinv mu c (kmove t s (case a of Done _ \<Rightarrow> KHold | Wait \<Rightarrow> KLockSleep) x) qs' pl' ow'"
proof -
  note D = kinvD [OF I]
  have n: "t \<noteq> NULL" using places_okD(6) [OF D(2)] t by auto
  have out: "pl t = Out" using places_okD(3) [OF D(2), of t] t by (simp add: waits_def)
  from lock_attempt_effect [OF D(4) a] show ?thesis
  proof (elim disjE conjE exE)
    assume e: "m_count (mutexes (k_st x) mu) = 0" "a = Done 0" "descr s = descr (k_st x)" "conds s = conds (k_st x)"
      "mutexes s mu = (mutexes (k_st x) mu)\<lparr>m_count := 1\<rparr>"
    have "ow = None" using D(5) e(1) by simp
    have "places_ok ((k_ctl x)(t := KHold)) (k_sig x) pl"
      by (rule places_ok_move [OF D(2)]) (use t n in \<open>simp_all add: waits_def shape_def\<close>)
    moreover have "excl holds ((k_ctl x)(t := KHold)) (Some t)"
      using excl_take [of holds "k_ctl x" KHold t] D(3) \<open>ow = None\<close> by (simp add: holds_def)
    moreover have "kview mu c (kmove t s KHold x) = kview mu c x" by (rule kview_eqI) (simp_all add: t e)
    ultimately have "kinv mu c (kmove t s KHold x) qs pl (Some t)"
      using D(1,4,6,7) e by (intro kinvI) (auto simp: fast_free_def)
    then show ?thesis using e(2) by auto
  next
    fix q
    assume e: "m_count (mutexes (k_st x) mu) \<noteq> 0" "a = Wait" "conds s = conds (k_st x)"
      "enqueue (m_waiting (mutexes (k_st x) mu)) t (descr (k_st x)) = (q, descr s)"
      "mutexes s mu = (mutexes (k_st x) mu)\<lparr>m_waiting := q\<rparr>"
    have "queues_ok (descr s) ((kview mu c x)(QM := q)) (qs(QM := qs QM @ [t])) (pl(t := In QM))"
      by (rule queues_ok_enqueue [OF D(1) _ n]) (use out e(4) in simp_all)
    moreover have "places_ok ((k_ctl x)(t := KLockSleep)) (k_sig x) (pl(t := In QM))"
      by (rule places_ok_wait [OF D(2)]) (use t n in \<open>simp_all add: waits_def shape_def\<close>)
    moreover have "excl holds ((k_ctl x)(t := KLockSleep)) ow" by (rule excl_same [OF D(3)]) (simp add: t holds_def)
    moreover have "kview mu c (kmove t s KLockSleep x) = (kview mu c x)(QM := q)"
      by (rule kview_eqI) (simp_all add: t e)
    ultimately have "kinv mu c (kmove t s KLockSleep x) (qs(QM := qs QM @ [t])) (pl(t := In QM)) ow"
      using D(4-7) e queue_jmp(1) [OF e(4)] by (intro kinvI) (auto simp: fast_free_def)
    then show ?thesis using e(2) by auto
  qed
qed

lemma kinv_woken:
  assumes I: "kinv mu c x qs pl ow" and t: "k_ctl x t = KLockSleep \<or> k_ctl x t = KCondSleep" "k_sig x t"
    and d: "deliver t PTHREAD_SIG_RESTART (k_st x) = (H_return, s)"
  shows "kinv mu c ((kmove t s KLock x)\<lparr>k_sig := (k_sig x)(t := False)\<rparr>) qs (pl(t := Out)) ow"
    (is "kinv mu c ?y _ _ _")
proof -
  note D = kinvD [OF I] and S = deliver_restart_same [OF d]
  have p: "pl t = Pending" using places_okD(2) [OF D(2), of t] t by simp
  have "queues_ok (descr s) (kview mu c x) qs (pl(t := Out))"
    by (rule queues_ok_cong [OF queues_ok_place [OF D(1)]]) (simp_all add: p S)
  moreover have "places_ok ((k_ctl x)(t := KLock)) ((k_sig x)(t := False)) (pl(t := Out))"
    by (rule places_ok_woken [OF D(2) t])
  moreover have "excl holds ((k_ctl x)(t := KLock)) ow" by (rule excl_same [OF D(3)]) (use t in \<open>auto simp: holds_def\<close>)
  moreover have "kview mu c ?y = kview mu c x" by (rule kview_eqI) (use t in \<open>auto simp: S\<close>)
  ultimately show ?thesis using D(4-7) by (intro kinvI) (auto simp: coming_def S)
qed

lemma kinv_unlock:
  assumes I: "kinv mu c x qs pl ow" and t: "k_ctl x t = a" "a = KHold \<and> k = KIdle \<or> a = KEntered \<and> k = KCondSleep"
    and u: "acquire_mutex mu (k_st x) = Some s1" "mutex_unlock_body mu s1 = (r, th, s)"
  shows "\<exists>qs' pl' ow'. kinv mu c (kmove t s (kwake th k) x) qs' pl' ow'"
proof -
  note D = kinvD [OF I]
  have n: "t \<noteq> NULL" using places_okD(6) [OF D(2)] t by auto
  obtain q where q: "dequeue (m_waiting (mutexes (k_st x) mu)) (descr (k_st x)) = (th, q, descr s)"
    "mutexes s mu = (mutexes (k_st x) mu)\<lparr>m_count := 0, m_waiting := q\<rparr>" "conds s = conds (k_st x)"
    using unlock_effect [OF D(4) u] by blast
  have ex: "excl holds ((k_ctl x)(t := kwake th k)) None"
    by (rule excl_drop [OF D(3)]) (use t in \<open>auto simp: holds_def\<close>)
  have v: "kview mu c (kmove t s (kwake th k) x) = (kview mu c x)(QM := q)"
    by (rule kview_eqI) (use t q in auto)
  from queues_ok_dequeue [OF D(1), of QM th q "descr s" "To_restart t"] q(1)
  have cases: "th = NULL \<and> qs QM = [] \<and> q = kview mu c x QM \<and> descr s = descr (k_st x) \<or>
    th \<noteq> NULL \<and> (\<exists>l. queues_ok (descr s) ((kview mu c x)(QM := q)) (qs(QM := l)) (pl(th := To_restart t))) \<and> pl th = In QM"
    by auto
  show ?thesis
  proof (cases "th = NULL")
    case True
    then have e: "qs QM = []" "q = kview mu c x QM" "descr s = descr (k_st x)" using cases by auto
    have "places_ok ((k_ctl x)(t := k)) (k_sig x) pl"
      by (rule places_ok_move [OF D(2)]) (use t n in \<open>auto simp: waits_def shape_def\<close>)
    moreover have "(kview mu c x)(QM := q) = kview mu c x" using e(2) by (simp add: fun_upd_idem)
    ultimately have "kinv mu c (kmove t s (kwake th k) x) qs pl None"
      using D(1,4,6,7) q(2,3) e(1,3) v ex True by (intro kinvI) (auto simp: fast_free_def)
    then show ?thesis by blast
  next
    case False
    then obtain l where l: "queues_ok (descr s) ((kview mu c x)(QM := q)) (qs(QM := l)) (pl(th := To_restart t))" "pl th = In QM"
      using cases by auto
    have "places_ok ((k_ctl x)(t := KRestart th k)) (k_sig x) (pl(th := To_restart t))"
      by (rule places_ok_pick [OF D(2) _ l(2)]) (use t n in \<open>auto simp: waits_def shape_def\<close>)
    then have "kinv mu c (kmove t s (kwake th k) x) (qs(QM := l)) (pl(th := To_restart t)) None"
      using D(4,6,7) q(2,3) l(1) v ex False queue_jmp(2) [OF q(1)] by (intro kinvI) (auto simp: fast_free_def coming_def)
    then show ?thesis by blast
  qed
qed

lemma kinv_enter:
  assumes I: "kinv mu c x qs pl ow" and t: "k_ctl x t = KHold"
    and u: "acquire_cond c (k_st x) = Some s1" "s = release_cond c (cond_enqueue c t s1)"
  shows "kinv mu c (kmove t s KEntered x) (qs(QC := qs QC @ [t])) (pl(t := In QC)) ow"
proof -
  note D = kinvD [OF I] and E = enter_effect [OF u]
  have n: "t \<noteq> NULL" using places_okD(6) [OF D(2)] t by auto
  have out: "pl t = Out" using places_okD(3) [OF D(2), of t] t by (simp add: waits_def)
  have ow: "ow = Some t" using D(3) [unfolded excl_def, rule_format, of t] t by (simp add: holds_def)
  have "queues_ok (descr s) ((kview mu c x)(QC := c_waiting (conds s c))) (qs(QC := qs QC @ [t])) (pl(t := In QC))"
    by (rule queues_ok_enqueue [OF D(1) _ n]) (use out E(3) in simp_all)
  moreover have "places_ok ((k_ctl x)(t := KEntered)) (k_sig x) (pl(t := In QC))"
    by (rule places_ok_wait [OF D(2)]) (use t n in \<open>simp_all add: waits_def shape_def\<close>)
  moreover have "excl holds ((k_ctl x)(t := KEntered)) ow" by (rule excl_same [OF D(3)]) (simp add: t holds_def)
  moreover have "kview mu c (kmove t s KEntered x) = (kview mu c x)(QC := c_waiting (conds s c))"
    by (rule kview_eqI) (simp_all add: t E)
  ultimately show ?thesis using D(4,5,7) E ow queue_jmp(1) [OF E(3)] by (intro kinvI) auto
qed

text \<open>A thread takes the first thread of a queue, that of the condition or its own.\<close>

lemma kinv_pick:
  assumes I: "kinv mu c x qs pl ow" and d: "dequeue (kview mu c x i) (descr (k_st x)) = (th, q, descr s)" and "i \<noteq> QM"
    and t: "restarting (k_ctl x t) = None" "after k = after (k_ctl x t)" "k_ctl x t \<noteq> KLockSleep" "t \<noteq> NULL" "shape (KRestart th k)"
    and s: "mutexes s mu = mutexes (k_st x) mu" "c_spinlock (conds s c) = 0"
    and v: "kview mu c (kmove t s (KRestart th k) x) = (kview mu c x)(i := q)" and "th \<noteq> NULL"
  shows "\<exists>qs' pl'. kinv mu c (kmove t s (KRestart th k) x) qs' pl' ow"
proof -
  note D = kinvD [OF I]
  obtain l where l: "queues_ok (descr s) ((kview mu c x)(i := q)) (qs(i := l)) (pl(th := To_restart t))" "pl th = In i"
    using queues_ok_dequeue [OF D(1) d, of "To_restart t"] \<open>th \<noteq> NULL\<close> by auto
  have "places_ok ((k_ctl x)(t := KRestart th k)) (k_sig x) (pl(th := To_restart t))"
    by (rule places_ok_pick [OF D(2) t(1) l(2)]) (use t in \<open>simp_all add: waits_def\<close>)
  moreover have "excl holds ((k_ctl x)(t := KRestart th k)) ow" by (rule excl_same [OF D(3)]) (simp add: t(2) holds_def)
  ultimately have "kinv mu c (kmove t s (KRestart th k) x) (qs(i := l)) (pl(th := To_restart t)) ow"
    using D(4,5,7) l(1) v s queue_jmp(2) [OF d] by (intro kinvI) (auto simp: coming_def)
  then show ?thesis by blast
qed

text \<open>A thread leaves the loop of a broadcast, or changes nothing but its control point.\<close>

lemma kinv_quiet:
  assumes I: "kinv mu c x qs pl ow" and s: "descr s = descr (k_st x)" "mutexes s mu = mutexes (k_st x) mu" "c_spinlock (conds s c) = 0"
    and t: "restarting (k_ctl x t) = None" "restarting k = None" "after k = after (k_ctl x t)" "k_ctl x t \<noteq> KLockSleep" "k \<noteq> KLockSleep"
      "k \<noteq> KLock" "t \<noteq> NULL" "shape k"
    and Q: "queues_ok (descr s) (kview mu c (kmove t s k x)) qs' pl'" "qs' QM = qs QM"
    and pl': "pl' = pl \<or> (\<exists>u. pl' = (\<lambda>v. if pl v = In QC then In (QB u) else pl v))" and "k_ctl x t \<noteq> KLock"
  shows "kinv mu c (kmove t s k x) qs' pl' ow"
proof -
  note D = kinvD [OF I]
  have p: "places_ok ((k_ctl x)(t := k)) (k_sig x) pl"
    by (rule places_ok_move [OF D(2) t(1,2) _ t(4,5,7,8)]) (simp add: waits_def t(3))
  then have "places_ok ((k_ctl x)(t := k)) (k_sig x) pl'"
    using pl' by (elim disjE exE) (simp_all add: places_ok_take)
  moreover have "excl holds ((k_ctl x)(t := k)) ow" by (rule excl_same [OF D(3)]) (simp add: t(3) holds_def)
  moreover have "coming ((k_ctl x)(t := k)) pl' v" if "coming (k_ctl x) pl v" for v
    using that pl' \<open>k_ctl x t \<noteq> KLock\<close> by (auto simp: coming_def)
  ultimately show ?thesis using D(4,5,7,8) s Q by (intro kinvI) (simp_all, blast)
qed

lemma kinv_signal:
  assumes I: "kinv mu c x qs pl ow" and t: "k_ctl x t = k" "k = KIdle \<or> k = KHold" "t \<noteq> NULL"
    and u: "cond_take c (k_st x) = Some (th, s)"
  shows "\<exists>qs' pl'. kinv mu c (kmove t s (kwake th k) x) qs' pl' ow"
proof -
  note D = kinvD [OF I] and E = take_effect [OF u]
  have d: "dequeue (kview mu c x QC) (descr (k_st x)) = (th, c_waiting (conds s c), descr s)" using E(3) by simp
  show ?thesis
  proof (cases "th = NULL")
    case True
    then have e: "c_waiting (conds s c) = kview mu c x QC" "descr s = descr (k_st x)"
      using queues_ok_dequeue [OF D(1) d, of Out] by auto
    have "kview mu c (kmove t s k x) = kview mu c x" by (rule kview_eqI) (use t e E in auto)
    then have "kinv mu c (kmove t s k x) qs pl ow"
      using D(1) t e E by (intro kinv_quiet [OF I, of s t k]) (auto simp: shape_def)
    with True show ?thesis by auto
  next
    case False
    have "kview mu c (kmove t s (KRestart th k) x) = (kview mu c x)(QC := c_waiting (conds s c))"
      by (rule kview_eqI) (use t E in auto)
    with False show ?thesis
      using kinv_pick [OF I d, of t k] t E by (auto simp: shape_def)
  qed
qed

lemma kinv_broadcast:
  assumes I: "kinv mu c x qs pl ow" and t: "k_ctl x t = k" "k = KIdle \<or> k = KHold" "t \<noteq> NULL"
    and u: "cond_take_all c (k_st x) = Some (q, s)"
  shows "\<exists>qs' pl'. kinv mu c (kmove t s (KBroad q k) x) qs' pl' ow"
proof -
  note D = kinvD [OF I] and E = take_all_effect [OF u]
  have "local_q k = queue_init" using t(2) by auto
  then have "qs (QB t) = []" using queues_okD(1) [OF D(1), of "QB t"] t(1) by simp
  note Q = queues_ok_take [OF D(1) this]
  have "kview mu c (kmove t s (KBroad q k) x) = (kview mu c x)(QC := queue_init, QB t := kview mu c x QC)"
    by (rule kview_eqI) (use t E in auto)
  then have "kinv mu c (kmove t s (KBroad q k) x) (qs(QC := [], QB t := qs QC))
      (\<lambda>v. if pl v = In QC then In (QB t) else pl v) ow"
    using Q t E by (intro kinv_quiet [OF I, of s t "KBroad q k"]) (auto simp: shape_def)
  then show ?thesis by blast
qed

lemma kinv_broad_next:
  assumes I: "kinv mu c x qs pl ow" and t: "k_ctl x t = KBroad q k"
    and d: "dequeue q (descr (k_st x)) = (th, q', h)"
  shows "\<exists>qs' pl'. kinv mu c (kmove t ((k_st x)\<lparr>descr := h\<rparr>) (if th \<noteq> NULL then KRestart th (KBroad q' k) else k) x) qs' pl' ow"
proof -
  note D = kinvD [OF I]
  let ?s = "(k_st x)\<lparr>descr := h\<rparr>"
  have k: "k = KIdle \<or> k = KHold" "t \<noteq> NULL" using places_okD(7) [OF D(2), of t] places_okD(6) [OF D(2)] t by (auto simp: shape_def)
  have d': "dequeue (kview mu c x (QB t)) (descr (k_st x)) = (th, q', descr ?s)" using d t by simp
  show ?thesis
  proof (cases "th = NULL")
    case True
    then have e: "qs (QB t) = []" "h = descr (k_st x)" using queues_ok_dequeue [OF D(1) d', of Out] by auto
    have "queues_ok h ((kview mu c x)(QB t := queue_init)) qs pl"
      using D(1) e unfolding queues_ok_def by auto
    moreover have "kview mu c (kmove t ?s k x) = (kview mu c x)(QB t := queue_init)"
      by (rule kview_eqI) (use k in auto)
    ultimately have "kinv mu c (kmove t ?s k x) qs pl ow"
      using D(6) t k e by (intro kinv_quiet [OF I, of ?s t k]) (auto simp: shape_def)
    with True show ?thesis by auto
  next
    case False
    have "kview mu c (kmove t ?s (KRestart th (KBroad q' k)) x) = (kview mu c x)(QB t := q')"
      by (rule kview_eqI) auto
    with False show ?thesis
      using kinv_pick [OF I d', of t "KBroad q' k"] t k D(6) by (auto simp: shape_def)
  qed
qed

lemma kinv_restart:
  assumes I: "kinv mu c x qs pl ow" and t: "k_ctl x t = KRestart th k"
  shows "kinv mu c ((kmove t (restart th (k_st x)) k x)\<lparr>k_sig := (k_sig x)(th := True)\<rparr>) qs (pl(th := Pending)) ow"
    (is "kinv mu c ?y _ _ _")
proof -
  note D = kinvD [OF I]
  have p: "pl th = To_restart t" using places_okD(1) [OF D(2), of t th] t by simp
  have "queues_ok (descr (k_st x)) (kview mu c x) qs (pl(th := Pending))"
    by (rule queues_ok_place [OF D(1)]) (simp_all add: p)
  moreover have "excl holds ((k_ctl x)(t := k)) ow" by (rule excl_same [OF D(3)]) (simp add: t holds_def)
  moreover have "kview mu c ?y = kview mu c x" by (rule kview_eqI) (auto simp: t)
  ultimately show ?thesis using D(4-7) places_ok_send [OF D(2) t] by (intro kinvI) (auto simp: coming_def)
qed

lemma kinv_step:
  assumes "kstep mu c x y" and "\<exists>qs pl ow. kinv mu c x qs pl ow"
  shows "\<exists>qs pl ow. kinv mu c y qs pl ow"
proof -
  obtain qs pl ow where I: "kinv mu c x qs pl ow" using assms(2) by blast
  from assms(1) show ?thesis
  proof cases
    case (lock_call t)
    show ?thesis unfolding lock_call(1) using kinv_lock_call [OF I lock_call(2,3)] by blast
  next
    case (lock_got t r s)
    show ?thesis unfolding lock_got(1) using kinv_lock [OF I lock_got(2,3)] by simp
  next
    case (lock_wait t s)
    show ?thesis unfolding lock_wait(1) using kinv_lock [OF I lock_wait(2,3)] by simp
  next
    case (woken t s)
    show ?thesis unfolding woken(1) using kinv_woken [OF I woken(2-4)] by blast
  next
    case (unlock t s' r th s)
    show ?thesis unfolding unlock(1) using kinv_unlock [OF I unlock(2) _ unlock(3,4), of KIdle] by simp
  next
    case (wait_enter t s)
    show ?thesis unfolding wait_enter(1) using kinv_enter [OF I wait_enter(2,3) refl] by blast
  next
    case (wait_unlock t s' r th s)
    show ?thesis unfolding wait_unlock(1) using kinv_unlock [OF I wait_unlock(2) _ wait_unlock(3,4), of KCondSleep] by simp
  next
    case (signal t k th s)
    show ?thesis unfolding signal(1) using kinv_signal [OF I signal(2-5)] by blast
  next
    case (broadcast t k q s)
    show ?thesis unfolding broadcast(1) using kinv_broadcast [OF I broadcast(2-5)] by blast
  next
    case (broad_next t q k th q' h)
    show ?thesis unfolding broad_next(1) using kinv_broad_next [OF I broad_next(2,3)] by blast
  next
    case (restart_th t th k)
    show ?thesis unfolding restart_th(1) using kinv_restart [OF I restart_th(2)] by blast
  qed
qed

lemma kreach_inv: "kreach mu c x \<Longrightarrow> \<exists>qs pl ow. kinv mu c x qs pl ow"
  by (induction rule: kreach.induct) (blast intro: kinv_start kinv_step)+

section \<open>Which threads can move\<close>

definition kmoves :: "addr \<Rightarrow> addr \<Rightarrow> ksys \<Rightarrow> pthread_t \<Rightarrow> bool" where
  "kmoves mu c x t \<longleftrightarrow> k_ctl x t \<noteq> KIdle \<and> (\<exists>y. kstep mu c x y \<and> k_ctl y t \<noteq> k_ctl x t)"

lemma kmovesI: "kstep mu c x y \<Longrightarrow> k_ctl x t \<noteq> KIdle \<Longrightarrow> k_ctl y t \<noteq> k_ctl x t \<Longrightarrow> kmoves mu c x t"
  by (auto simp: kmoves_def)

lemma kmoves_woken:
  assumes I: "kinv mu c x qs pl ow" and t: "k_ctl x t = KLockSleep \<or> k_ctl x t = KCondSleep" "k_sig x t"
  shows "kmoves mu c x t"
proof -
  have "\<exists>s. deliver t PTHREAD_SIG_RESTART (k_st x) = (H_return, s)"
    using kinvD(7) [OF I, of t] by (simp add: deliver_def pthread_sighandler_def upd_th_def)
  then obtain s where "deliver t PTHREAD_SIG_RESTART (k_st x) = (H_return, s)" ..
  from woken [OF t this] show ?thesis by (rule kmovesI) (use t in auto)
qed

lemma kmoves_awake:
  assumes I: "kinv mu c x qs pl ow" and t: "k_ctl x t \<notin> {KIdle, KLockSleep, KCondSleep}"
  shows "kmoves mu c x t"
proof -
  note D = kinvD [OF I]
  have sh: "shape (k_ctl x t)" by (rule places_okD(7) [OF D(2)])
  obtain s1 where m: "acquire_mutex mu (k_st x) = Some s1" using D(4) by (simp add: fast_free_def acquire_mutex_eq)
  obtain r th s where u: "mutex_unlock_body mu s1 = (r, th, s)" by (metis prod.exhaust)
  obtain s2 where d: "acquire_cond c (k_st x) = Some s2" using D(6) by (simp add: acquire_cond_eq)
  obtain a s3 where l: "pthread_mutex_lock_attempt t mu (k_st x) = Some (a, s3)"
    using m by (cases "mutex_lock_body t mu s1") (simp add: pthread_mutex_lock_attempt_def)
  show ?thesis
  proof (cases "k_ctl x t")
    case KLock
    with l show ?thesis by (cases a) (auto intro: kmovesI [OF lock_got] kmovesI [OF lock_wait])
  next
    case KHold
    from unlock [OF this m u] show ?thesis by (rule kmovesI) (use KHold in auto)
  next
    case KEntered
    from wait_unlock [OF this m u] show ?thesis by (rule kmovesI) (use KEntered in auto)
  next
    case (KRestart v k)
    from restart_th [OF this] show ?thesis by (rule kmovesI) (use KRestart sh in \<open>auto simp: shape_def\<close>)
  next
    case (KBroad q k)
    obtain v q' h where "dequeue q (descr (k_st x)) = (v, q', h)" by (metis prod.exhaust)
    from broad_next [OF KBroad this] show ?thesis by (rule kmovesI) (use KBroad sh in \<open>auto simp: shape_def\<close>)
  qed (use t in auto)
qed

lemma kmoves_signalled:
  assumes I: "kinv mu c x qs pl ow" and t: "k_sig x t \<or> restarting (k_ctl x u) = Some t"
  shows "\<exists>v. kmoves mu c x v"
proof (cases "k_sig x t")
  case True
  then have "k_ctl x t \<noteq> KIdle"
    using places_okD(2,3) [OF kinvD(2) [OF I], of t] by (auto simp: waits_def)
  with kmoves_woken [OF I _ True] kmoves_awake [OF I, of t] show ?thesis by auto
next
  case False
  with t have "restarting (k_ctl x u) = Some t" by simp
  then show ?thesis by (intro exI [of _ u] kmoves_awake [OF I]) (auto elim: restarting.elims)
qed

lemma kmoves_mutex_queue:
  assumes I: "kinv mu c x qs pl ow" and t: "t \<in> set (qs QM)"
  shows "\<exists>v. kmoves mu c x v"
proof (cases ow)
  case (Some u)
  then have "holds (k_ctl x u)" using kinvD(3) [OF I] by (simp add: excl_def)
  then show ?thesis by (intro exI [of _ u] kmoves_awake [OF I]) (auto simp: holds_def)
next
  case None
  then obtain v where "coming (k_ctl x) pl v" using kinvD(8) [OF I] t by (metis empty_iff empty_set)
  then consider "k_ctl x v = KLock" | "k_sig x v" | u where "restarting (k_ctl x u) = Some v"
    using places_okD(1,2) [OF kinvD(2) [OF I]] by (auto simp: coming_def)
  then show ?thesis by cases (use kmoves_awake [OF I, of v] kmoves_signalled [OF I, of v] in auto)
qed

lemma kmoves_local_queue:
  assumes I: "kinv mu c x qs pl ow" and t: "t \<in> set (qs (QB u))"
  shows "kmoves mu c x u"
proof -
  have "local_q (k_ctl x u) \<noteq> queue_init" using queues_okD(1) [OF kinvD(1) [OF I], of "QB u"] t by auto
  then show ?thesis by (intro kmoves_awake [OF I]) auto
qed

section \<open>A run\<close>

lemma kreach_lock:
  assumes R: "kreach mu c x" and t: "k_ctl x t = KIdle" "t \<noteq> NULL"
  shows "\<exists>y. kreach mu c y \<and> k_ctl y = (k_ctl x)(t := if m_count (mutexes (k_st x) mu) = 0 then KHold else KLockSleep) \<and>
    m_count (mutexes (k_st y) mu) \<noteq> 0 \<and>
    (m_count (mutexes (k_st x) mu) = 0 \<longrightarrow> m_waiting (mutexes (k_st y) mu) = m_waiting (mutexes (k_st x) mu))"
proof -
  let ?x = "kmove t (k_st x) KLock x"
  obtain qs pl ow where I: "kinv mu c x qs pl ow" using kreach_inv [OF R] by blast
  have R1: "kreach mu c ?x" by (rule kreach.step [OF R lock_call [OF t]])
  note D = kinvD(4) [OF I]
  obtain s1 where m: "acquire_mutex mu (k_st x) = Some s1" using D by (simp add: fast_free_def acquire_mutex_eq)
  obtain a s where a: "pthread_mutex_lock_attempt t mu (k_st ?x) = Some (a, s)"
    using m by (cases "mutex_lock_body t mu s1") (simp add: pthread_mutex_lock_attempt_def)
  have k: "k_ctl ?x t = KLock" by simp
  have "m_count (mutexes (k_st x) mu) = 0 \<and> a = Done 0 \<and> mutexes s mu = (mutexes (k_st x) mu)\<lparr>m_count := 1\<rparr> \<or>
    m_count (mutexes (k_st x) mu) \<noteq> 0 \<and> a = Wait \<and> m_count (mutexes s mu) = m_count (mutexes (k_st x) mu)"
    using lock_attempt_effect [OF D, of t a s] a by auto
  then show ?thesis
  proof (elim disjE conjE)
    assume "m_count (mutexes (k_st x) mu) = 0" "a = Done 0" "mutexes s mu = (mutexes (k_st x) mu)\<lparr>m_count := 1\<rparr>"
    then show ?thesis using kreach.step [OF R1 lock_got [OF k, of mu 0 s]] a by (intro exI [of _ "kmove t s KHold ?x"]) simp
  next
    assume "m_count (mutexes (k_st x) mu) \<noteq> 0" "a = Wait" "m_count (mutexes s mu) = m_count (mutexes (k_st x) mu)"
    then show ?thesis using kreach.step [OF R1 lock_wait [OF k, of mu s]] a by (intro exI [of _ "kmove t s KLockSleep ?x"]) simp
  qed
qed

lemma kreach_wait:
  assumes R: "kreach mu c x" and t: "k_ctl x t = KHold" and w: "head (m_waiting (mutexes (k_st x) mu)) = NULL"
  shows "\<exists>y. kreach mu c y \<and> k_ctl y = (k_ctl x)(t := KCondSleep)"
proof -
  obtain qs pl ow where I: "kinv mu c x qs pl ow" using kreach_inv [OF R] by blast
  obtain s1 where d: "acquire_cond c (k_st x) = Some s1" using kinvD(6) [OF I] by (simp add: acquire_cond_eq)
  let ?s = "release_cond c (cond_enqueue c t s1)"
  let ?y = "kmove t ?s KEntered x"
  have R1: "kreach mu c ?y" by (rule kreach.step [OF R wait_enter [OF t d]])
  note E = enter_effect [OF d refl, of t]
  have f: "fast_free (mutexes ?s mu)" using kinvD(4) [OF I] E(1) by simp
  then obtain s2 where m: "acquire_mutex mu ?s = Some s2" by (simp add: fast_free_def acquire_mutex_eq)
  obtain r th s where u: "mutex_unlock_body mu s2 = (r, th, s)" by (metis prod.exhaust)
  have "th = NULL" using unlock_effect(2) [OF f m u] w E(1) by (auto simp: dequeue_def)
  with kreach.step [OF R1 wait_unlock [of ?y t mu s2 r th s]] m u show ?thesis
    by (intro exI [of _ "kmove t s KCondSleep ?y"]) simp
qed


lemma kreach_example:
  "\<exists>x. kreach 0 16 x \<and> k_ctl x 8 = KCondSleep"
  "\<exists>x. kreach 0 16 x \<and> k_ctl x 8 = KHold \<and> k_ctl x 24 = KLockSleep"
proof -
  define x where "x = \<lparr>k_st = zero_st, k_ctl = (\<lambda>_. KIdle), k_sig = (\<lambda>_. False)\<rparr>"
  have m: "mutexes (k_st x) 0 = PTHREAD_MUTEX_INITIALIZER" by (simp add: x_def zero_st_def)
  have "kreach 0 16 x" by (rule start) (simp add: kstart_def x_def zero_st_def zero_descr_def)
  then obtain y where y: "kreach 0 16 y" "k_ctl y = (k_ctl x)(8 := KHold)" "m_count (mutexes (k_st y) 0) \<noteq> 0"
    "head (m_waiting (mutexes (k_st y) 0)) = NULL"
    using kreach_lock [of 0 16 x 8] m by (auto simp: PTHREAD_MUTEX_INITIALIZER_def queue_init_def x_def)
  then show "\<exists>x. kreach 0 16 x \<and> k_ctl x 8 = KCondSleep" using kreach_wait [OF y(1), of 8] by auto
  obtain z where "kreach 0 16 z" "k_ctl z = (k_ctl y)(24 := KLockSleep)"
    using kreach_lock [OF y(1), of 24] y(2,3) by (auto simp: x_def)
  then show "\<exists>x. kreach 0 16 x \<and> k_ctl x 8 = KHold \<and> k_ctl x 24 = KLockSleep" using y(2) by (intro exI [of _ z]) simp
qed

section \<open>No wake-up is lost\<close>

text \<open>
  C6. No lost wake-up on a condition. In every state that any number of threads reach with a fast mutex and a condition, the
  queue of the mutex, that of the condition and the local queues of the broadcasts under way are well-formed queues through
  the one link field. A thread that waits, for the mutex or for the condition, is in exactly one of these queues, or is the one that a certain
  thread is about to restart, or has its restart signal pending, and only such threads are there. At most one thread has the mutex.
\<close>

theorem cond_no_lost_wakeup:
  assumes "kreach mu c x"
  shows "\<exists>qs. (\<forall>i. is_queue (descr (k_st x)) (kview mu c x i) (qs i)) \<and>
    (\<forall>t. waits (k_ctl x t) \<longleftrightarrow> k_sig x t \<or> (\<exists>u. restarting (k_ctl x u) = Some t) \<or> (\<exists>i. t \<in> set (qs i))) \<and>
    (\<forall>t i j. t \<in> set (qs i) \<and> t \<in> set (qs j) \<longrightarrow> i = j) \<and>
    (\<forall>t u v. restarting (k_ctl x u) = Some t \<and> restarting (k_ctl x v) = Some t \<longrightarrow> u = v) \<and>
    (\<forall>t i. t \<in> set (qs i) \<longrightarrow> \<not> k_sig x t \<and> (\<forall>u. restarting (k_ctl x u) \<noteq> Some t)) \<and>
    (\<forall>t u. restarting (k_ctl x u) = Some t \<longrightarrow> \<not> k_sig x t) \<and>
    (\<forall>t u. holds (k_ctl x t) \<and> holds (k_ctl x u) \<longrightarrow> t = u)"
proof -
  obtain qs pl ow where I: "kinv mu c x qs pl ow" using kreach_inv [OF assms] by blast
  note Q = queues_okD [OF kinvD(1) [OF I]] and P = places_okD [OF kinvD(2) [OF I]]
  have "waits (k_ctl x t) \<longleftrightarrow> pl t = Pending \<or> (\<exists>u. pl t = To_restart u) \<or> (\<exists>i. pl t = In i)" for t
    using P(3) [of t] by (cases "pl t") auto
  moreover have "holds (k_ctl x t) \<Longrightarrow> holds (k_ctl x u) \<Longrightarrow> t = u" for t u by (rule excl_unique [OF kinvD(3) [OF I]])
  ultimately show ?thesis using Q(1) by (intro exI [of _ qs]) (auto simp: P(1,2) Q(2))
qed

theorem cond_no_lost_wakeup_witness:
  "\<exists>x qs. kreach 0 16 x \<and> k_ctl x 8 = KCondSleep \<and>
    (k_sig x 8 \<or> (\<exists>u. restarting (k_ctl x u) = Some 8) \<or> (\<exists>i. 8 \<in> set (qs i) \<and> is_queue (descr (k_st x)) (kview 0 16 x i) (qs i)))"
proof -
  obtain x where x: "kreach 0 16 x" "k_ctl x 8 = KCondSleep" using kreach_example(1) by blast
  obtain qs where "\<forall>i. is_queue (descr (k_st x)) (kview 0 16 x i) (qs i)"
    "\<forall>t. waits (k_ctl x t) \<longleftrightarrow> k_sig x t \<or> (\<exists>u. restarting (k_ctl x u) = Some t) \<or> (\<exists>i. t \<in> set (qs i))"
    using cond_no_lost_wakeup [OF x(1)] by blast
  moreover have "waits (k_ctl x 8)" using x(2) by (simp add: waits_def)
  ultimately show ?thesis using x by blast
qed

text \<open>
  C7. Progress with a condition. Whenever a thread is in an operation or holds the mutex, it is asleep in the queue of the
  condition, waiting for a signal yet to be made, or some thread inside an operation or holding the mutex can move on. So a
  thread asleep on the mutex, a thread that a signal or a broadcast has taken from the condition and a thread that waits in the
  local queue of a broadcast are never stuck.
\<close>

theorem cond_progress:
  assumes "kreach mu c x" and "k_ctl x t \<noteq> KIdle"
  shows "k_ctl x t = KCondSleep \<and> \<not> k_sig x t \<and> (\<exists>l. is_queue (descr (k_st x)) (c_waiting (conds (k_st x) c)) l \<and> t \<in> set l) \<or>
    (\<exists>u y. k_ctl x u \<noteq> KIdle \<and> kstep mu c x y \<and> k_ctl y u \<noteq> k_ctl x u)"
proof -
  obtain qs pl ow where I: "kinv mu c x qs pl ow" using kreach_inv [OF assms(1)] by blast
  note Q = queues_okD [OF kinvD(1) [OF I]] and P = places_okD [OF kinvD(2) [OF I]]
  have "k_ctl x t = KCondSleep \<and> t \<in> set (qs QC) \<or> (\<exists>u. kmoves mu c x u)"
  proof (cases "k_ctl x t \<in> {KLockSleep, KCondSleep}")
    case True
    then have "pl t \<noteq> Out" using P(3) [of t] by (auto simp: waits_def)
    then consider "k_sig x t" | u where "restarting (k_ctl x u) = Some t" | i where "t \<in> set (qs i)"
      using P(1) [of _ t] P(2) [of t] Q(2) [of t] by (cases "pl t") auto
    then show ?thesis
    proof cases
      case (3 i)
      then show ?thesis using kmoves_mutex_queue [OF I, of t] kmoves_local_queue [OF I, of t] P(5) [of t QC] Q(2) [of t QC] True
        by (cases i) auto
    qed (use kmoves_signalled [OF I, of t] in blast)+
  qed (use kmoves_awake [OF I, of t] assms(2) in auto)
  moreover have "t \<in> set (qs QC) \<Longrightarrow> \<not> k_sig x t" using P(2) [of t] Q(2) [of t QC] by simp
  ultimately show ?thesis using Q(1) [of QC] by (auto simp: kmoves_def)
qed

theorem cond_progress_witness:
  "\<exists>x u y. kreach 0 16 x \<and> k_ctl x 24 = KLockSleep \<and> k_ctl x u \<noteq> KIdle \<and> kstep 0 16 x y \<and> k_ctl y u \<noteq> k_ctl x u"
proof -
  obtain x where x: "kreach 0 16 x" "k_ctl x 24 = KLockSleep" using kreach_example(2) by blast
  then show ?thesis using cond_progress [OF x(1), of 24] by auto
qed

end
