(* ===== verification/Cancel.thy ===== *)
theory Cancel
  imports Restart
begin

text \<open>
  Cancellation and cleanup handlers (\<open>cancel.c\<close>) and the cancellable system calls
  (\<open>wrapsyscall.c\<close>). A call of \<open>pthread_exit\<close> by these functions is the result \<open>PExit\<close>; what
  \<open>pthread_exit\<close> does is in \<open>Join\<close>. Cleanup buffers live in the frames of the callers, at the
  addresses of \<open>cleanup_bufs\<close>; the handlers of a thread form the list that starts at \<open>p_cleanup\<close> and
  is linked by \<open>prev\<close>.
\<close>

text \<open>The test that makes a change of state or type a cancellation point in asynchronous mode.\<close>

definition async_cancel_pending :: "pthread_t \<Rightarrow> st \<Rightarrow> bool" where
  "async_cancel_pending self s \<longleftrightarrow>
     p_canceled (descr s self) \<and> p_cancelstate (descr s self) = PTHREAD_CANCEL_ENABLE \<and>
     p_canceltype (descr s self) = PTHREAD_CANCEL_ASYNCHRONOUS"

text \<open>
  The two setters return their code and what they store through the second argument (\<open>want_old\<close> says
  that it is not NULL).
\<close>

definition pthread_setcancelstate :: "pthread_t \<Rightarrow> int \<Rightarrow> bool \<Rightarrow> st \<Rightarrow> (int \<times> int option) res" where
  "pthread_setcancelstate self state want_old s =
     (if state < PTHREAD_CANCEL_ENABLE \<or> state > PTHREAD_CANCEL_DISABLE then Some (Ret (EINVAL, None), s)
      else
        let oldstate = (if want_old then Some (p_cancelstate (descr s self)) else None);
            s = upd_th self (p_cancelstate_update (\<lambda>_. state)) s
        in if async_cancel_pending self s then Some (PExit PTHREAD_CANCELED, s)
           else Some (Ret (0, oldstate), s))"

definition pthread_setcanceltype :: "pthread_t \<Rightarrow> int \<Rightarrow> bool \<Rightarrow> st \<Rightarrow> (int \<times> int option) res" where
  "pthread_setcanceltype self ty want_old s =
     (if ty < PTHREAD_CANCEL_DEFERRED \<or> ty > PTHREAD_CANCEL_ASYNCHRONOUS then Some (Ret (EINVAL, None), s)
      else
        let oldtype = (if want_old then Some (p_canceltype (descr s self)) else None);
            s = upd_th self (p_canceltype_update (\<lambda>_. ty)) s
        in if async_cancel_pending self s then Some (PExit PTHREAD_CANCELED, s)
           else Some (Ret (0, oldtype), s))"

definition pthread_cancel :: "pthread_t \<Rightarrow> st \<Rightarrow> int \<times> st" where
  "pthread_cancel thread s =
     (let s = upd_th thread (p_canceled_update (\<lambda>_. True)) s
      in (0, kill (p_pid (descr s thread)) PTHREAD_SIG_CANCEL s))"

definition pthread_testcancel :: "pthread_t \<Rightarrow> st \<Rightarrow> unit res" where
  "pthread_testcancel self s =
     (if cancel_pending self s then Some (PExit PTHREAD_CANCELED, s) else Some (Ret (), s))"

section \<open>Cleanup handlers\<close>

definition upd_buf :: "addr \<Rightarrow> (pthread_cleanup_buffer \<Rightarrow> pthread_cleanup_buffer) \<Rightarrow> st \<Rightarrow> st" where
  "upd_buf b f s = s\<lparr>cleanup_bufs := (cleanup_bufs s)(b := f (cleanup_bufs s b))\<rparr>"

definition pthread_cleanup_push :: "pthread_t \<Rightarrow> addr \<Rightarrow> addr \<Rightarrow> addr \<Rightarrow> st \<Rightarrow> st" where
  "pthread_cleanup_push self buffer rout arg s =
     (let s = upd_buf buffer (\<lambda>b. b\<lparr>routine := rout, cb_arg := arg, prev := p_cleanup (descr s self)\<rparr>) s
      in upd_th self (p_cleanup_update (\<lambda>_. buffer)) s)"

definition pthread_cleanup_pop :: "env \<Rightarrow> pthread_t \<Rightarrow> addr \<Rightarrow> bool \<Rightarrow> st \<Rightarrow> st" where
  "pthread_cleanup_pop E self buffer execute s =
     (let s = (if execute
               then snd (call_env E (routine (cleanup_bufs s buffer)) (cb_arg (cleanup_bufs s buffer)) s)
               else s)
      in upd_th self (p_cleanup_update (\<lambda>_. prev (cleanup_bufs s buffer))) s)"

definition pthread_cleanup_push_defer :: "pthread_t \<Rightarrow> addr \<Rightarrow> addr \<Rightarrow> addr \<Rightarrow> st \<Rightarrow> st" where
  "pthread_cleanup_push_defer self buffer rout arg s =
     (let s = upd_buf buffer (\<lambda>b. b\<lparr>routine := rout, cb_arg := arg,
                cb_canceltype := p_canceltype (descr s self), prev := p_cleanup (descr s self)\<rparr>) s
      in upd_th self (\<lambda>d. d\<lparr>p_canceltype := PTHREAD_CANCEL_DEFERRED, p_cleanup := buffer\<rparr>) s)"

definition pthread_cleanup_pop_restore :: "env \<Rightarrow> pthread_t \<Rightarrow> addr \<Rightarrow> bool \<Rightarrow> st \<Rightarrow> unit res" where
  "pthread_cleanup_pop_restore E self buffer execute s =
     (let s = (if execute
               then snd (call_env E (routine (cleanup_bufs s buffer)) (cb_arg (cleanup_bufs s buffer)) s)
               else s);
          s = upd_th self (\<lambda>d. d\<lparr>p_cleanup := prev (cleanup_bufs s buffer),
                p_canceltype := cb_canceltype (cleanup_bufs s buffer)\<rparr>) s
      in if async_cancel_pending self s then Some (PExit PTHREAD_CANCELED, s) else Some (Ret (), s))"

text \<open>The loop of \<open>__pthread_perform_cleanup\<close>.\<close>

partial_function (option) perform_cleanup_loop :: "env \<Rightarrow> addr \<Rightarrow> st \<Rightarrow> st option" where
  "perform_cleanup_loop E c s =
     (if c \<noteq> NULL then
        let s = snd (call_env E (routine (cleanup_bufs s c)) (cb_arg (cleanup_bufs s c)) s)
        in perform_cleanup_loop E (prev (cleanup_bufs s c)) s
      else Some s)"

definition pthread_perform_cleanup :: "env \<Rightarrow> pthread_t \<Rightarrow> st \<Rightarrow> st option" where
  "pthread_perform_cleanup E self s = perform_cleanup_loop E (p_cleanup (descr s self)) s"

section \<open>Cancellable system calls\<close>

text \<open>
  The body of the macros \<open>CANCELABLE_SYSCALL\<close> and \<open>CANCELABLE_SYSCALL_VA\<close>; \<open>libc_call\<close> is the function
  \<open>__libc_name\<close> applied to its arguments. The first call of \<open>pthread_setcanceltype\<close> stores the old
  type whenever it returns, so the value is taken out with \<open>the\<close>.
\<close>

definition cancelable_syscall :: "pthread_t \<Rightarrow> (st \<Rightarrow> 'a res) \<Rightarrow> st \<Rightarrow> 'a res" where
  "cancelable_syscall self libc_call s =
     and_then (pthread_setcanceltype self PTHREAD_CANCEL_ASYNCHRONOUS True s) (\<lambda>(_, oldtype) s.
     and_then (libc_call s) (\<lambda>result s.
     and_then (pthread_setcanceltype self (the oldtype) False s) (\<lambda>_ s.
       Some (Ret result, s))))"

section \<open>The list of handlers\<close>

text \<open>\<open>cleanup_stack self bs s\<close>: the buffers of the thread, innermost first.\<close>

definition cleanup_stack :: "pthread_t \<Rightarrow> addr list \<Rightarrow> st \<Rightarrow> bool" where
  "cleanup_stack self bs s \<longleftrightarrow> chain (\<lambda>b. prev (cleanup_bufs s b)) NULL (p_cleanup (descr s self)) bs"

lemma upd_buf_simps [simp]:
  "cleanup_bufs (upd_buf b f s) = (cleanup_bufs s)(b := f (cleanup_bufs s b))"
  "descr (upd_buf b f s) = descr s"
  "klog (upd_buf b f s) = klog s"
  by (simp_all add: upd_buf_def)

lemma cleanup_push_stack:
  assumes "cleanup_stack self bs s" and "buffer \<noteq> NULL" and "buffer \<notin> set bs"
  shows "cleanup_stack self (buffer # bs) (pthread_cleanup_push self buffer f a s)"
    and "cleanup_stack self (buffer # bs) (pthread_cleanup_push_defer self buffer f a s)"
proof -
  have "chain (\<lambda>b. prev (((cleanup_bufs s)(buffer := x)) b)) NULL p bs =
      chain (\<lambda>b. prev (cleanup_bufs s b)) NULL p bs" for x p
    by (rule chain_cong) (use assms(3) in auto)
  with assms show "cleanup_stack self (buffer # bs) (pthread_cleanup_push self buffer f a s)"
    and "cleanup_stack self (buffer # bs) (pthread_cleanup_push_defer self buffer f a s)"
    by (simp_all add: cleanup_stack_def pthread_cleanup_push_def pthread_cleanup_push_defer_def Let_def)
qed

text \<open>
  Handlers may do what they like except change the list of handlers that are still to run: \<open>tame E\<close>
  says that user functions leave the cleanup buffers alone, and leave a trace in the log.
\<close>

definition tame :: "env \<Rightarrow> bool" where
  "tame E \<longleftrightarrow> (\<forall>f a s. cleanup_bufs (snd (call_env E f a s)) = cleanup_bufs s \<and>
     klog (snd (call_env E f a s)) = klog s @ [Call f a])"

lemma tame_prompt: "tame prompt_env"
  by (simp add: tame_def prompt_env_def)

lemma perform_cleanup_loop_runs:
  assumes "tame E" and "chain (\<lambda>b. prev (cleanup_bufs s b)) NULL c bs"
  shows "\<exists>s'. perform_cleanup_loop E c s = Some s' \<and> cleanup_bufs s' = cleanup_bufs s \<and>
    klog s' = klog s @ map (\<lambda>b. Call (routine (cleanup_bufs s b)) (cb_arg (cleanup_bufs s b))) bs"
  using assms(2)
proof (induction bs arbitrary: c s)
  case Nil
  then show ?case by (subst perform_cleanup_loop.simps) simp
next
  case (Cons b bs)
  define s1 where "s1 = snd (call_env E (routine (cleanup_bufs s b)) (cb_arg (cleanup_bufs s b)) s)"
  have s1: "cleanup_bufs s1 = cleanup_bufs s"
    "klog s1 = klog s @ [Call (routine (cleanup_bufs s b)) (cb_arg (cleanup_bufs s b))]"
    using assms(1) by (simp_all add: tame_def s1_def)
  have "c = b" "b \<noteq> NULL" using Cons.prems by auto
  then have "perform_cleanup_loop E c s = perform_cleanup_loop E (prev (cleanup_bufs s b)) s1"
    by (subst perform_cleanup_loop.simps) (simp add: s1_def [symmetric] s1)
  moreover have "chain (\<lambda>b. prev (cleanup_bufs s1 b)) NULL (prev (cleanup_bufs s b)) bs"
    using Cons.prems by (simp add: s1)
  from Cons.IH [OF this] have "\<exists>s'. perform_cleanup_loop E (prev (cleanup_bufs s b)) s1 = Some s' \<and>
      cleanup_bufs s' = cleanup_bufs s \<and> klog s' = klog s1 @
        map (\<lambda>b. Call (routine (cleanup_bufs s b)) (cb_arg (cleanup_bufs s b))) bs" by (simp add: s1)
  ultimately show ?case using s1(2) by simp
qed

section \<open>Properties\<close>

text \<open>Nested pushes of handlers: buffer, routine and argument of each, outermost first.\<close>

fun pushes :: "pthread_t \<Rightarrow> (addr \<times> addr \<times> addr) list \<Rightarrow> st \<Rightarrow> st" where
  "pushes self [] s = s"
| "pushes self ((b, f, a) # ps) s = pushes self ps (pthread_cleanup_push self b f a s)"

lemma pushes_stack:
  assumes "cleanup_stack self bs s" and "distinct (map fst ps)" and "NULL \<notin> fst ` set ps"
    and "fst ` set ps \<inter> set bs = {}"
  shows "cleanup_stack self (rev (map fst ps) @ bs) (pushes self ps s) \<and>
    klog (pushes self ps s) = klog s \<and>
    (\<forall>b f a. (b, f, a) \<in> set ps \<longrightarrow> routine (cleanup_bufs (pushes self ps s) b) = f \<and>
      cb_arg (cleanup_bufs (pushes self ps s) b) = a) \<and>
    (\<forall>b. b \<notin> fst ` set ps \<longrightarrow> cleanup_bufs (pushes self ps s) b = cleanup_bufs s b)"
  using assms
proof (induction ps arbitrary: s bs)
  case Nil
  then show ?case by simp
next
  case (Cons p ps)
  obtain b f a where p: "p = (b, f, a)" by (cases p)
  define s1 where "s1 = pthread_cleanup_push self b f a s"
  have st: "cleanup_stack self (b # bs) s1"
    unfolding s1_def by (rule cleanup_push_stack) (use Cons.prems p in auto)
  have s1: "klog s1 = klog s" "routine (cleanup_bufs s1 b) = f" "cb_arg (cleanup_bufs s1 b) = a"
    "\<And>c. c \<noteq> b \<Longrightarrow> cleanup_bufs s1 c = cleanup_bufs s c"
    by (simp_all add: s1_def pthread_cleanup_push_def Let_def)
  have b: "b \<notin> fst ` set ps" using Cons.prems(2) p by auto
  note IH = Cons.IH [OF st]
  have "cleanup_stack self (rev (map fst ps) @ b # bs) (pushes self ps s1)"
    and k: "klog (pushes self ps s1) = klog s1"
    and in_ps: "\<forall>b f a. (b, f, a) \<in> set ps \<longrightarrow> routine (cleanup_bufs (pushes self ps s1) b) = f \<and>
      cb_arg (cleanup_bufs (pushes self ps s1) b) = a"
    and not_ps: "\<forall>b. b \<notin> fst ` set ps \<longrightarrow> cleanup_bufs (pushes self ps s1) b = cleanup_bufs s1 b"
    using IH Cons.prems(2-4) p b by auto
  then show ?case using p s1 b by (auto simp: s1_def [symmetric])
qed

text \<open>
  C34. Cleanup handlers run in the reverse order of their registration: after any sequence of pushes
  by a thread with no handlers, \<open>__pthread_perform_cleanup\<close> terminates and calls each registered
  routine once with its argument, the last pushed first.
\<close>

theorem cleanup_handlers_run_lifo:
  assumes "tame E" and "p_cleanup (descr s self) = NULL" and "distinct (map fst ps)"
    and "NULL \<notin> fst ` set ps"
  shows "\<exists>s'. pthread_perform_cleanup E self (pushes self ps s) = Some s' \<and>
    klog s' = klog s @ map (\<lambda>(b, f, a). Call f a) (rev ps)"
proof -
  have "cleanup_stack self [] s" using assms(2) by (simp add: cleanup_stack_def)
  from pushes_stack [OF this assms(3,4)]
  have st: "cleanup_stack self (rev (map fst ps)) (pushes self ps s)"
    and k: "klog (pushes self ps s) = klog s"
    and f: "\<And>b f a. (b, f, a) \<in> set ps \<Longrightarrow> routine (cleanup_bufs (pushes self ps s) b) = f \<and>
      cb_arg (cleanup_bufs (pushes self ps s) b) = a" by auto
  have "map (\<lambda>b. Call (routine (cleanup_bufs (pushes self ps s) b)) (cb_arg (cleanup_bufs (pushes self ps s) b)))
      (rev (map fst ps)) = map (\<lambda>(b, f, a). Call f a) (rev ps)"
    using f by (auto simp: rev_map)
  with perform_cleanup_loop_runs [OF assms(1) st [unfolded cleanup_stack_def]] k show ?thesis
    by (auto simp: pthread_perform_cleanup_def)
qed

theorem cleanup_handlers_run_lifo_witness:
  "\<exists>s'. pthread_perform_cleanup prompt_env 8 (pushes 8 [(100, 1, 11), (200, 2, 22)] zero_st) = Some s' \<and>
    klog s' = [Call 2 22, Call 1 11]"
  using cleanup_handlers_run_lifo [OF tame_prompt, of zero_st 8 "[(100, 1, 11), (200, 2, 22)]"]
  by (simp add: zero_st_def zero_descr_def)

text \<open>
  A cancellable system call restores the cancellation type: if the wrapper returns, it returns
  the result of the C library function, the type is what it was before the call, and no asynchronous
  cancellation is left pending; a cancellation that is pending when the wrapper is entered, with
  cancellation enabled, takes effect before the system call is made. (The C library function itself
  is assumed to leave the type alone.)
\<close>

theorem cancelable_syscall_restores:
  assumes "p_canceltype (descr s self) \<in> {PTHREAD_CANCEL_DEFERRED, PTHREAD_CANCEL_ASYNCHRONOUS}"
    and "\<And>s r s'. libc_call s = Some (Ret r, s') \<Longrightarrow> p_canceltype (descr s' self) = p_canceltype (descr s self)"
  shows "(cancel_pending self s \<longrightarrow> (\<exists>s'. cancelable_syscall self libc_call s = Some (PExit PTHREAD_CANCELED, s'))) \<and>
    (\<forall>r s'. cancelable_syscall self libc_call s = Some (Ret r, s') \<longrightarrow>
      p_canceltype (descr s' self) = p_canceltype (descr s self) \<and> \<not> async_cancel_pending self s' \<and>
      (\<exists>s1 s2. libc_call s1 = Some (Ret r, s2)))"
proof (intro conjI allI impI)
  assume "cancel_pending self s"
  then show "\<exists>s'. cancelable_syscall self libc_call s = Some (PExit PTHREAD_CANCELED, s')"
    by (simp add: cancelable_syscall_def pthread_setcanceltype_def async_cancel_pending_def
        cancel_pending_def)
next
  fix r s'
  let ?old = "p_canceltype (descr s self)"
  let ?s0 = "upd_th self (p_canceltype_update (\<lambda>_. PTHREAD_CANCEL_ASYNCHRONOUS)) s"
  assume run: "cancelable_syscall self libc_call s = Some (Ret r, s')"
  have first: "pthread_setcanceltype self PTHREAD_CANCEL_ASYNCHRONOUS True s =
      (if async_cancel_pending self ?s0 then Some (PExit PTHREAD_CANCELED, ?s0)
       else Some (Ret (0, Some ?old), ?s0))"
    by (simp add: pthread_setcanceltype_def)
  then have "\<not> async_cancel_pending self ?s0" using run by (auto simp: cancelable_syscall_def split: if_splits)
  with run first have "and_then (libc_call ?s0) (\<lambda>result s.
      and_then (pthread_setcanceltype self ?old False s) (\<lambda>_ s. Some (Ret result, s))) = Some (Ret r, s')"
    by (simp add: cancelable_syscall_def)
  then obtain x s2 where call: "libc_call ?s0 = Some (Ret x, s2)"
    and "and_then (pthread_setcanceltype self ?old False s2) (\<lambda>_ s. Some (Ret x, s)) = Some (Ret r, s')"
    by (blast dest: and_then_RetD)
  then obtain v where "pthread_setcanceltype self ?old False s2 = Some (Ret v, s')" and "x = r"
    by (auto dest!: and_then_RetD)
  then have "p_canceltype (descr s' self) = ?old \<and> \<not> async_cancel_pending self s'"
    using assms(1) by (auto simp: pthread_setcanceltype_def Let_def split: if_splits)
  with call \<open>x = r\<close> show "p_canceltype (descr s' self) = ?old" "\<not> async_cancel_pending self s'"
    "\<exists>s1 s2. libc_call s1 = Some (Ret r, s2)" by auto
qed

theorem cancelable_syscall_restores_witness:
  "\<exists>s'. cancelable_syscall 8 (\<lambda>s. Some (Ret (7 :: int), s)) zero_st = Some (Ret 7, s') \<and>
    p_canceltype (descr s' 8) = p_canceltype (descr zero_st 8)"
proof -
  obtain s' where r: "cancelable_syscall 8 (\<lambda>s. Some (Ret (7 :: int), s)) zero_st = Some (Ret 7, s')"
    by (simp add: cancelable_syscall_def pthread_setcanceltype_def async_cancel_pending_def zero_st_def
        zero_descr_def)
  moreover have "p_canceltype (descr zero_st 8) \<in> {PTHREAD_CANCEL_DEFERRED, PTHREAD_CANCEL_ASYNCHRONOUS}"
    by (simp add: zero_st_def zero_descr_def)
  from cancelable_syscall_restores [OF this, of "\<lambda>s. Some (Ret (7 :: int), s)"] r
  have "p_canceltype (descr s' 8) = p_canceltype (descr zero_st 8)" by auto
  ultimately show ?thesis by blast
qed

end
