(* ===== verification/Condvar_Cancel.thy ===== *)
theory Condvar_Cancel
  imports Condvar Cancel
begin

text \<open>
  A cancelled wait for a condition (\<open>pthread_cond_wait\<close> of \<open>condvar.c\<close> with \<open>pthread_cancel\<close> of \<open>cancel.c\<close>), in a run with
  other threads: what they do is given by the environment of the waiting thread, in the operations of the library.
\<close>

text \<open>
  While thread \<open>self\<close> sleeps on the condition, thread \<open>y\<close> takes the mutex and waits for the condition too, thread \<open>z\<close> takes
  the mutex, and \<open>self\<close> is cancelled.
\<close>

definition during_wait :: "pthread_t \<Rightarrow> pthread_t \<Rightarrow> pthread_t \<Rightarrow> addr \<Rightarrow> addr \<Rightarrow> st \<Rightarrow> st option" where
  "during_wait self y z c mu s = do {
     (_, s) \<leftarrow> pthread_mutex_lock_attempt y mu s;
     s \<leftarrow> cond_wait_enter y c mu s;
     (_, s) \<leftarrow> pthread_mutex_lock_attempt z mu s;
     Some (snd (pthread_cancel self s)) }"

text \<open>While \<open>self\<close> sleeps on the mutex, thread \<open>v\<close> tries to lock it too, and \<open>z\<close> unlocks it.\<close>

definition during_lock :: "pthread_t \<Rightarrow> addr \<Rightarrow> st \<Rightarrow> st option" where
  "during_lock v mu s = do {
     (_, s) \<leftarrow> pthread_mutex_lock_attempt v mu s;
     (_, s) \<leftarrow> pthread_mutex_unlock mu s;
     Some s }"

definition cancel_env :: "pthread_t \<Rightarrow> pthread_t \<Rightarrow> pthread_t \<Rightarrow> pthread_t \<Rightarrow> addr \<Rightarrow> addr \<Rightarrow> env" where
  "cancel_env self y z v c mu = prompt_env\<lparr>sigsuspend_env := \<lambda>_ _ s.
     if p_canceled (descr s self) then map_option (\<lambda>s. (PTHREAD_SIG_RESTART, s)) (during_lock v mu s)
     else map_option (\<lambda>s. (PTHREAD_SIG_CANCEL, s)) (during_wait self y z c mu s)\<rparr>"

section \<open>The run\<close>

lemmas cancel_run_defs = cond_wait_enter_def acquire_cond_eq cond_enqueue_def enqueue_def pthread_mutex_unlock_def
  acquire_mutex_eq mutex_unlock_body_def dequeue_def pthread_mutex_lock_attempt_def mutex_lock_body_def Let_def

lemma cancel_run_enter:
  assumes "conds s c = PTHREAD_COND_INITIALIZER" and "mutexes s mu = PTHREAD_MUTEX_INITIALIZER\<lparr>m_count := 1\<rparr>"
  shows "\<exists>s1. cond_wait_enter self c mu s = Some s1 \<and> descr s1 = descr s \<and> klog s1 = klog s \<and>
    conds s1 c = \<lparr>c_spinlock = 0, c_waiting = \<lparr>head = self, tail = self\<rparr>\<rparr> \<and> mutexes s1 mu = PTHREAD_MUTEX_INITIALIZER \<and>
    exit_requested s1 = exit_requested s \<and> manager_thread s1 = manager_thread s"
  using assms by (simp add: cancel_run_defs PTHREAD_COND_INITIALIZER_def PTHREAD_MUTEX_INITIALIZER_def)

lemma cancel_run_wait:
  assumes "conds s c = \<lparr>c_spinlock = 0, c_waiting = \<lparr>head = self, tail = self\<rparr>\<rparr>" and "mutexes s mu = PTHREAD_MUTEX_INITIALIZER"
    and "self \<noteq> NULL"
  shows "\<exists>s1. during_wait self y z c mu s = Some s1 \<and>
    descr s1 = (set_nextwaiting self y (descr s))(self := (set_nextwaiting self y (descr s) self)\<lparr>p_canceled := True\<rparr>) \<and>
    klog s1 = klog s @ [Kill (p_pid (descr s self)) PTHREAD_SIG_CANCEL] \<and>
    conds s1 c = \<lparr>c_spinlock = 0, c_waiting = \<lparr>head = self, tail = y\<rparr>\<rparr> \<and> mutexes s1 mu = PTHREAD_MUTEX_INITIALIZER\<lparr>m_count := 1\<rparr> \<and>
    exit_requested s1 = exit_requested s \<and> manager_thread s1 = manager_thread s"
  using assms by (simp add: during_wait_def cancel_run_defs PTHREAD_MUTEX_INITIALIZER_def pthread_cancel_def set_nextwaiting_def)

lemma cancel_run_lock:
  assumes "mutexes s mu = PTHREAD_MUTEX_INITIALIZER\<lparr>m_count := 1\<rparr>"
  shows "\<exists>s1. pthread_mutex_lock_attempt self mu s = Some (Wait, s1) \<and> descr s1 = descr s \<and> klog s1 = klog s \<and>
    conds s1 = conds s \<and> mutexes s1 mu = PTHREAD_MUTEX_INITIALIZER\<lparr>m_count := 1, m_waiting := \<lparr>head = self, tail = self\<rparr>\<rparr> \<and>
    exit_requested s1 = exit_requested s \<and> manager_thread s1 = manager_thread s"
  using assms by (simp add: cancel_run_defs PTHREAD_MUTEX_INITIALIZER_def)

lemma cancel_run_unlock:
  assumes "mutexes s mu = PTHREAD_MUTEX_INITIALIZER\<lparr>m_count := 1, m_waiting := \<lparr>head = self, tail = self\<rparr>\<rparr>"
    and "self \<noteq> NULL" and "v \<noteq> NULL" and "v \<noteq> self"
  shows "\<exists>s1. during_lock v mu s = Some s1 \<and> descr s1 = set_nextwaiting self NULL (descr s) \<and>
    klog s1 = klog s @ [Kill (p_pid (descr s self)) PTHREAD_SIG_RESTART] \<and> conds s1 = conds s \<and>
    mutexes s1 mu = PTHREAD_MUTEX_INITIALIZER\<lparr>m_waiting := \<lparr>head = v, tail = v\<rparr>\<rparr> \<and>
    exit_requested s1 = exit_requested s \<and> manager_thread s1 = manager_thread s"
  using assms by (simp add: during_lock_def cancel_run_defs PTHREAD_MUTEX_INITIALIZER_def set_nextwaiting_def)

text \<open>The two suspensions of \<open>self\<close>.\<close>

lemma cancel_run_suspend:
  assumes "\<not> p_canceled (descr s self)" and "p_cancelstate (descr s self) = PTHREAD_CANCEL_ENABLE"
    and "p_canceltype (descr s self) = PTHREAD_CANCEL_DEFERRED" and "\<not> exit_requested s"
    and "conds s c = \<lparr>c_spinlock = 0, c_waiting = \<lparr>head = self, tail = self\<rparr>\<rparr>" and "mutexes s mu = PTHREAD_MUTEX_INITIALIZER"
    and "self \<noteq> NULL" and "self \<noteq> y"
  shows "\<exists>s1. suspend_with_cancellation (cancel_env self y z v c mu) self s = Some (Ret (), s1) \<and>
    descr s1 = (descr s)(self := (descr s self)\<lparr>p_nextwaiting := y, p_canceled := True, p_cancel_jmp := False\<rparr>) \<and>
    klog s1 = klog s @ [Kill (p_pid (descr s self)) PTHREAD_SIG_CANCEL] \<and>
    conds s1 c = \<lparr>c_spinlock = 0, c_waiting = \<lparr>head = self, tail = y\<rparr>\<rparr> \<and> mutexes s1 mu = PTHREAD_MUTEX_INITIALIZER\<lparr>m_count := 1\<rparr> \<and>
    exit_requested s1 = exit_requested s \<and> manager_thread s1 = manager_thread s"
proof -
  let ?s = "upd_th self (p_cancel_jmp_update (\<lambda>_. True)) s"
  obtain s1 where s1: "during_wait self y z c mu ?s = Some s1"
    "descr s1 = (set_nextwaiting self y (descr ?s))(self := (set_nextwaiting self y (descr ?s) self)\<lparr>p_canceled := True\<rparr>)"
    "klog s1 = klog s @ [Kill (p_pid (descr s self)) PTHREAD_SIG_CANCEL]"
    "conds s1 c = \<lparr>c_spinlock = 0, c_waiting = \<lparr>head = self, tail = y\<rparr>\<rparr>" "mutexes s1 mu = PTHREAD_MUTEX_INITIALIZER\<lparr>m_count := 1\<rparr>"
    "exit_requested s1 = exit_requested s" "manager_thread s1 = manager_thread s"
    using cancel_run_wait [of ?s c self mu y z] assms(5-7) by auto
  have w: "sigsuspend_env (cancel_env self y z v c mu) self m ?s = Some (PTHREAD_SIG_CANCEL, s1)" for m
    using s1(1) assms(1) by (simp add: cancel_env_def)
  have "deliver self PTHREAD_SIG_CANCEL s1 = (H_jump, upd_th self (p_cancel_jmp_update (\<lambda>_. False)) s1)"
    using s1(2,6) assms(2-4) by (simp add: deliver_def pthread_handle_sigcancel_def set_nextwaiting_def)
  from suspend_loop_jump [OF w this] assms(1) s1 show ?thesis
    by (simp add: suspend_with_cancellation_def Let_def set_nextwaiting_def)
qed

lemma cancel_run_relock:
  assumes "p_canceled (descr s self)" and "self \<noteq> manager_thread s" and "\<not> p_signal_jmp (descr s self)"
    and "mutexes s mu = PTHREAD_MUTEX_INITIALIZER\<lparr>m_count := 1\<rparr>" and "self \<noteq> NULL" and "v \<noteq> NULL" and "v \<noteq> self"
  shows "\<exists>s1. pthread_mutex_lock (cancel_env self y z v c mu) self mu s = Some (Ret 0, s1) \<and>
    descr s1 = (descr s)(self := (descr s self)\<lparr>p_nextwaiting := NULL, p_signal := PTHREAD_SIG_RESTART\<rparr>) \<and>
    klog s1 = klog s @ [Kill (p_pid (descr s self)) PTHREAD_SIG_RESTART] \<and> conds s1 = conds s \<and>
    mutexes s1 mu = PTHREAD_MUTEX_INITIALIZER\<lparr>m_count := 1, m_waiting := \<lparr>head = v, tail = v\<rparr>\<rparr>"
proof -
  obtain s1 where s1: "pthread_mutex_lock_attempt self mu s = Some (Wait, s1)" "descr s1 = descr s" "klog s1 = klog s"
    "conds s1 = conds s" "mutexes s1 mu = PTHREAD_MUTEX_INITIALIZER\<lparr>m_count := 1, m_waiting := \<lparr>head = self, tail = self\<rparr>\<rparr>"
    "manager_thread s1 = manager_thread s"
    using cancel_run_lock [OF assms(4), of self] by blast
  obtain s2 where s2: "during_lock v mu s1 = Some s2" "descr s2 = set_nextwaiting self NULL (descr s1)"
    "klog s2 = klog s1 @ [Kill (p_pid (descr s1 self)) PTHREAD_SIG_RESTART]" "conds s2 = conds s1"
    "mutexes s2 mu = PTHREAD_MUTEX_INITIALIZER\<lparr>m_waiting := \<lparr>head = v, tail = v\<rparr>\<rparr>" "manager_thread s2 = manager_thread s1"
    using cancel_run_unlock [OF s1(5) assms(5-7)] by blast
  define s3 where "s3 = upd_th self (p_signal_update (\<lambda>_. PTHREAD_SIG_RESTART)) s2"
  have w: "sigsuspend_env (cancel_env self y z v c mu) self m s1 = Some (PTHREAD_SIG_RESTART, s2)" for m
    using s2(1) s1(2) assms(1) by (simp add: cancel_env_def)
  have "deliver self PTHREAD_SIG_RESTART s2 = (H_return, s3)"
    using s1 s2 assms(2,3) by (simp add: deliver_def pthread_sighandler_def set_nextwaiting_def s3_def Let_def)
  then have "suspend (cancel_env self y z v c mu) self s1 = Some (Ret (), s3)"
    unfolding suspend_def by (rule suspend_loop_return [OF w]) (simp add: s3_def)
  moreover have "\<exists>s4. pthread_mutex_lock_attempt self mu s3 = Some (Done 0, s4) \<and> descr s4 = descr s3 \<and> klog s4 = klog s3 \<and>
      conds s4 = conds s3 \<and> mutexes s4 mu = PTHREAD_MUTEX_INITIALIZER\<lparr>m_count := 1, m_waiting := \<lparr>head = v, tail = v\<rparr>\<rparr>"
    using s2(5) by (simp add: cancel_run_defs s3_def PTHREAD_MUTEX_INITIALIZER_def)
  then obtain s4 where s4: "pthread_mutex_lock_attempt self mu s3 = Some (Done 0, s4)" "descr s4 = descr s3" "klog s4 = klog s3"
      "conds s4 = conds s3" "mutexes s4 mu = PTHREAD_MUTEX_INITIALIZER\<lparr>m_count := 1, m_waiting := \<lparr>head = v, tail = v\<rparr>\<rparr>" by blast
  ultimately have "pthread_mutex_lock (cancel_env self y z v c mu) self mu s = Some (Ret 0, s4)"
    using s1(1) mutex_lock_immediate [OF s4(1)] by (subst pthread_mutex_lock.simps) simp
  then show ?thesis using s1 s2 s4 by (simp add: s3_def set_nextwaiting_def)
qed

section \<open>Properties\<close>

text \<open>
  C39. A defect of \<open>pthread_cond_wait\<close>. Thread \<open>self\<close>, with the mutex, waits for a condition; another thread \<open>y\<close> waits for it
  behind \<open>self\<close>. When \<open>self\<close> is cancelled it is still in the queue of the condition and calls \<open>pthread_mutex_lock\<close>. If
  the mutex is held, it enters the queue of the mutex through the same link field; and if then a thread \<open>v\<close> comes
  to wait for the mutex, the link to \<open>y\<close> is overwritten. In the end \<open>self\<close> leaves \<open>pthread_cond_wait\<close> by its
  cancellation, the queue of the condition is empty, that of the mutex holds only \<open>v\<close>, and \<open>y\<close>, which nobody has
  restarted, is in neither: no signal, no broadcast and no unlock finds it any more.
\<close>

theorem cancelled_wait_loses_waiters:
  assumes "conds s c = PTHREAD_COND_INITIALIZER" and "mutexes s mu = PTHREAD_MUTEX_INITIALIZER\<lparr>m_count := 1\<rparr>"
    and "distinct [NULL, self, y, z, v]" and "self \<noteq> manager_thread s" and "\<not> exit_requested s"
    and "\<not> p_signal_jmp (descr s self)" and "\<not> p_canceled (descr s self)"
    and "p_cancelstate (descr s self) = PTHREAD_CANCEL_ENABLE" and "p_canceltype (descr s self) = PTHREAD_CANCEL_DEFERRED"
    and "p_nextwaiting (descr s v) = NULL"
  shows "\<exists>s' s''. pthread_cond_wait (cancel_env self y z v c mu) self c mu s = Some (PExit PTHREAD_CANCELED, s') \<and>
    klog s' = klog s @ [Kill (p_pid (descr s self)) PTHREAD_SIG_CANCEL, Kill (p_pid (descr s self)) PTHREAD_SIG_RESTART] \<and>
    cond_wf (descr s') (conds s' c) [] \<and> mutex_wf (descr s') (mutexes s' mu) [v] \<and>
    pthread_cond_broadcast c s' = Some (0, s'') \<and> klog s'' = klog s'"
proof -
  have ne: "self \<noteq> NULL" "v \<noteq> NULL" "v \<noteq> self" "self \<noteq> y" using assms(3) by auto
  obtain s1 where s1: "cond_wait_enter self c mu s = Some s1" "descr s1 = descr s" "klog s1 = klog s"
    "conds s1 c = \<lparr>c_spinlock = 0, c_waiting = \<lparr>head = self, tail = self\<rparr>\<rparr>" "mutexes s1 mu = PTHREAD_MUTEX_INITIALIZER"
    "exit_requested s1 = exit_requested s" "manager_thread s1 = manager_thread s"
    using cancel_run_enter [OF assms(1,2)] by blast
  obtain s2 where s2: "suspend_with_cancellation (cancel_env self y z v c mu) self s1 = Some (Ret (), s2)"
    "descr s2 = (descr s)(self := (descr s self)\<lparr>p_nextwaiting := y, p_canceled := True, p_cancel_jmp := False\<rparr>)"
    "klog s2 = klog s @ [Kill (p_pid (descr s self)) PTHREAD_SIG_CANCEL]"
    "conds s2 c = \<lparr>c_spinlock = 0, c_waiting = \<lparr>head = self, tail = y\<rparr>\<rparr>" "mutexes s2 mu = PTHREAD_MUTEX_INITIALIZER\<lparr>m_count := 1\<rparr>"
    "manager_thread s2 = manager_thread s"
    using cancel_run_suspend [of s1 self c mu y z v] s1 assms(5,7-9) ne by auto
  obtain s3 where s3: "pthread_mutex_lock (cancel_env self y z v c mu) self mu s2 = Some (Ret 0, s3)"
    "descr s3 = (descr s2)(self := (descr s2 self)\<lparr>p_nextwaiting := NULL, p_signal := PTHREAD_SIG_RESTART\<rparr>)"
    "klog s3 = klog s2 @ [Kill (p_pid (descr s2 self)) PTHREAD_SIG_RESTART]" "conds s3 = conds s2"
    "mutexes s3 mu = PTHREAD_MUTEX_INITIALIZER\<lparr>m_count := 1, m_waiting := \<lparr>head = v, tail = v\<rparr>\<rparr>"
    using cancel_run_relock [of s2 self mu v y z c] s2 assms(4,6) ne by auto
  have p: "cancel_pending self s3" using s3(2) s2(2) assms(8) by (simp add: cancel_pending_def)
  define s4 where "s4 = release_cond c (upd_cond c (c_waiting_update (\<lambda>_. \<lparr>head = NULL, tail = NULL\<rparr>))
    ((upd_cond c (c_spinlock_update (\<lambda>_. 1)) s3)\<lparr>descr := set_nextwaiting self NULL (descr s3)\<rparr>))"
  have "pthread_cond_wait (cancel_env self y z v c mu) self c mu s = Some (PExit PTHREAD_CANCELED, s4)"
    using s1(1) s2(1,4) s3(1,2,4) p ne
    by (simp add: pthread_cond_wait_def acquire_cond_eq cond_remove_def remove_from_queue_def s4_def)
  moreover have w: "cond_wf (descr s4) (conds s4 c) []" using s2(4) s3(4) by (simp add: s4_def cond_wf_def is_queue_def)
  moreover have "mutex_wf (descr s4) (mutexes s4 mu) [v]"
    using s2(2) s3(2,5) ne assms(10)
    by (simp add: s4_def mutex_wf_defs is_queue_def PTHREAD_MUTEX_INITIALIZER_def set_nextwaiting_def)
  moreover have "klog s4 = klog s @ [Kill (p_pid (descr s self)) PTHREAD_SIG_CANCEL, Kill (p_pid (descr s self)) PTHREAD_SIG_RESTART]"
    using s2(2,3) s3(3) by (simp add: s4_def)
  ultimately show ?thesis using broadcast_wakes_all [OF w] by auto
qed

theorem cancelled_wait_loses_waiters_witness:
  "\<exists>s'. pthread_cond_wait (cancel_env 8 16 24 32 0 4) 8 0 4 (zero_st\<lparr>mutexes := \<lambda>_. PTHREAD_MUTEX_INITIALIZER\<lparr>m_count := 1\<rparr>\<rparr>) =
      Some (PExit PTHREAD_CANCELED, s') \<and> mutex_wf (descr s') (mutexes s' 4) [32]"
  using cancelled_wait_loses_waiters [of "zero_st\<lparr>mutexes := \<lambda>_. PTHREAD_MUTEX_INITIALIZER\<lparr>m_count := 1\<rparr>\<rparr>" 0 4 8 16 24 32]
  by (auto simp: zero_st_def zero_descr_def)

end
