(* ===== verification/Semaphore.thy ===== *)
theory Semaphore
  imports Queue Restart
begin

unbundle bit_operations_syntax

text \<open>
  Semaphores (\<open>semaphore.c\<close>, \<open>semaphore.h\<close>, \<open>semaphorebits.h\<close>). The state of a semaphore is one
  word: the count N as 2N+1 when no thread waits, or the address of the last thread that began to
  wait; the threads are linked through \<open>p_nextwaiting\<close>, and the last link holds 1.

  The operations are retry loops around a compare-and-swap, which is a parameter \<open>cas\<close>, as in the
  source: with a hardware instruction it is the macro around \<open>__compare_and_swap\<close>
  (\<open>compare_and_swap_hw\<close>), otherwise it is the function that uses a spin lock
  (\<open>compare_and_swap\<close>). The locale \<open>sem_cas\<close> states what the operations rely on. The faked one and
  every hardware port interpret it.
\<close>

definition SEM_VALUE_MAX :: int where
  [simp]: "SEM_VALUE_MAX = 2147483647"

type_synonym sem_casfun = "addr \<Rightarrow> 32 word \<Rightarrow> 32 word \<Rightarrow> st \<Rightarrow> (bool \<times> st) option"

definition compare_and_swap :: sem_casfun where
  "compare_and_swap sem oldval newval s = do {
     l \<leftarrow> acquire (sem_spinlock (sems s sem));
     let s = upd_sem sem (sem_spinlock_update (\<lambda>_. l)) s;
     let ret = (sem_status (sems s sem) = oldval);
     let s = (if ret then upd_sem sem (sem_status_update (\<lambda>_. newval)) s else s);
     let s = upd_sem sem (\<lambda>x. x\<lparr>sem_spinlock := release (sem_spinlock x)\<rparr>) s;
     Some (ret, s) }"

definition compare_and_swap_hw ::
  "(32 word \<Rightarrow> 32 word \<Rightarrow> 32 word \<Rightarrow> int \<times> 32 word) \<Rightarrow> sem_casfun"
where
  "compare_and_swap_hw instr sem oldval newval s =
     (let (ret, status) = instr (sem_status (sems s sem)) oldval newval
      in Some (ret \<noteq> 0, upd_sem sem (sem_status_update (\<lambda>_. status)) s))"

definition sem_init :: "pthread_t \<Rightarrow> addr \<Rightarrow> int \<Rightarrow> 32 word \<Rightarrow> st \<Rightarrow> int \<times> st" where
  "sem_init self sem pshared val s =
     (if uint val > SEM_VALUE_MAX then (- 1, set_errno self EINVAL s)
      else if pshared \<noteq> 0 then (- 1, set_errno self ENOSYS s)
      else (0, upd_sem sem (sem_status_update (\<lambda>_. push_bit 1 val + 1)) s))"

section \<open>Waiting\<close>

text \<open>The first \<open>do ... while\<close> loop of \<open>sem_wait\<close>; the value is \<open>newstatus\<close>.\<close>

partial_function (option) sem_wait_claim ::
  "sem_casfun \<Rightarrow> pthread_t \<Rightarrow> addr \<Rightarrow> st \<Rightarrow> (32 word \<times> st) option"
where
  "sem_wait_claim cas self sem s =
     (let oldstatus = sem_status (sems s sem);
          (newstatus, s1) = (if oldstatus AND 1 \<noteq> 0 \<and> oldstatus \<noteq> 1 then (oldstatus - 2, s)
                            else (self, upd_th self (p_nextwaiting_update (\<lambda>_. oldstatus)) s))
      in case cas sem oldstatus newstatus s1 of None \<Rightarrow> None
         | Some (ok, s2) \<Rightarrow> if \<not> ok then sem_wait_claim cas self sem s2 else Some (newstatus, s2))"

text \<open>The loop that takes a cancelled thread off the head of the list; the value is \<open>oldstatus\<close>.\<close>

partial_function (option) sem_unlink_head ::
  "sem_casfun \<Rightarrow> pthread_t \<Rightarrow> addr \<Rightarrow> st \<Rightarrow> (32 word \<times> st) option"
where
  "sem_unlink_head cas self sem s =
     (let oldstatus = sem_status (sems s sem)
      in if oldstatus \<noteq> self then Some (oldstatus, s)
         else case cas sem oldstatus (p_nextwaiting (descr s self)) s of None \<Rightarrow> None
              | Some (ok, s2) \<Rightarrow> if \<not> ok then sem_unlink_head cas self sem s2 else Some (oldstatus, s2))"

text \<open>The loop over the rest of the list; \<open>x\<close> is the thread whose link \<open>th\<close> points to.\<close>

partial_function (option) sem_unlink_inner :: "pthread_t \<Rightarrow> pthread_t \<Rightarrow> st \<Rightarrow> st option" where
  "sem_unlink_inner self x s =
     (let v = p_nextwaiting (descr s x)
      in if v \<noteq> 1 \<and> v \<noteq> NULL then
           if v = self
           then Some (upd_th x (p_nextwaiting_update (\<lambda>_. p_nextwaiting (descr s self))) s)
           else sem_unlink_inner self v s
         else Some s)"

definition sem_wait_cancel :: "sem_casfun \<Rightarrow> pthread_t \<Rightarrow> addr \<Rightarrow> st \<Rightarrow> st option" where
  "sem_wait_cancel cas self sem s = do {
     (oldstatus, s) \<leftarrow> sem_unlink_head cas self sem s;
     if oldstatus \<noteq> self \<and> oldstatus AND 1 = 0 then sem_unlink_inner self oldstatus s else Some s }"

partial_function (option) sem_wait ::
  "sem_casfun \<Rightarrow> env \<Rightarrow> pthread_t \<Rightarrow> addr \<Rightarrow> st \<Rightarrow> int res"
where
  "sem_wait cas E self sem s =
     (case sem_wait_claim cas self sem s of None \<Rightarrow> None
      | Some (newstatus, s1) \<Rightarrow>
        if newstatus AND 1 \<noteq> 0 then Some (Ret 0, s1)
        else
          (case suspend_with_cancellation E self s1 of None \<Rightarrow> None
           | Some (f, s2) \<Rightarrow>
             (case f of
                Ret _ \<Rightarrow>
                  if cancel_pending self s2 then
                    (case sem_wait_cancel cas self sem s2 of None \<Rightarrow> None
                     | Some s3 \<Rightarrow> Some (PExit PTHREAD_CANCELED, s3))
                  else sem_wait cas E self sem s2
              | PExit v \<Rightarrow> Some (PExit v, s2)
              | Exit c \<Rightarrow> Some (Exit c, s2)
              | Jump \<Rightarrow> Some (Jump, s2))))"

partial_function (option) sem_trywait :: "sem_casfun \<Rightarrow> pthread_t \<Rightarrow> addr \<Rightarrow> st \<Rightarrow> (int \<times> st) option" where
  "sem_trywait cas self sem s =
     (let oldstatus = sem_status (sems s sem)
      in if oldstatus AND 1 = 0 \<or> oldstatus = 1 then Some (- 1, set_errno self EAGAIN s)
         else case cas sem oldstatus (oldstatus - 2) s of None \<Rightarrow> None
              | Some (ok, s2) \<Rightarrow> if \<not> ok then sem_trywait cas self sem s2 else Some (0, s2))"

section \<open>Posting\<close>

text \<open>
  The retry loop of \<open>sem_post\<close>: \<open>None\<close> as first component stands for the return with \<open>ERANGE\<close>,
  otherwise it is \<open>oldstatus\<close>. The comparison with \<open>SEM_VALUE_MAX\<close> is the signed one of \<open>long\<close>.
\<close>

partial_function (option) sem_post_claim ::
  "sem_casfun \<Rightarrow> pthread_t \<Rightarrow> addr \<Rightarrow> st \<Rightarrow> (32 word option \<times> st) option"
where
  "sem_post_claim cas self sem s =
     (let oldstatus = sem_status (sems s sem)
      in if oldstatus AND 1 \<noteq> 0 \<and> sint oldstatus \<ge> SEM_VALUE_MAX
         then Some (None, set_errno self ERANGE s)
         else case cas sem oldstatus (if oldstatus AND 1 = 0 then 3 else oldstatus + 2) s of
                None \<Rightarrow> None
              | Some (ok, s2) \<Rightarrow> if \<not> ok then sem_post_claim cas self sem s2 else Some (Some oldstatus, s2))"

partial_function (option) sem_wake_all :: "pthread_t \<Rightarrow> st \<Rightarrow> st option" where
  "sem_wake_all th s =
     (let next_th = p_nextwaiting (descr s th);
          s = upd_th th (p_nextwaiting_update (\<lambda>_. NULL)) s;
          s = restart th s
      in if next_th \<noteq> 1 then sem_wake_all next_th s else Some s)"

definition sem_post :: "sem_casfun \<Rightarrow> pthread_t \<Rightarrow> addr \<Rightarrow> st \<Rightarrow> (int \<times> st) option" where
  "sem_post cas self sem s = do {
     (claim, s) \<leftarrow> sem_post_claim cas self sem s;
     (case claim of None \<Rightarrow> Some (- 1, s)
      | Some oldstatus \<Rightarrow>
        if oldstatus AND 1 = 0
        then do { s \<leftarrow> sem_wake_all oldstatus s; Some (0, s) }
        else Some (0, s)) }"

text \<open>\<open>sem_getvalue\<close>: the return code and what it stores through \<open>sval\<close>.\<close>

definition sem_getvalue :: "addr \<Rightarrow> st \<Rightarrow> int \<times> int" where
  "sem_getvalue sem s =
     (let status = sem_status (sems s sem)
      in (0, if status AND 1 \<noteq> 0 then sint (drop_bit 1 status) else 0))"

definition sem_destroy :: "pthread_t \<Rightarrow> addr \<Rightarrow> st \<Rightarrow> int \<times> st" where
  "sem_destroy self sem s =
     (if sem_status (sems s sem) AND 1 = 0 then (- 1, set_errno self EBUSY s) else (0, s))"

section \<open>Abstraction: a count and a list of waiting threads\<close>

text \<open>
  With a positive count nobody waits. Thread descriptors are word aligned, so their addresses are
  even, which tells them from counts.
\<close>

definition is_sem :: "heap \<Rightarrow> 32 word \<Rightarrow> nat \<Rightarrow> pthread_t list \<Rightarrow> bool" where
  "is_sem h status n xs \<longleftrightarrow>
     (if n = 0 then chain (nextwaiting h) 1 status xs \<and> (\<forall>t \<in> set xs. even t \<and> t \<noteq> NULL)
      else xs = [] \<and> n < 2 ^ 31 \<and> status = 2 * of_nat n + 1)"

lemma and_1_iff [simp]: "((w :: 32 word) AND 1 = 0) \<longleftrightarrow> even w"
  by (simp add: and_one_eq even_iff_mod_2_eq_zero)

lemma count_not_one:
  assumes "0 < n" and "n < 2 ^ 31"
  shows "2 * of_nat n + 1 \<noteq> (1 :: 32 word)"
proof
  assume "2 * of_nat n + 1 = (1 :: 32 word)"
  then have "of_nat (2 * n) = (0 :: 32 word)" by simp
  then have "2 ^ 32 dvd 2 * n" by (simp only: word_of_nat_eq_0_iff) simp
  then have "2 ^ 32 \<le> 2 * n" using assms by (intro dvd_imp_le) simp_all
  with assms show False by simp
qed

lemma is_sem_count: "is_sem h status n [] \<Longrightarrow> status = 2 * of_nat n + 1"
  by (auto simp: is_sem_def split: if_splits)

lemma is_sem_countI: "n < 2 ^ 31 \<Longrightarrow> is_sem h (2 * of_nat n + 1) n []"
  by (simp add: is_sem_def)

lemma is_sem_odd:
  assumes "is_sem h status n xs"
  shows "odd status \<longleftrightarrow> xs = []"
  using assms by (cases xs) (auto simp: is_sem_def split: if_splits)

lemma is_sem_one:
  assumes "is_sem h status n xs"
  shows "odd status \<and> status \<noteq> 1 \<longleftrightarrow> 0 < n"
proof (cases "n = 0")
  case True
  with assms is_sem_odd [OF assms] show ?thesis by (auto simp: is_sem_def)
next
  case False
  with assms count_not_one [of n] show ?thesis by (auto simp: is_sem_def)
qed

text \<open>The signed overflow test of \<open>sem_post\<close> is true of one odd word only, which encodes 2^30 - 1.\<close>

lemma sint_max_iff: "sint (w :: 32 word) \<ge> 2147483647 \<longleftrightarrow> w = 0x7fffffff"
proof
  assume "sint w \<ge> 2147483647"
  moreover have "sint w < 2147483648" using sint_less [of w] by simp
  ultimately have "sint w = 2147483647" by simp
  then have "word_of_int (sint w) = (word_of_int 2147483647 :: 32 word)" by (rule arg_cong)
  then show "w = 0x7fffffff" by simp
qed simp

lemma unat_count: "n < 2 ^ 31 \<Longrightarrow> unat (2 * of_nat n + 1 :: 32 word) = 2 * n + 1"
proof -
  assume "n < 2 ^ 31"
  moreover have "2 * of_nat n + 1 = (of_nat (2 * n + 1) :: 32 word)" by simp
  ultimately show ?thesis by (simp only: unat_of_nat) (simp add: take_bit_eq_mod)
qed

lemma count_max_iff:
  assumes "n < 2 ^ 31"
  shows "(2 * of_nat n + 1 :: 32 word) = 0x7fffffff \<longleftrightarrow> n = 2 ^ 30 - 1"
proof -
  have "(2 * of_nat n + 1 :: 32 word) = 0x7fffffff \<longleftrightarrow>
      unat (2 * of_nat n + 1 :: 32 word) = unat (0x7fffffff :: 32 word)"
    by (rule word_unat_eq_iff)
  also have "\<dots> \<longleftrightarrow> 2 * n + 1 = 0x7fffffff" using unat_count [OF assms] by simp
  finally show ?thesis by auto
qed

lemma is_sem_cong:
  assumes "\<And>t. t \<in> set xs \<Longrightarrow> p_nextwaiting (h t) = p_nextwaiting (h' t)"
  shows "is_sem h status n xs = is_sem h' status n xs"
  using chain_cong [of xs "nextwaiting h" "nextwaiting h'" 1 status] assms by (simp add: is_sem_def)

lemma is_sem_push:
  assumes "is_sem h status 0 xs" and "even self" and "self \<noteq> NULL" and "self \<notin> set xs"
    and "p_nextwaiting (h' self) = status"
    and "\<And>t. t \<noteq> self \<Longrightarrow> p_nextwaiting (h' t) = p_nextwaiting (h t)"
  shows "is_sem h' self 0 (self # xs)"
proof -
  have "is_sem h' status 0 xs = is_sem h status 0 xs"
    by (rule is_sem_cong) (use assms(4,6) in metis)
  with assms show ?thesis by (auto simp: is_sem_def)
qed

text \<open>The loop of \<open>sem_post\<close> ends, and restarts every thread of the list.\<close>

lemma sem_wake_all_wakes:
  assumes "chain (nextwaiting (descr s)) 1 th (th # xs)"
  shows "\<exists>s'. sem_wake_all th s = Some s' \<and> sems s' = sems s \<and>
    klog s' = klog s @ map (\<lambda>t. Kill (p_pid (descr s t)) PTHREAD_SIG_RESTART) (th # xs) \<and>
    (\<forall>t. descr s' t = (if t \<in> set (th # xs) then (descr s t)\<lparr>p_nextwaiting := NULL\<rparr> else descr s t))"
  using assms
proof (induction xs arbitrary: th s)
  case Nil
  then show ?case by (subst sem_wake_all.simps) auto
next
  case (Cons x xs)
  define s1 where "s1 = restart th (upd_th th (p_nextwaiting_update (\<lambda>_. NULL)) s)"
  have "distinct (th # x # xs)" using Cons.prems by (rule chain_distinct)
  then have d: "th \<notin> set (x # xs)" by simp
  have x: "p_nextwaiting (descr s th) = x" "x \<noteq> 1" using Cons.prems by auto
  then have "sem_wake_all th s = sem_wake_all x s1"
    by (subst sem_wake_all.simps) (simp add: s1_def)
  moreover have "chain (nextwaiting (descr s1)) 1 x (x # xs) = chain (nextwaiting (descr s)) 1 x (x # xs)"
    by (rule chain_cong) (use d in \<open>auto simp: s1_def\<close>)
  then have "chain (nextwaiting (descr s1)) 1 x (x # xs)" using Cons.prems x by simp
  note Cons.IH [OF this]
  moreover have "sems s1 = sems s" "klog s1 = klog s @ [Kill (p_pid (descr s th)) PTHREAD_SIG_RESTART]"
    "descr s1 t = (if t = th then (descr s t)\<lparr>p_nextwaiting := NULL\<rparr> else descr s t)"
    "p_pid (descr s1 t) = p_pid (descr s t)" for t
    by (simp_all add: s1_def)
  ultimately show ?case using d by auto
qed

text \<open>The inner loop of a cancelled \<open>sem_wait\<close> unlinks the thread from the rest of the list.\<close>

lemma sem_unlink_inner_member:
  assumes "chain (nextwaiting (descr s)) 1 x (x # as @ self # bs)" and "NULL \<notin> set (x # as @ self # bs)"
  shows "sem_unlink_inner self x s =
    Some (upd_th (last (x # as)) (p_nextwaiting_update (\<lambda>_. p_nextwaiting (descr s self))) s)"
  using assms
proof (induction as arbitrary: x)
  case Nil
  then show ?case by (subst sem_unlink_inner.simps) auto
next
  case (Cons a as)
  have "distinct (x # (a # as) @ self # bs)" using Cons.prems(1) by (rule chain_distinct)
  then have "sem_unlink_inner self x s = sem_unlink_inner self a s"
    using Cons.prems by (subst sem_unlink_inner.simps) auto
  with Cons show ?case by simp
qed

lemma sem_unlink_inner_absent:
  assumes "chain (nextwaiting (descr s)) 1 x (x # ys)" and "self \<notin> set ys"
  shows "sem_unlink_inner self x s = Some s"
  using assms
proof (induction ys arbitrary: x)
  case Nil
  then show ?case by (subst sem_unlink_inner.simps) simp
next
  case (Cons y ys)
  then have "sem_unlink_inner self x s = (if y = NULL then Some s else sem_unlink_inner self y s)"
    by (subst sem_unlink_inner.simps) auto
  with Cons show ?case by auto
qed

section \<open>What the operations rely on\<close>

locale sem_cas =
  fixes cas :: sem_casfun
    and ready :: "sem_t \<Rightarrow> bool"
  assumes cas_eq: "ready (sems s sem) \<Longrightarrow> cas sem oldval newval s =
      Some (sem_status (sems s sem) = oldval,
            if sem_status (sems s sem) = oldval
            then upd_sem sem (sem_status_update (\<lambda>_. newval)) s else s)"
    and ready_upd: "ready x \<Longrightarrow> ready (x\<lparr>sem_status := v\<rparr>)"
begin

lemma claim_take:
  assumes "ready (sems s sem)" and "odd (sem_status (sems s sem))" and "sem_status (sems s sem) \<noteq> 1"
  shows "sem_wait_claim cas self sem s =
    Some (sem_status (sems s sem) - 2,
          upd_sem sem (sem_status_update (\<lambda>_. sem_status (sems s sem) - 2)) s)"
  using assms by (subst sem_wait_claim.simps) (simp add: cas_eq Let_def)

lemma claim_queue:
  assumes "ready (sems s sem)" and "even (sem_status (sems s sem)) \<or> sem_status (sems s sem) = 1"
  shows "sem_wait_claim cas self sem s =
    Some (self, upd_sem sem (sem_status_update (\<lambda>_. self))
      (upd_th self (p_nextwaiting_update (\<lambda>_. sem_status (sems s sem))) s))"
  using assms by (subst sem_wait_claim.simps) (auto simp: cas_eq Let_def)

lemma wait_takes:
  assumes "ready (sems s sem)" and "is_sem (descr s) (sem_status (sems s sem)) (Suc n) xs"
  shows "\<exists>s'. sem_wait cas E self sem s = Some (Ret 0, s') \<and> ready (sems s' sem) \<and>
    is_sem (descr s') (sem_status (sems s' sem)) n [] \<and> descr s' = descr s \<and> klog s' = klog s"
proof -
  have st: "sem_status (sems s sem) = 2 * of_nat (Suc n) + 1" "Suc n < 2 ^ 31"
    using assms(2) by (auto simp: is_sem_def)
  have odd: "odd (sem_status (sems s sem))" "sem_status (sems s sem) \<noteq> 1"
    using is_sem_one [OF assms(2)] by auto
  define s' where "s' = upd_sem sem (sem_status_update (\<lambda>_. sem_status (sems s sem) - 2)) s"
  have "sem_wait cas E self sem s = Some (Ret 0, s')"
    using claim_take [OF assms(1) odd] odd by (subst sem_wait.simps) (simp add: s'_def)
  moreover have "sem_status (sems s' sem) = 2 * of_nat n + 1" "ready (sems s' sem)"
    using st assms(1) by (simp_all add: s'_def ready_upd)
  ultimately show ?thesis using st by (intro exI [of _ s']) (auto simp: is_sem_def s'_def)
qed

lemma wait_queues:
  assumes "ready (sems s sem)" and "is_sem (descr s) (sem_status (sems s sem)) 0 xs"
    and "even self" and "self \<noteq> NULL" and "self \<notin> set xs"
  shows "\<exists>s'. sem_wait_claim cas self sem s = Some (self, s') \<and> ready (sems s' sem) \<and>
    is_sem (descr s') (sem_status (sems s' sem)) 0 (self # xs) \<and> klog s' = klog s"
proof -
  have "even (sem_status (sems s sem)) \<or> sem_status (sems s sem) = 1"
    using is_sem_one [OF assms(2)] by auto
  note claim = claim_queue [OF assms(1) this, of self]
  moreover have "is_sem ((descr s)(self := (descr s self)\<lparr>p_nextwaiting := sem_status (sems s sem)\<rparr>))
      self 0 (self # xs)"
    by (rule is_sem_push [OF assms(2-5)]) simp_all
  ultimately show ?thesis using assms(1) by (simp add: ready_upd)
qed

lemma trywait_takes:
  assumes "ready (sems s sem)" and "is_sem (descr s) (sem_status (sems s sem)) (Suc n) xs"
  shows "\<exists>s'. sem_trywait cas self sem s = Some (0, s') \<and> ready (sems s' sem) \<and>
    is_sem (descr s') (sem_status (sems s' sem)) n [] \<and> descr s' = descr s \<and> klog s' = klog s"
proof -
  have st: "sem_status (sems s sem) = 2 * of_nat (Suc n) + 1" "Suc n < 2 ^ 31"
    using assms(2) by (auto simp: is_sem_def)
  have odd: "odd (sem_status (sems s sem))" "sem_status (sems s sem) \<noteq> 1"
    using is_sem_one [OF assms(2)] by auto
  define s' where "s' = upd_sem sem (sem_status_update (\<lambda>_. sem_status (sems s sem) - 2)) s"
  have "sem_trywait cas self sem s = Some (0, s')"
    using odd assms(1) by (subst sem_trywait.simps) (simp add: s'_def cas_eq Let_def)
  moreover have "sem_status (sems s' sem) = 2 * of_nat n + 1" "ready (sems s' sem)"
    using st assms(1) by (simp_all add: s'_def ready_upd)
  ultimately show ?thesis using st by (intro exI [of _ s']) (auto simp: is_sem_def s'_def)
qed

lemma trywait_fails:
  assumes "is_sem (descr s) (sem_status (sems s sem)) 0 xs"
  shows "sem_trywait cas self sem s = Some (- 1, set_errno self EAGAIN s)"
  using is_sem_one [OF assms] by (subst sem_trywait.simps) auto

lemma post_counts:
  assumes "ready (sems s sem)" and "is_sem (descr s) (sem_status (sems s sem)) n []"
    and "n < 2 ^ 31" and "n \<noteq> 2 ^ 30 - 1"
  shows "\<exists>s'. sem_post cas self sem s = Some (0, s') \<and> ready (sems s' sem) \<and>
    sem_status (sems s' sem) = 2 * of_nat (Suc n) + 1 \<and> descr s' = descr s \<and> klog s' = klog s"
proof -
  have st: "sem_status (sems s sem) = 2 * of_nat n + 1" using assms(2) by (rule is_sem_count)
  then have "\<not> sint (sem_status (sems s sem)) \<ge> 2147483647"
    unfolding sint_max_iff using count_max_iff [of n] assms(3,4) by simp
  moreover have "odd (sem_status (sems s sem))" using st by simp
  ultimately have "sem_post_claim cas self sem s = Some (Some (sem_status (sems s sem)),
      upd_sem sem (sem_status_update (\<lambda>_. sem_status (sems s sem) + 2)) s)"
    using assms(1) by (subst sem_post_claim.simps) (simp add: cas_eq Let_def)
  then show ?thesis using st assms(1) by (simp add: sem_post_def ready_upd)
qed

lemma post_range:
  assumes "is_sem (descr s) (sem_status (sems s sem)) (2 ^ 30 - 1) []"
  shows "sem_post cas self sem s = Some (- 1, set_errno self ERANGE s)"
proof -
  have "sem_status (sems s sem) = 0x7fffffff" using is_sem_count [OF assms] by simp
  then show ?thesis
    unfolding sem_post_def by (subst sem_post_claim.simps) simp
qed

lemma post_wakes:
  assumes "ready (sems s sem)" and "is_sem (descr s) (sem_status (sems s sem)) 0 (x # xs)"
  shows "\<exists>s'. sem_post cas self sem s = Some (0, s') \<and> ready (sems s' sem) \<and>
    is_sem (descr s') (sem_status (sems s' sem)) 1 [] \<and>
    klog s' = klog s @ map (\<lambda>t. Kill (p_pid (descr s t)) PTHREAD_SIG_RESTART) (x # xs) \<and>
    (\<forall>t. descr s' t = (if t \<in> set (x # xs) then (descr s t)\<lparr>p_nextwaiting := NULL\<rparr> else descr s t))"
proof -
  have st: "sem_status (sems s sem) = x" "even x" "chain (nextwaiting (descr s)) 1 x (x # xs)"
    using assms(2) by (auto simp: is_sem_def)
  define s1 where "s1 = upd_sem sem (sem_status_update (\<lambda>_. 3)) s"
  have "sem_post_claim cas self sem s = Some (Some x, s1)"
    using st assms(1) by (subst sem_post_claim.simps) (simp add: cas_eq s1_def)
  moreover obtain s' where "sem_wake_all x s1 = Some s'" "sems s' = sems s1"
    "klog s' = klog s @ map (\<lambda>t. Kill (p_pid (descr s t)) PTHREAD_SIG_RESTART) (x # xs)"
    "\<forall>t. descr s' t = (if t \<in> set (x # xs) then (descr s t)\<lparr>p_nextwaiting := NULL\<rparr> else descr s t)"
    using sem_wake_all_wakes [of s1 x xs] st by (auto simp: s1_def)
  ultimately show ?thesis using st assms(1)
    by (intro exI [of _ s']) (simp add: sem_post_def s1_def ready_upd is_sem_def)
qed

lemma cancel_unlinks:
  assumes "ready (sems s sem)" and "is_sem (descr s) (sem_status (sems s sem)) 0 xs" and "self \<in> set xs"
  shows "\<exists>s'. sem_wait_cancel cas self sem s = Some s' \<and>
    is_sem (descr s') (sem_status (sems s' sem)) 0 (remove1 self xs)"
proof -
  obtain as bs where xs: "xs = as @ self # bs" using assms(3) by (auto simp: in_set_conv_decomp)
  have c: "chain (nextwaiting (descr s)) 1 (sem_status (sems s sem)) (as @ self # bs)"
    and e: "\<forall>t \<in> set (as @ self # bs). even t \<and> t \<noteq> NULL"
    using assms(2) by (auto simp: is_sem_def xs)
  have d: "distinct (as @ self # bs)" using c by (rule chain_distinct)
  then have r: "remove1 self xs = as @ bs" by (simp add: xs remove1_middle)
  show ?thesis
  proof (cases as)
    case Nil
    with c have "sem_status (sems s sem) = self" by simp
    then have "sem_unlink_head cas self sem s = Some (self,
        upd_sem sem (sem_status_update (\<lambda>_. p_nextwaiting (descr s self))) s)"
      using assms(1) by (subst sem_unlink_head.simps) (simp add: cas_eq Let_def)
    with c e Nil show ?thesis by (simp add: sem_wait_cancel_def r is_sem_def)
  next
    case (Cons a as')
    define y where "y = last (a # as')"
    define zs where "zs = butlast (a # as')"
    have as: "as = zs @ [y]" unfolding Cons y_def zs_def by (rule append_butlast_last_id [symmetric]) simp
    have "sem_status (sems s sem) = a" "a \<noteq> self" "even a" using c d e Cons by auto
    then have "sem_wait_cancel cas self sem s = sem_unlink_inner self a s"
      unfolding sem_wait_cancel_def by (subst sem_unlink_head.simps) simp
    also have "\<dots> = Some (upd_th y (p_nextwaiting_update (\<lambda>_. p_nextwaiting (descr s self))) s)"
      unfolding y_def by (rule sem_unlink_inner_member) (use c e Cons in auto)
    finally have w: "sem_wait_cancel cas self sem s = \<dots>" .
    have "chain (nextwaiting ((descr s)(y := (descr s y)\<lparr>p_nextwaiting := p_nextwaiting (descr s self)\<rparr>))) 1
        (sem_status (sems s sem)) (zs @ y # bs)"
      by (rule chain_unlink [of "nextwaiting (descr s)" _ _ _ _ self]) (use c d in \<open>auto simp: as\<close>)
    with w e show ?thesis by (simp add: r as is_sem_def)
  qed
qed

end

text \<open>The faked instruction needs its spin lock to be free; the real ones need nothing.\<close>

interpretation faked: sem_cas compare_and_swap "\<lambda>x. sem_spinlock x = 0"
proof
  fix s :: st and sem oldval newval
  assume "sem_spinlock (sems s sem) = 0"
  then show "compare_and_swap sem oldval newval s = Some (sem_status (sems s sem) = oldval,
      if sem_status (sems s sem) = oldval
      then upd_sem sem (sem_status_update (\<lambda>_. newval)) s else s)"
    by (cases "sems s sem") (simp add: compare_and_swap_def upd_sem_def fun_upd_idem)
qed simp

sublocale cas_port \<subseteq> sem_cas "compare_and_swap_hw cas" "\<lambda>_. True"
proof
  fix s :: st and sem oldval newval
  obtain ret v where c: "cas (sem_status (sems s sem)) oldval newval = (ret, v)"
    by (cases "cas (sem_status (sems s sem)) oldval newval")
  then have "(ret \<noteq> 0) = (sem_status (sems s sem) = oldval)"
    "v = (if sem_status (sems s sem) = oldval then newval else sem_status (sems s sem))"
    using cas_success [of "sem_status (sems s sem)" oldval newval]
      cas_stores [of "sem_status (sems s sem)" oldval newval] by auto
  with c show "compare_and_swap_hw cas sem oldval newval s = Some (sem_status (sems s sem) = oldval,
      if sem_status (sems s sem) = oldval
      then upd_sem sem (sem_status_update (\<lambda>_. newval)) s else s)"
    by (cases "sems s sem") (auto simp: compare_and_swap_hw_def upd_sem_def fun_upd_idem)
qed simp

section \<open>Encoding and decoding of the count\<close>

lemma sem_decode:
  assumes "n < 2 ^ 31"
  shows "sint (drop_bit (Suc 0) (2 * of_nat n + 1 :: 32 word)) = int n"
proof -
  let ?w = "drop_bit (Suc 0) (2 * of_nat n + 1 :: 32 word)"
  have "unat ?w = drop_bit (Suc 0) (2 * n + 1)"
    using unat_count [OF assms] by (simp only: unat_drop_bit_eq)
  then have "unat ?w = n" by (simp add: drop_bit_Suc)
  then have u: "uint ?w = int n" by (simp only: uint_nat)
  have "sint ?w = signed_take_bit 31 (uint ?w)" by (simp add: sint_uint)
  also have "\<dots> = uint ?w" by (rule signed_take_bit_int_eq_self) (use u assms in simp_all)
  finally show ?thesis using u by simp
qed

lemma uint_le_iff: "uint (w :: 32 word) \<le> int m \<longleftrightarrow> unat w \<le> m"
  by (simp only: uint_nat of_nat_le_iff)

lemma sem_getvalue_count:
  assumes "is_sem (descr s) (sem_status (sems s sem)) n xs"
  shows "sem_getvalue sem s = (0, int n)"
proof (cases "n = 0")
  case True
  with assms have "chain (nextwaiting (descr s)) 1 (sem_status (sems s sem)) xs" by (simp add: is_sem_def)
  with is_sem_odd [OF assms] True show ?thesis by (cases xs) (auto simp: sem_getvalue_def Let_def)
next
  case False
  with assms have "sem_status (sems s sem) = 2 * of_nat n + 1" "n < 2 ^ 31"
    by (auto simp: is_sem_def)
  then show ?thesis by (simp add: sem_getvalue_def sem_decode Let_def)
qed

text \<open>Repeated calls of \<open>sem_trywait\<close>, with their return codes.\<close>

fun trywaits :: "sem_casfun \<Rightarrow> pthread_t \<Rightarrow> addr \<Rightarrow> nat \<Rightarrow> st \<Rightarrow> (int list \<times> st) option" where
  "trywaits cas self sem 0 s = Some ([], s)"
| "trywaits cas self sem (Suc k) s = do {
     (r, s) \<leftarrow> sem_trywait cas self sem s;
     (rs, s) \<leftarrow> trywaits cas self sem k s;
     Some (r # rs, s) }"

text \<open>A blocked caller sleeps in the list of the semaphore.\<close>

context sem_cas
begin

lemma trywaits_fail:
  "is_sem (descr s) (sem_status (sems s sem)) 0 [] \<Longrightarrow>
    \<exists>s'. trywaits cas self sem k s = Some (replicate k (- 1), s')"
proof (induction k arbitrary: s)
  case 0
  then show ?case by simp
next
  case (Suc k)
  from Suc.prems have "is_sem (descr (set_errno self EAGAIN s)) (sem_status (sems (set_errno self EAGAIN s) sem)) 0 []"
    by (simp add: is_sem_def)
  from Suc.IH [OF this] show ?case using trywait_fails [OF Suc.prems, of self] by auto
qed

lemma trywaits_count:
  "ready (sems s sem) \<Longrightarrow> is_sem (descr s) (sem_status (sems s sem)) n [] \<Longrightarrow>
    \<exists>s'. trywaits cas self sem (n + k) s = Some (replicate n 0 @ replicate k (- 1), s')"
proof (induction n arbitrary: s)
  case 0
  then show ?case using trywaits_fail by simp
next
  case (Suc n)
  obtain s1 where "sem_trywait cas self sem s = Some (0, s1)" "ready (sems s1 sem)"
    "is_sem (descr s1) (sem_status (sems s1 sem)) n []"
    using trywait_takes [OF Suc.prems] by blast
  with Suc.IH [of s1] show ?case by auto
qed

lemma wait_blocked:
  assumes "ready (sems s sem)" and "is_sem (descr s) (sem_status (sems s sem)) 0 xs"
    and "even self" and "self \<noteq> NULL" and "self \<notin> set xs"
    and "\<And>msk s. sigsuspend_env E self msk s = None" and "\<not> cancel_pending self s"
  shows "sem_wait cas E self sem s = None"
proof -
  have "even (sem_status (sems s sem)) \<or> sem_status (sems s sem) = 1"
    using is_sem_one [OF assms(2)] by auto
  note claim = claim_queue [OF assms(1) this, of self]
  define s1 where "s1 = upd_sem sem (sem_status_update (\<lambda>_. self))
      (upd_th self (p_nextwaiting_update (\<lambda>_. sem_status (sems s sem))) s)"
  have "suspend_with_cancellation E self s1 = None"
    using assms(6,7) by (simp add: suspend_with_cancellation_def cancel_pending_def s1_def Let_def)
  with claim assms(3) show ?thesis by (subst sem_wait.simps) (simp add: s1_def)
qed

end

section \<open>Properties\<close>

text \<open>The forms of compare-and-swap the library is built with on the 32-bit ports.\<close>

definition sem_casfuns :: "sem_casfun set" where
  "sem_casfuns = {compare_and_swap, compare_and_swap_hw compare_and_swap_i486,
     compare_and_swap_hw compare_and_swap_m68k}"

text \<open>For the witnesses: threads 8 and 16 wait for semaphore 0 (thread 8 came last).\<close>

definition sem_two_waiting :: st where
  "sem_two_waiting = zero_st\<lparr>
     descr := (\<lambda>_. zero_descr)(8 := zero_descr\<lparr>p_nextwaiting := 16, p_pid := 100\<rparr>,
                              16 := zero_descr\<lparr>p_nextwaiting := 1, p_pid := 101\<rparr>),
     sems := (\<lambda>_. \<lparr>sem_status = 8, sem_spinlock = 0\<rparr>)\<rparr>"

lemma sem_two_waiting_ok:
  "is_sem (descr sem_two_waiting) (sem_status (sems sem_two_waiting 0)) 0 [8, 16]"
  "sem_spinlock (sems sem_two_waiting 0) = 0"
  by (simp_all add: is_sem_def sem_two_waiting_def zero_descr_def)

text \<open>
  \<open>sem_post\<close> on a semaphore with waiting threads terminates, makes the count 1, and sends the
  restart signal to every thread of the list, which it takes off the list; with each form of
  compare-and-swap.
\<close>

theorem sem_post_wakes_every_waiter:
  assumes "cas \<in> sem_casfuns" and "sem_spinlock (sems s sem) = 0"
    and "is_sem (descr s) (sem_status (sems s sem)) 0 (x # xs)"
  shows "\<exists>s'. sem_post cas self sem s = Some (0, s') \<and> sem_getvalue sem s' = (0, 1) \<and>
    is_sem (descr s') (sem_status (sems s' sem)) 1 [] \<and>
    klog s' = klog s @ map (\<lambda>t. Kill (p_pid (descr s t)) PTHREAD_SIG_RESTART) (x # xs) \<and>
    (\<forall>t. descr s' t = (if t \<in> set (x # xs) then (descr s t)\<lparr>p_nextwaiting := NULL\<rparr> else descr s t))"
proof -
  have "\<exists>s'. sem_post cas self sem s = Some (0, s') \<and> is_sem (descr s') (sem_status (sems s' sem)) 1 [] \<and>
    klog s' = klog s @ map (\<lambda>t. Kill (p_pid (descr s t)) PTHREAD_SIG_RESTART) (x # xs) \<and>
    (\<forall>t. descr s' t = (if t \<in> set (x # xs) then (descr s t)\<lparr>p_nextwaiting := NULL\<rparr> else descr s t))"
    using assms faked.post_wakes [of s sem x xs self] i486.post_wakes [of s sem x xs self]
      m68k_cas.post_wakes [of s sem x xs self] by (auto simp: sem_casfuns_def)
  then show ?thesis using sem_getvalue_count [of _ sem 1 "[]"] by auto
qed

theorem sem_post_wakes_every_waiter_witness:
  "\<exists>s'. sem_post compare_and_swap 24 0 sem_two_waiting = Some (0, s') \<and> sem_getvalue 0 s' = (0, 1) \<and>
    klog s' = [Kill 100 PTHREAD_SIG_RESTART, Kill 101 PTHREAD_SIG_RESTART]"
  using sem_post_wakes_every_waiter [of compare_and_swap sem_two_waiting 0 8 "[16]" 24] sem_two_waiting_ok
  by (auto simp: sem_casfuns_def sem_two_waiting_def zero_st_def)

text \<open>
  A semaphore initialised with the value v reads back as v, for every value \<open>sem_init\<close> accepts,
  and then exactly v calls of \<open>sem_trywait\<close> succeed before all further ones fail.
\<close>

theorem sem_init_value:
  assumes "cas \<in> sem_casfuns" and "uint val \<le> SEM_VALUE_MAX" and "sem_spinlock (sems s sem) = 0"
    and "sem_init self sem 0 val s = (r, s')"
  shows "r = 0 \<and> sem_getvalue sem s' = (0, uint val) \<and>
    (\<exists>s''. trywaits cas self sem (unat val + k) s' = Some (replicate (unat val) 0 @ replicate k (- 1), s''))"
proof -
  have u: "int (unat val) = uint val" by (simp only: uint_nat)
  have b: "unat val < 2 ^ 31" using assms(2) uint_le_iff [of val 2147483647] by simp
  have r: "r = 0" "s' = upd_sem sem (sem_status_update (\<lambda>_. 2 * of_nat (unat val) + 1)) s"
    using assms(2,4) by (auto simp: sem_init_def push_bit_eq_mult mult.commute)
  then have sem: "is_sem (descr s') (sem_status (sems s' sem)) (unat val) []"
    using is_sem_countI [OF b, of "descr s'"] by simp
  have "\<exists>s''. trywaits cas self sem (unat val + k) s' = Some (replicate (unat val) 0 @ replicate k (- 1), s'')"
    using assms(1,3) r(2) sem faked.trywaits_count [of s' sem "unat val" self k]
      i486.trywaits_count [of s' sem "unat val" self k] m68k_cas.trywaits_count [of s' sem "unat val" self k]
    by (auto simp: sem_casfuns_def)
  with sem_getvalue_count [OF sem] r(1) u show ?thesis by simp
qed

theorem sem_init_value_witness:
  "\<exists>s'. sem_getvalue 0 (snd (sem_init 8 0 0 5 zero_st)) = (0, 5) \<and>
    trywaits compare_and_swap 8 0 7 (snd (sem_init 8 0 0 5 zero_st)) = Some (replicate 5 0 @ replicate 2 (- 1), s')"
  using sem_init_value [of compare_and_swap 5 zero_st 0 8 0 "snd (sem_init 8 0 0 5 zero_st)" 2]
  by (auto simp: sem_casfuns_def zero_st_def sem_init_def)

text \<open>
  What \<open>sem_post\<close> does at the limits. The overflow test compares the encoded word with
  \<open>SEM_VALUE_MAX\<close>, so \<open>ERANGE\<close> is reported when the count is 2^30 - 1 and for no other count; at
  every other count below \<open>SEM_VALUE_MAX\<close> the count grows by one, and at \<open>SEM_VALUE_MAX\<close> itself the
  word wraps around and the count becomes 0 without an error.
\<close>

theorem sem_post_limits:
  assumes "cas \<in> sem_casfuns" and "sem_spinlock (sems s sem) = 0" and "n < 2 ^ 31"
    and "is_sem (descr s) (sem_status (sems s sem)) n []"
  shows "if n = 2 ^ 30 - 1 then sem_post cas self sem s = Some (- 1, set_errno self ERANGE s)
    else \<exists>s'. sem_post cas self sem s = Some (0, s') \<and>
      sem_getvalue sem s' = (0, if n = 2 ^ 31 - 1 then 0 else int n + 1)"
proof (cases "n = 2 ^ 30 - 1")
  case True
  with assms(1,4) show ?thesis
    using faked.post_range [of s sem self] i486.post_range [of s sem self] m68k_cas.post_range [of s sem self]
    by (auto simp: sem_casfuns_def)
next
  case False
  then obtain s' where s': "sem_post cas self sem s = Some (0, s')"
    "sem_status (sems s' sem) = 2 * of_nat (Suc n) + 1"
    using assms faked.post_counts [of s sem n self] i486.post_counts [of s sem n self]
      m68k_cas.post_counts [of s sem n self] by (auto simp: sem_casfuns_def)
  have "sem_getvalue sem s' = (0, if n = 2 ^ 31 - 1 then 0 else int n + 1)"
  proof (cases "n = 2 ^ 31 - 1")
    case True
    with s'(2) have "sem_status (sems s' sem) = 1" by simp
    with True show ?thesis by (simp add: sem_getvalue_def)
  next
    case False
    with assms(3) have "is_sem (descr s') (sem_status (sems s' sem)) (Suc n) []"
      using s'(2) by (simp add: is_sem_def)
    from sem_getvalue_count [OF this] False show ?thesis by simp
  qed
  with False s'(1) show ?thesis by auto
qed

theorem sem_post_limits_witness:
  "\<exists>s'. sem_post compare_and_swap 8 0 (snd (sem_init 8 0 0 0x7fffffff zero_st)) = Some (0, s') \<and>
    sem_getvalue 0 s' = (0, 0)"
proof -
  let ?s = "snd (sem_init 8 0 0 0x7fffffff zero_st)"
  have "sem_spinlock (sems ?s 0) = 0" "is_sem (descr ?s) (sem_status (sems ?s 0)) (2 ^ 31 - 1) []"
    by (simp_all add: sem_init_def zero_st_def is_sem_def)
  then show ?thesis using sem_post_limits [of compare_and_swap ?s 0 "2 ^ 31 - 1" 8] by (simp add: sem_casfuns_def)
qed

text \<open>
  A call of \<open>sem_wait\<close> with a positive count returns 0 at once and takes one. With count 0 it puts
  the thread at the front of the list of waiting threads, and if no signal ever comes it never returns.
\<close>

theorem sem_wait_takes_or_blocks:
  assumes "cas \<in> sem_casfuns" and "sem_spinlock (sems s sem) = 0"
    and "is_sem (descr s) (sem_status (sems s sem)) n xs"
    and "even self" and "self \<noteq> NULL" and "self \<notin> set xs" and "\<not> cancel_pending self s"
    and "\<And>msk s. sigsuspend_env E self msk s = None"
  shows "if 0 < n then \<exists>s'. sem_wait cas E self sem s = Some (Ret 0, s') \<and>
      is_sem (descr s') (sem_status (sems s' sem)) (n - 1) [] \<and> klog s' = klog s
    else sem_wait cas E self sem s = None \<and> (\<exists>s'. sem_wait_claim cas self sem s = Some (self, s') \<and>
      is_sem (descr s') (sem_status (sems s' sem)) 0 (self # xs) \<and> klog s' = klog s)"
proof (cases n)
  case 0
  have "sem_wait cas E self sem s = None"
    using assms 0 faked.wait_blocked [of s sem xs self E] i486.wait_blocked [of s sem xs self E]
      m68k_cas.wait_blocked [of s sem xs self E] by (auto simp: sem_casfuns_def)
  moreover have "\<exists>s'. sem_wait_claim cas self sem s = Some (self, s') \<and>
      is_sem (descr s') (sem_status (sems s' sem)) 0 (self # xs) \<and> klog s' = klog s"
    using assms 0 faked.wait_queues [of s sem xs self] i486.wait_queues [of s sem xs self]
      m68k_cas.wait_queues [of s sem xs self] by (auto simp: sem_casfuns_def)
  ultimately show ?thesis using 0 by simp
next
  case (Suc m)
  then show ?thesis
    using assms(1-3) faked.wait_takes [of s sem m xs E self] i486.wait_takes [of s sem m xs E self]
      m68k_cas.wait_takes [of s sem m xs E self] by (auto simp: sem_casfuns_def)
qed

theorem sem_wait_takes_or_blocks_witness:
  "\<exists>s'. sem_wait_claim compare_and_swap 24 0 sem_two_waiting = Some (24, s') \<and>
    is_sem (descr s') (sem_status (sems s' 0)) 0 [24, 8, 16]"
  using sem_wait_takes_or_blocks [of compare_and_swap sem_two_waiting 0 0 "[8, 16]" 24
      "prompt_env\<lparr>sigsuspend_env := (\<lambda>_ _ _. None)\<rparr>"] sem_two_waiting_ok
  by (auto simp: sem_casfuns_def sem_two_waiting_def cancel_pending_def zero_descr_def)

text \<open>
  A thread that is cancelled while it waits for a semaphore takes itself off the list, wherever it
  stands in it, and leaves the others in place.
\<close>

theorem sem_cancel_unlinks:
  assumes "cas \<in> sem_casfuns" and "sem_spinlock (sems s sem) = 0"
    and "is_sem (descr s) (sem_status (sems s sem)) 0 xs" and "self \<in> set xs"
  shows "\<exists>s'. sem_wait_cancel cas self sem s = Some s' \<and>
    is_sem (descr s') (sem_status (sems s' sem)) 0 (remove1 self xs)"
  using assms faked.cancel_unlinks [of s sem xs self] i486.cancel_unlinks [of s sem xs self]
    m68k_cas.cancel_unlinks [of s sem xs self] by (auto simp: sem_casfuns_def)

theorem sem_cancel_unlinks_witness:
  "\<exists>s'. sem_wait_cancel compare_and_swap 16 0 sem_two_waiting = Some s' \<and>
    is_sem (descr s') (sem_status (sems s' 0)) 0 [8]"
  using sem_cancel_unlinks [of compare_and_swap sem_two_waiting 0 "[8, 16]" 16] sem_two_waiting_ok
  by (simp add: sem_casfuns_def)

text \<open>
  A defect of \<open>sem_init\<close>. On machines without a compare-and-swap instruction it does not
  initialise the spin lock inside the semaphore: if the memory of the semaphore held anything but 0
  there, the initialisation succeeds, and every later \<open>sem_post\<close> below the limit spins for ever.
\<close>

theorem sem_init_leaves_spinlock:
  assumes "sem_spinlock (sems s sem) \<noteq> 0" and "uint val < 2 ^ 30 - 1"
    and "sem_init self sem 0 val s = (r, s')"
  shows "r = 0 \<and> sem_post compare_and_swap self sem s' = None"
proof -
  have "unat val \<le> 1073741822" using assms(2) uint_le_iff [of val 1073741822] by simp
  then have u: "unat val < 2 ^ 31" "unat val \<noteq> 2 ^ 30 - 1" by simp_all
  have r: "r = 0" "s' = upd_sem sem (sem_status_update (\<lambda>_. 2 * of_nat (unat val) + 1)) s"
    using assms(2,3) by (auto simp: sem_init_def push_bit_eq_mult mult.commute)
  then have st: "sem_status (sems s' sem) = 2 * of_nat (unat val) + 1" "sem_spinlock (sems s' sem) \<noteq> 0"
    using assms(1) by simp_all
  then have "\<not> sint (sem_status (sems s' sem)) \<ge> 2147483647"
    unfolding sint_max_iff using count_max_iff [OF u(1)] u(2) by simp
  then have "sem_post_claim compare_and_swap self sem s' = None"
    using st by (subst sem_post_claim.simps) (simp add: compare_and_swap_def Let_def)
  with r(1) show ?thesis by (simp add: sem_post_def)
qed

theorem sem_init_leaves_spinlock_witness:
  "sem_post compare_and_swap 8 0
     (snd (sem_init 8 0 0 5 (zero_st\<lparr>sems := (\<lambda>_. \<lparr>sem_status = 0, sem_spinlock = 7\<rparr>)\<rparr>))) = None"
  using sem_init_leaves_spinlock [of "zero_st\<lparr>sems := (\<lambda>_. \<lparr>sem_status = 0, sem_spinlock = 7\<rparr>)\<rparr>" 0 5 8 0
      "snd (sem_init 8 0 0 5 (zero_st\<lparr>sems := (\<lambda>_. \<lparr>sem_status = 0, sem_spinlock = 7\<rparr>)\<rparr>))"]
  by (simp add: sem_init_def)

text \<open>
  Between the reading of the status and the compare-and-swap the other threads may change the state: here the
  compare-and-swap takes place in the state \<open>g s\<close>, for any function \<open>g\<close>, every time that the loop comes to it.
\<close>

definition disturbed :: "(st \<Rightarrow> st) \<Rightarrow> sem_casfun \<Rightarrow> sem_casfun" where
  "disturbed g cas sem oldval newval s = cas sem oldval newval (g s)"

lemma casfun_eq:
  assumes "cas \<in> sem_casfuns" and "sem_spinlock (sems s sem) = 0"
  shows "cas sem oldval newval s = Some (sem_status (sems s sem) = oldval,
    if sem_status (sems s sem) = oldval then upd_sem sem (sem_status_update (\<lambda>_. newval)) s else s)"
  using assms faked.cas_eq [of s sem] sem_cas.cas_eq [OF i486.sem_cas_axioms, of sem oldval newval s]
    sem_cas.cas_eq [OF m68k_cas.sem_cas_axioms, of sem oldval newval s] unfolding sem_casfuns_def by auto

lemma mips_cas_hw:
  assumes "sem_status (sems s sem) \<noteq> oldval" and "newval \<noteq> 0"
  shows "compare_and_swap_hw (\<lambda>p a b. the (compare_and_swap_mips scs p a b)) sem oldval newval s = Some (True, s)"
proof -
  have "word_of_int (sint newval) = newval" by simp
  then have "sint newval \<noteq> 0" using assms(2) by (metis of_int_0)
  with assms(1) show ?thesis by (cases scs) (simp_all add: compare_and_swap_hw_def upd_sem_def fun_upd_idem)
qed

text \<open>
  C25. The compare-and-swap that is faked under a spin lock and those with the instructions of the i486 and the m68k make the
  same semaphore. Each of them compares with the status at the time of the exchange, stores the new value if and only if
  it is the expected one, and says so, whatever the other threads have done to the state since it was
  read, as long as they leave the spin lock free; and every operation of \<open>semaphore.c\<close> that uses it, retries
  included, has the same result and leaves the same state with any two of them. The one of MIPS is different: when the
  status is not the expected one, it stores nothing and reports success if the new value is not 0.
\<close>

theorem sem_ports_agree:
  assumes "cas \<in> sem_casfuns" and "cas' \<in> sem_casfuns" and "\<And>s p. sem_spinlock (sems (g s) p) = 0"
  shows "disturbed g cas sem oldval newval s = Some (sem_status (sems (g s) sem) = oldval,
      if sem_status (sems (g s) sem) = oldval then upd_sem sem (sem_status_update (\<lambda>_. newval)) (g s) else g s) \<and>
    sem_trywait (disturbed g cas) self sem s = sem_trywait (disturbed g cas') self sem s \<and>
    sem_post (disturbed g cas) self sem s = sem_post (disturbed g cas') self sem s \<and>
    sem_wait (disturbed g cas) E self sem s = sem_wait (disturbed g cas') E self sem s \<and>
    (sem_status (sems (g s) sem) \<noteq> oldval \<and> newval \<noteq> 0 \<longrightarrow>
      disturbed g (compare_and_swap_hw (\<lambda>p a b. the (compare_and_swap_mips scs p a b))) sem oldval newval s = Some (True, g s))"
proof -
  have eq: "disturbed g c = (\<lambda>sem oldval newval s. Some (sem_status (sems (g s) sem) = oldval,
      if sem_status (sems (g s) sem) = oldval then upd_sem sem (sem_status_update (\<lambda>_. newval)) (g s) else g s))"
    if "c \<in> sem_casfuns" for c using casfun_eq [OF that assms(3)] by (intro ext) (simp add: disturbed_def)
  show ?thesis unfolding eq [OF assms(1)] eq [OF assms(2)] by (simp add: disturbed_def mips_cas_hw)
qed

text \<open>For the witness: when thread 24 has read the count 1 and wants to take it, another thread is quicker.\<close>

definition take_first :: "st \<Rightarrow> st" where
  "take_first s = s\<lparr>sems := (\<lambda>_. \<lparr>sem_status = 1, sem_spinlock = 0\<rparr>)\<rparr>"

theorem sem_ports_agree_witness:
  "disturbed take_first compare_and_swap 0 3 1 zero_st = Some (False, take_first zero_st) \<and>
    sem_trywait (disturbed take_first compare_and_swap) 24 0 zero_st =
      sem_trywait (disturbed take_first (compare_and_swap_hw compare_and_swap_m68k)) 24 0 zero_st \<and>
    disturbed take_first (compare_and_swap_hw (\<lambda>p a b. the (compare_and_swap_mips [True] p a b))) 0 3 1 zero_st =
      Some (True, take_first zero_st)"
  using sem_ports_agree [of compare_and_swap "compare_and_swap_hw compare_and_swap_m68k" take_first 0 3 1 zero_st 24 prompt_env "[True]"]
  by (simp add: sem_casfuns_def take_first_def)

end
