(* ===== verification/Semaphore_Concurrent.thy ===== *)
theory Semaphore_Concurrent
  imports Semaphore
begin

unbundle bit_operations_syntax

text \<open>
  Any number of threads on one semaphore. A thread moves between the control points of \<open>sem_wait\<close>,
  \<open>sem_trywait\<close> and \<open>sem_post\<close>; a step is one reading of the status word with what is computed from it, one
  compare-and-swap, one access to a link of the list, one signal sent by \<open>restart\<close>, or one signal received
  in \<open>sigsuspend\<close>. The local variables \<open>oldstatus\<close> and \<open>newstatus\<close> are arguments of the control points.
  Between the reading and the compare-and-swap the other threads may do anything: they may empty the list,
  and even build up another one that begins with the same thread.

  The restart signal is pending for a thread (\<open>s_sig\<close>) from the call of \<open>restart\<close> until its handler has run;
  cancellation is not among the steps here. \<open>s_posts\<close> and \<open>s_waits\<close> count the increments and decrements
  that have succeeded.
\<close>

datatype spc =
    SIdle
  | SWaitRead | SWaitCas "32 word" "32 word" | SSleeping
  | STryRead | STryCas "32 word" "32 word"
  | SPostRead | SPostCas "32 word" "32 word"
  | SWakeNext pthread_t | SWakeClear pthread_t pthread_t | SWakeRestart pthread_t pthread_t

record ssys =
  s_st :: st
  s_ctl :: "pthread_t \<Rightarrow> spc"
  s_sig :: "pthread_t \<Rightarrow> bool"
  s_posts :: nat
  s_waits :: nat

abbreviation s_status :: "addr \<Rightarrow> ssys \<Rightarrow> 32 word" where
  "s_status sem x \<equiv> sem_status (sems (s_st x) sem)"

inductive sstep :: "sem_casfun \<Rightarrow> addr \<Rightarrow> ssys \<Rightarrow> ssys \<Rightarrow> bool" for cas sem where
  wait_call: "s_ctl x t = SIdle \<Longrightarrow> even t \<Longrightarrow> t \<noteq> NULL \<Longrightarrow>
     sstep cas sem x (x\<lparr>s_ctl := (s_ctl x)(t := SWaitRead)\<rparr>)"
| wait_read_count: "s_ctl x t = SWaitRead \<Longrightarrow> s_status sem x AND 1 \<noteq> 0 \<Longrightarrow> s_status sem x \<noteq> 1 \<Longrightarrow>
     sstep cas sem x (x\<lparr>s_ctl := (s_ctl x)(t := SWaitCas (s_status sem x) (s_status sem x - 2))\<rparr>)"
| wait_read_list: "s_ctl x t = SWaitRead \<Longrightarrow> s_status sem x AND 1 = 0 \<or> s_status sem x = 1 \<Longrightarrow>
     sstep cas sem x (x\<lparr>s_st := upd_th t (p_nextwaiting_update (\<lambda>_. s_status sem x)) (s_st x),
       s_ctl := (s_ctl x)(t := SWaitCas (s_status sem x) t)\<rparr>)"
| wait_retry: "s_ctl x t = SWaitCas old new \<Longrightarrow> cas sem old new (s_st x) = Some (False, s') \<Longrightarrow>
     sstep cas sem x (x\<lparr>s_st := s', s_ctl := (s_ctl x)(t := SWaitRead)\<rparr>)"
| wait_done: "s_ctl x t = SWaitCas old new \<Longrightarrow> cas sem old new (s_st x) = Some (True, s') \<Longrightarrow> new AND 1 \<noteq> 0 \<Longrightarrow>
     sstep cas sem x (x\<lparr>s_st := s', s_ctl := (s_ctl x)(t := SIdle), s_waits := s_waits x + 1\<rparr>)"
| wait_block: "s_ctl x t = SWaitCas old new \<Longrightarrow> cas sem old new (s_st x) = Some (True, s') \<Longrightarrow> new AND 1 = 0 \<Longrightarrow>
     sstep cas sem x (x\<lparr>s_st := s', s_ctl := (s_ctl x)(t := SSleeping)\<rparr>)"
| wait_woken: "s_ctl x t = SSleeping \<Longrightarrow> s_sig x t \<Longrightarrow> deliver t PTHREAD_SIG_RESTART (s_st x) = (H_return, s') \<Longrightarrow>
     sstep cas sem x (x\<lparr>s_st := s', s_ctl := (s_ctl x)(t := SWaitRead), s_sig := (s_sig x)(t := False)\<rparr>)"
| try_call: "s_ctl x t = SIdle \<Longrightarrow> even t \<Longrightarrow> t \<noteq> NULL \<Longrightarrow>
     sstep cas sem x (x\<lparr>s_ctl := (s_ctl x)(t := STryRead)\<rparr>)"
| try_fail: "s_ctl x t = STryRead \<Longrightarrow> s_status sem x AND 1 = 0 \<or> s_status sem x = 1 \<Longrightarrow>
     sstep cas sem x (x\<lparr>s_st := set_errno t EAGAIN (s_st x), s_ctl := (s_ctl x)(t := SIdle)\<rparr>)"
| try_read: "s_ctl x t = STryRead \<Longrightarrow> s_status sem x AND 1 \<noteq> 0 \<Longrightarrow> s_status sem x \<noteq> 1 \<Longrightarrow>
     sstep cas sem x (x\<lparr>s_ctl := (s_ctl x)(t := STryCas (s_status sem x) (s_status sem x - 2))\<rparr>)"
| try_retry: "s_ctl x t = STryCas old new \<Longrightarrow> cas sem old new (s_st x) = Some (False, s') \<Longrightarrow>
     sstep cas sem x (x\<lparr>s_st := s', s_ctl := (s_ctl x)(t := STryRead)\<rparr>)"
| try_done: "s_ctl x t = STryCas old new \<Longrightarrow> cas sem old new (s_st x) = Some (True, s') \<Longrightarrow>
     sstep cas sem x (x\<lparr>s_st := s', s_ctl := (s_ctl x)(t := SIdle), s_waits := s_waits x + 1\<rparr>)"
| post_call: "s_ctl x t = SIdle \<Longrightarrow> even t \<Longrightarrow> t \<noteq> NULL \<Longrightarrow>
     sstep cas sem x (x\<lparr>s_ctl := (s_ctl x)(t := SPostRead)\<rparr>)"
| post_range: "s_ctl x t = SPostRead \<Longrightarrow> s_status sem x AND 1 \<noteq> 0 \<Longrightarrow> sint (s_status sem x) \<ge> SEM_VALUE_MAX \<Longrightarrow>
     sstep cas sem x (x\<lparr>s_st := set_errno t ERANGE (s_st x), s_ctl := (s_ctl x)(t := SIdle)\<rparr>)"
| post_read: "s_ctl x t = SPostRead \<Longrightarrow> s_status sem x AND 1 = 0 \<or> sint (s_status sem x) < SEM_VALUE_MAX \<Longrightarrow>
     sstep cas sem x (x\<lparr>s_ctl := (s_ctl x)(t := SPostCas (s_status sem x)
       (if s_status sem x AND 1 = 0 then 3 else s_status sem x + 2))\<rparr>)"
| post_retry: "s_ctl x t = SPostCas old new \<Longrightarrow> cas sem old new (s_st x) = Some (False, s') \<Longrightarrow>
     sstep cas sem x (x\<lparr>s_st := s', s_ctl := (s_ctl x)(t := SPostRead)\<rparr>)"
| post_done: "s_ctl x t = SPostCas old new \<Longrightarrow> cas sem old new (s_st x) = Some (True, s') \<Longrightarrow>
     sstep cas sem x (x\<lparr>s_st := s', s_ctl := (s_ctl x)(t := if old AND 1 = 0 then SWakeNext old else SIdle),
       s_posts := s_posts x + 1\<rparr>)"
| wake_next: "s_ctl x t = SWakeNext th \<Longrightarrow>
     sstep cas sem x (x\<lparr>s_ctl := (s_ctl x)(t := SWakeClear th (p_nextwaiting (descr (s_st x) th)))\<rparr>)"
| wake_clear: "s_ctl x t = SWakeClear th next_th \<Longrightarrow>
     sstep cas sem x (x\<lparr>s_st := upd_th th (p_nextwaiting_update (\<lambda>_. NULL)) (s_st x),
       s_ctl := (s_ctl x)(t := SWakeRestart th next_th)\<rparr>)"
| wake_restart: "s_ctl x t = SWakeRestart th next_th \<Longrightarrow>
     sstep cas sem x (x\<lparr>s_st := restart th (s_st x), s_sig := (s_sig x)(th := True),
       s_ctl := (s_ctl x)(t := if next_th \<noteq> 1 then SWakeNext next_th else SIdle)\<rparr>)"

text \<open>
  Initially the semaphore holds a count \<open>n\<close> that \<open>sem_init\<close> accepts, as after its call, and no thread is in an operation.
\<close>

definition sstart :: "addr \<Rightarrow> nat \<Rightarrow> ssys \<Rightarrow> bool" where
  "sstart sem n x \<longleftrightarrow> int n \<le> SEM_VALUE_MAX \<and> sems (s_st x) sem = \<lparr>sem_status = 2 * of_nat n + 1, sem_spinlock = 0\<rparr> \<and>
     (\<forall>t. \<not> p_signal_jmp (descr (s_st x) t)) \<and> s_ctl x = (\<lambda>_. SIdle) \<and> s_sig x = (\<lambda>_. False) \<and>
     s_posts x = 0 \<and> s_waits x = 0"

inductive sreach :: "sem_casfun \<Rightarrow> addr \<Rightarrow> nat \<Rightarrow> ssys \<Rightarrow> bool" for cas sem n where
  start: "sstart sem n x \<Longrightarrow> sreach cas sem n x"
| step: "sreach cas sem n x \<Longrightarrow> sstep cas sem x y \<Longrightarrow> sreach cas sem n y"

section \<open>The invariant\<close>

text \<open>
  Where a thread is that sleeps in \<open>sem_wait\<close>: in the list of the semaphore, in the list that another
  thread has taken from there in \<open>sem_post\<close>, or on its way back with a pending signal.
\<close>

datatype place = Awake | Listed | Taken_by pthread_t | Signalled

text \<open>The threads that a thread in \<open>sem_post\<close> has still to restart.\<close>

definition wake_list :: "heap \<Rightarrow> spc \<Rightarrow> pthread_t list \<Rightarrow> bool" where
  "wake_list h c l = (case c of
     SWakeNext th \<Rightarrow> l \<noteq> [] \<and> chain (nextwaiting h) 1 th l
   | SWakeClear th next_th \<Rightarrow> (\<exists>l'. l = th # l' \<and> chain (nextwaiting h) 1 next_th l')
   | SWakeRestart th next_th \<Rightarrow> (\<exists>l'. l = th # l' \<and> chain (nextwaiting h) 1 next_th l')
   | _ \<Rightarrow> l = [])"

text \<open>What a thread knows when it comes to its compare-and-swap.\<close>

definition cas_ok :: "heap \<Rightarrow> pthread_t \<Rightarrow> spc \<Rightarrow> bool" where
  "cas_ok h t c = (case c of
     SWaitCas old new \<Rightarrow> if odd old \<and> old \<noteq> 1 then new = old - 2 else new = t \<and> p_nextwaiting (h t) = old
   | STryCas old new \<Rightarrow> odd old \<and> old \<noteq> 1 \<and> new = old - 2
   | SPostCas old new \<Rightarrow> if even old then new = 3 else old \<noteq> 0x7fffffff \<and> new = old + 2
   | _ \<Rightarrow> True)"

lemmas spc_defs = wake_list_def cas_ok_def

definition sem_inv :: "addr \<Rightarrow> ssys \<Rightarrow> nat \<Rightarrow> pthread_t list \<Rightarrow> (pthread_t \<Rightarrow> pthread_t list) \<Rightarrow> (pthread_t \<Rightarrow> place) \<Rightarrow> bool" where
  "sem_inv sem x n q W pl \<longleftrightarrow>
     is_sem (descr (s_st x)) (s_status sem x) n q \<and> n < 2 ^ 30 \<and>
     (\<forall>u. wake_list (descr (s_st x)) (s_ctl x u) (W u) \<and> distinct (W u)) \<and>
     (\<forall>t. t \<in> set q \<longleftrightarrow> pl t = Listed) \<and> (\<forall>t u. t \<in> set (W u) \<longleftrightarrow> pl t = Taken_by u) \<and>
     (\<forall>t. s_sig x t \<longleftrightarrow> pl t = Signalled) \<and> (\<forall>t. s_ctl x t = SSleeping \<longleftrightarrow> pl t \<noteq> Awake) \<and>
     (\<forall>t. s_ctl x t \<noteq> SIdle \<longrightarrow> even t \<and> t \<noteq> NULL) \<and>
     (\<forall>t. cas_ok (descr (s_st x)) t (s_ctl x t)) \<and> (\<forall>t. \<not> p_signal_jmp (descr (s_st x) t))"

lemma sem_invD:
  assumes "sem_inv sem x n q W pl"
  shows "is_sem (descr (s_st x)) (s_status sem x) n q" and "n < 2 ^ 30"
    and "wake_list (descr (s_st x)) (s_ctl x u) (W u)" and "distinct (W u)"
    and "t \<in> set q \<longleftrightarrow> pl t = Listed" and "t \<in> set (W u) \<longleftrightarrow> pl t = Taken_by u"
    and "s_sig x t \<longleftrightarrow> pl t = Signalled" and "s_ctl x t = SSleeping \<longleftrightarrow> pl t \<noteq> Awake"
    and "s_ctl x t \<noteq> SIdle \<Longrightarrow> even t \<and> t \<noteq> NULL" and "cas_ok (descr (s_st x)) t (s_ctl x t)"
    and "\<not> p_signal_jmp (descr (s_st x) t)"
  using assms by (simp_all add: sem_inv_def)

lemma sem_invI:
  assumes "is_sem (descr (s_st x)) (s_status sem x) n q" and "n < 2 ^ 30"
    and "\<And>u. wake_list (descr (s_st x)) (s_ctl x u) (W u)" and "\<And>u. distinct (W u)"
    and "\<And>t. t \<in> set q \<longleftrightarrow> pl t = Listed" and "\<And>t u. t \<in> set (W u) \<longleftrightarrow> pl t = Taken_by u"
    and "\<And>t. s_sig x t \<longleftrightarrow> pl t = Signalled" and "\<And>t. s_ctl x t = SSleeping \<longleftrightarrow> pl t \<noteq> Awake"
    and "\<And>t. s_ctl x t \<noteq> SIdle \<Longrightarrow> even t \<and> t \<noteq> NULL" and "\<And>t. cas_ok (descr (s_st x)) t (s_ctl x t)"
    and "\<And>t. \<not> p_signal_jmp (descr (s_st x) t)"
  shows "sem_inv sem x n q W pl"
  using assms by (simp add: sem_inv_def)

lemma sem_inv_start: "sstart sem n x \<Longrightarrow> n < 2 ^ 30 \<Longrightarrow> sem_inv sem x n [] (\<lambda>_. []) (\<lambda>_. Awake)"
  by (simp add: sstart_def sem_inv_def spc_defs is_sem_countI)

lemma wake_list_cong:
  assumes "\<And>u. u \<in> set l \<Longrightarrow> p_nextwaiting (h' u) = p_nextwaiting (h u)"
  shows "wake_list h' c l = wake_list h c l"
  using assms chain_cong [of l "nextwaiting h'" "nextwaiting h" 1]
    chain_cong [of "tl l" "nextwaiting h'" "nextwaiting h" 1]
  by (cases l) (auto simp: wake_list_def split: spc.splits)

lemma cas_ok_cong: "p_nextwaiting (h' t) = p_nextwaiting (h t) \<Longrightarrow> cas_ok h' t c = cas_ok h t c"
  by (simp add: cas_ok_def split: spc.splits)

text \<open>A thread that does not sleep moves, and may change its own link and the count.\<close>

lemma sem_inv_move:
  assumes inv: "sem_inv sem x n q W pl" and t: "s_ctl x t \<noteq> SSleeping"
    and y: "s_ctl y = (s_ctl x)(t := c)" "s_sig y = s_sig x"
    and h: "\<And>u. u \<noteq> t \<Longrightarrow> p_nextwaiting (descr (s_st y) u) = p_nextwaiting (descr (s_st x) u)"
      "\<And>u. \<not> p_signal_jmp (descr (s_st y) u)"
    and m: "is_sem (descr (s_st x)) (s_status sem y) m q" "m < 2 ^ 30"
    and c: "c \<noteq> SSleeping" "c \<noteq> SIdle \<Longrightarrow> even t \<and> t \<noteq> NULL" "wake_list (descr (s_st x)) c (W t)"
      "cas_ok (descr (s_st y)) t c"
  shows "sem_inv sem y m q W pl"
proof -
  have a: "pl t = Awake" using sem_invD(8) [OF inv, of t] t by simp
  then have "t \<notin> set q" "t \<notin> set (W u)" for u using sem_invD(5,6) [OF inv] by auto
  then have "is_sem (descr (s_st y)) (s_status sem y) m q" "wake_list (descr (s_st y)) d (W u) = wake_list (descr (s_st x)) d (W u)" for d u
    using m is_sem_cong [of q "descr (s_st y)" "descr (s_st x)"] h(1)
      wake_list_cong [of "W u" "descr (s_st y)" "descr (s_st x)"] by metis+
  note keep = this
  have co: "cas_ok (descr (s_st y)) u (s_ctl y u)" for u
    using c(4) h(1) [of u] cas_ok_cong [of "descr (s_st y)" u "descr (s_st x)"] sem_invD(10) [OF inv, of u] by (cases "u = t") (simp_all add: y)
  show ?thesis
  proof (rule sem_invI)
    show "wake_list (descr (s_st y)) (s_ctl y u) (W u)" for u
      using sem_invD(3) [OF inv, of u] c(3) by (cases "u = t") (simp_all add: keep(2) y(1))
    show "s_ctl y u = SSleeping \<longleftrightarrow> pl u \<noteq> Awake" for u
      using sem_invD(8) [OF inv, of u] c(1) a by (cases "u = t") (simp_all add: y(1))
    show "s_ctl y u \<noteq> SIdle \<Longrightarrow> even u \<and> u \<noteq> NULL" for u
      using sem_invD(9) [OF inv, of u] c(2) by (cases "u = t") (simp_all add: y(1))
  qed (use sem_invD(4-7) [OF inv] keep(1) m(2) h(2) co y(2) in simp_all)
qed

text \<open>A thread enters the list of the semaphore.\<close>

lemma sem_inv_block:
  assumes inv: "sem_inv sem x 0 q W pl" and t: "s_ctl x t = SWaitCas old t" "even old \<or> old = 1" "s_status sem x = old"
    and y: "s_ctl y = (s_ctl x)(t := SSleeping)" "s_sig y = s_sig x" "descr (s_st y) = descr (s_st x)" "s_status sem y = t"
  shows "sem_inv sem y 0 (t # q) W (pl(t := Listed))"
proof -
  have a: "pl t = Awake" using sem_invD(8) [OF inv, of t] t by simp
  then have n: "t \<notin> set q" "t \<notin> set (W u)" for u using sem_invD(5,6) [OF inv] by auto
  have e: "even t" "t \<noteq> NULL" using sem_invD(9) [OF inv, of t] t by auto
  have "p_nextwaiting (descr (s_st x) t) = old" using sem_invD(10) [OF inv, of t] t by (auto simp: cas_ok_def split: if_splits)
  then have "is_sem (descr (s_st x)) t 0 (t # q)"
    using is_sem_push [of "descr (s_st x)" old q t "descr (s_st x)"] sem_invD(1) [OF inv] e n t by auto
  moreover have "W t = []" using sem_invD(3) [OF inv, of t] t by (simp add: wake_list_def)
  ultimately show ?thesis
    using inv y e n a unfolding sem_inv_def by (auto simp: spc_defs)
qed

text \<open>A thread takes over the list of the semaphore.\<close>

lemma sem_inv_take:
  assumes inv: "sem_inv sem x 0 q W pl" and t: "s_ctl x t = SPostCas old new" "even old" "s_status sem x = old"
    and y: "s_ctl y = (s_ctl x)(t := SWakeNext old)" "s_sig y = s_sig x" "descr (s_st y) = descr (s_st x)" "s_status sem y = 3"
  shows "sem_inv sem y 1 [] (W(t := q)) (\<lambda>u. if u \<in> set q then Taken_by t else pl u)"
proof -
  have w: "W t = []" using sem_invD(3) [OF inv, of t] t by (simp add: wake_list_def)
  then have "pl u \<noteq> Taken_by t" for u using sem_invD(6) [OF inv, of u t] by simp
  moreover have "is_sem (descr (s_st x)) 3 1 []" by (simp add: is_sem_def)
  moreover have "chain (nextwaiting (descr (s_st x))) 1 old q" using sem_invD(1) [OF inv] t by (simp add: is_sem_def)
  moreover have "q \<noteq> []" using is_sem_odd [OF sem_invD(1) [OF inv]] t by auto
  moreover note chain_distinct [OF calculation(3)]
  moreover have "pl t = Awake" "even t" "t \<noteq> NULL" using sem_invD(8,9) [OF inv, of t] t by auto
  ultimately show ?thesis
    using inv y w unfolding sem_inv_def by (auto simp: spc_defs)
qed

text \<open>The poster clears the link of a thread and restarts it; the restarted thread wakes up.\<close>

lemma sem_inv_clear:
  assumes inv: "sem_inv sem x n q W pl" and t: "s_ctl x t = SWakeClear th next_th"
    and y: "s_ctl y = (s_ctl x)(t := SWakeRestart th next_th)" "s_sig y = s_sig x" "s_status sem y = s_status sem x"
    and h: "\<And>u. u \<noteq> th \<Longrightarrow> p_nextwaiting (descr (s_st y) u) = p_nextwaiting (descr (s_st x) u)"
      "\<And>u. \<not> p_signal_jmp (descr (s_st y) u)"
  shows "sem_inv sem y n q W pl"
proof -
  obtain l where l: "W t = th # l" "chain (nextwaiting (descr (s_st x))) 1 next_th l" "th \<notin> set l"
    using sem_invD(3,4) [OF inv, of t] t by (auto simp: wake_list_def)
  then have p: "pl th = Taken_by t" using sem_invD(6) [OF inv, of th t] by simp
  then have n: "th \<notin> set q" "u \<noteq> t \<Longrightarrow> th \<notin> set (W u)" "s_ctl x th = SSleeping" for u
    using sem_invD(5,6,8) [OF inv] by auto
  have se: "is_sem (descr (s_st y)) (s_status sem y) n q"
    using sem_invD(1) [OF inv] is_sem_cong [of q "descr (s_st y)" "descr (s_st x)"] h(1) n(1) y(3) by metis
  have "chain (nextwaiting (descr (s_st y))) 1 next_th l"
    using l chain_cong [of l "nextwaiting (descr (s_st y))" "nextwaiting (descr (s_st x))"] h(1) by metis
  then have wl: "wake_list (descr (s_st y)) (s_ctl y u) (W u)" for u
    using sem_invD(3) [OF inv, of u] wake_list_cong [of "W u" "descr (s_st y)" "descr (s_st x)"] h(1) n(2) l(1) y(1)
    by (cases "u = t") (simp add: wake_list_def, metis fun_upd_apply)
  have "cas_ok (descr (s_st y)) u (s_ctl y u)" for u
  proof (cases "u = t \<or> u = th")
    case True
    then show ?thesis using n(3) y(1) by (auto simp: cas_ok_def)
  next
    case False
    then show ?thesis using sem_invD(10) [OF inv, of u] h(1) [of u] cas_ok_cong [of "descr (s_st y)" u "descr (s_st x)"] y(1) by simp
  qed
  note co = this
  show ?thesis
  proof (rule sem_invI)
    show "s_ctl y u = SSleeping \<longleftrightarrow> pl u \<noteq> Awake" for u
      using sem_invD(8) [OF inv, of u] t by (cases "u = t") (simp_all add: y(1))
    show "s_ctl y u \<noteq> SIdle \<Longrightarrow> even u \<and> u \<noteq> NULL" for u
      using sem_invD(9) [OF inv, of u] t by (cases "u = t") (simp_all add: y(1))
  qed (use sem_invD(2,4-7) [OF inv] se wl co h(2) y(2) in simp_all)
qed

lemma sem_inv_restart:
  assumes inv: "sem_inv sem x n q W pl" and t: "s_ctl x t = SWakeRestart th next_th"
    and y: "s_ctl y = (s_ctl x)(t := if next_th \<noteq> 1 then SWakeNext next_th else SIdle)" "s_sig y = (s_sig x)(th := True)"
      "descr (s_st y) = descr (s_st x)" "s_status sem y = s_status sem x"
  shows "sem_inv sem y n q (W(t := tl (W t))) (pl(th := Signalled))"
proof -
  obtain l where l: "W t = th # l" "chain (nextwaiting (descr (s_st x))) 1 next_th l" "th \<notin> set l" "distinct l"
    using sem_invD(3,4) [OF inv, of t] t by (auto simp: wake_list_def)
  then have p: "pl th = Taken_by t" using sem_invD(6) [OF inv, of th t] by simp
  then have n: "th \<notin> set q" "u \<noteq> t \<Longrightarrow> th \<notin> set (W u)" "s_ctl x th = SSleeping" for u
    using sem_invD(5,6,8) [OF inv] by auto
  have "wake_list (descr (s_st x)) (if next_th \<noteq> 1 then SWakeNext next_th else SIdle) l"
    using l(2) by (auto simp: wake_list_def chain_not_stop)
  moreover have "u \<in> set l \<longleftrightarrow> (pl(th := Signalled)) u = Taken_by t" for u
    using sem_invD(6) [OF inv, of u t] l by auto
  moreover have "even t" "t \<noteq> NULL" using sem_invD(9) [OF inv, of t] t by auto
  moreover have "pl t = Awake" using sem_invD(8) [OF inv, of t] t by simp
  ultimately show ?thesis
    using inv y l n p t unfolding sem_inv_def by (auto simp: cas_ok_def)
qed

lemma sem_inv_woken:
  assumes inv: "sem_inv sem x n q W pl" and t: "s_ctl x t = SSleeping" "s_sig x t"
    and y: "s_ctl y = (s_ctl x)(t := SWaitRead)" "s_sig y = (s_sig x)(t := False)" "s_status sem y = s_status sem x"
    and h: "\<And>u. p_nextwaiting (descr (s_st y) u) = p_nextwaiting (descr (s_st x) u)" "\<And>u. \<not> p_signal_jmp (descr (s_st y) u)"
  shows "sem_inv sem y n q W (pl(t := Awake))"
proof -
  have p: "pl t = Signalled" using sem_invD(7) [OF inv, of t] t by simp
  moreover have "W t = []" using sem_invD(3) [OF inv, of t] t by (simp add: wake_list_def)
  moreover have "even t" "t \<noteq> NULL" using sem_invD(9) [OF inv, of t] t by auto
  moreover have "is_sem (descr (s_st y)) (s_status sem y) n q" "wake_list (descr (s_st y)) d (W u) = wake_list (descr (s_st x)) d (W u)"
    "cas_ok (descr (s_st y)) u d = cas_ok (descr (s_st x)) u d" for d u
    using sem_invD(1) [OF inv] y(3) h(1) is_sem_cong [of q "descr (s_st y)" "descr (s_st x)"]
      wake_list_cong [of "W u" "descr (s_st y)" "descr (s_st x)"] cas_ok_cong [of "descr (s_st y)" u] by metis+
  ultimately show ?thesis
    using inv y h(2) unfolding sem_inv_def by (auto simp: spc_defs)
qed

lemma is_sem_dec:
  assumes "is_sem h status n q" and "odd status" and "status \<noteq> 1"
  shows "is_sem h (status - 2) (n - 1) q" and "0 < n"
proof -
  show n: "0 < n" using is_sem_one [OF assms(1)] assms by simp
  then obtain k where k: "n = Suc k" by (cases n) auto
  then have "status = 2 * of_nat k + 1 + 2" "q = []" "k < 2 ^ 31" using assms(1) by (auto simp: is_sem_def)
  then show "is_sem h (status - 2) (n - 1) q" using is_sem_countI [of k h] k by (simp add: add.commute)
qed

lemma is_sem_inc:
  assumes "is_sem h status n q" and "odd status" and "status \<noteq> 0x7fffffff" and "n < 2 ^ 30"
  shows "is_sem h (status + 2) (n + 1) q" and "n + 1 < 2 ^ 30"
proof -
  have q: "q = []" using is_sem_odd [OF assms(1)] assms(2) by simp
  then have s: "status = 2 * of_nat n + 1" using is_sem_count assms(1) by simp
  then have "n \<noteq> 2 ^ 30 - 1" using assms(3,4) count_max_iff [of n] by simp
  with assms(4) show "n + 1 < 2 ^ 30" by simp
  then show "is_sem h (status + 2) (n + 1) q" using is_sem_countI [of "n + 1" h] q s by (simp add: algebra_simps)
qed

lemma is_sem_list:
  assumes "is_sem h status n q" and "even status \<or> status = 1"
  shows "n = 0"
  using is_sem_one [OF assms(1)] assms(2) by auto

section \<open>Every step keeps the invariant\<close>

text \<open>What a step keeps: the invariant, for some values of its parameters, and the balance of the count.\<close>

definition keeps :: "(sem_t \<Rightarrow> bool) \<Rightarrow> addr \<Rightarrow> nat \<Rightarrow> ssys \<Rightarrow> ssys \<Rightarrow> bool" where
  "keeps ready sem n x y \<longleftrightarrow> ready (sems (s_st y) sem) \<and>
     (\<exists>m q W pl. sem_inv sem y m q W pl \<and> m + s_waits y + s_posts x = n + s_waits x + s_posts y)"

lemma keepsI:
  "sem_inv sem y m q W pl \<Longrightarrow> ready (sems (s_st y) sem) \<Longrightarrow>
    m + s_waits y + s_posts x = n + s_waits x + s_posts y \<Longrightarrow> keeps ready sem n x y"
  by (auto simp: keeps_def)

text \<open>A thread that neither sleeps nor restarts others moves to such a control point.\<close>

lemma keeps_move:
  assumes inv: "sem_inv sem x n q W pl" and t: "s_ctl x t \<noteq> SSleeping" "wake_list (descr (s_st x)) (s_ctl x t) (W t) \<Longrightarrow> W t = []"
    and y: "s_ctl y = (s_ctl x)(t := c)" "s_sig y = s_sig x" "ready (sems (s_st y) sem)"
    and h: "\<And>u. u \<noteq> t \<Longrightarrow> p_nextwaiting (descr (s_st y) u) = p_nextwaiting (descr (s_st x) u)"
      "\<And>u. p_signal_jmp (descr (s_st y) u) = p_signal_jmp (descr (s_st x) u)"
    and m: "is_sem (descr (s_st x)) (s_status sem y) m q" "m < 2 ^ 30" "m + s_waits y + s_posts x = n + s_waits x + s_posts y"
    and c: "c \<noteq> SSleeping" "c \<noteq> SIdle \<Longrightarrow> even t \<and> t \<noteq> NULL" "wake_list (descr (s_st x)) c []" "cas_ok (descr (s_st y)) t c"
  shows "keeps ready sem n x y"
proof -
  have "W t = []" using t(2) sem_invD(3) [OF inv] by simp
  with c(3) have "wake_list (descr (s_st x)) c (W t)" by simp
  note sem_inv_move [OF inv t(1) y(1,2) h(1) _ m(1,2) c(1,2) this c(4)]
  then show ?thesis using sem_invD(11) [OF inv] h(2) y(3) m(3) by (blast intro: keepsI)
qed

context sem_cas
begin

lemma cas_failed: "ready (sems s sem) \<Longrightarrow> cas sem old new s = Some (False, s') \<Longrightarrow> s' = s"
  by (simp add: cas_eq split: if_splits)

lemma cas_succeeded:
  "ready (sems s sem) \<Longrightarrow> cas sem old new s = Some (True, s') \<Longrightarrow>
    sem_status (sems s sem) = old \<and> s' = upd_sem sem (sem_status_update (\<lambda>_. new)) s"
  by (cases "sem_status (sems s sem) = old") (auto simp: cas_eq)

lemma step_keeps:
  assumes "sstep cas sem x y" and "sem_inv sem x n q W pl" and "ready (sems (s_st x) sem)"
  shows "keeps ready sem n x y"
  using assms
proof (induction rule: sstep.induct)
  case (wait_call x t)
  show ?case
    by (rule keeps_move [OF wait_call.prems(1), of t _ SWaitRead])
      (use wait_call sem_invD(1,2) [OF wait_call.prems(1)] in \<open>auto simp: spc_defs\<close>)
next
  case (wait_read_count x t)
  show ?case
    by (rule keeps_move [OF wait_read_count.prems(1), of t])
      (use wait_read_count sem_invD(1,2,9) [OF wait_read_count.prems(1)] in \<open>auto simp: spc_defs\<close>)
next
  case (wait_read_list x t)
  show ?case
    by (rule keeps_move [OF wait_read_list.prems(1), of t])
      (use wait_read_list sem_invD(1,2,9) [OF wait_read_list.prems(1)] in \<open>auto simp: spc_defs\<close>)
next
  case (wait_retry x t old new s')
  then have "s' = s_st x" using cas_failed by simp
  then show ?case
    by (intro keeps_move [OF wait_retry.prems(1), of t])
      (use wait_retry sem_invD(1,2,9) [OF wait_retry.prems(1)] in \<open>auto simp: spc_defs\<close>)
next
  case (wait_done x t old new s')
  note D = sem_invD [OF wait_done.prems(1)]
  have s: "s_status sem x = old" "s' = upd_sem sem (sem_status_update (\<lambda>_. new)) (s_st x)"
    using wait_done cas_succeeded by auto
  have o: "odd old" "old \<noteq> 1" "new = old - 2"
    using D(10) [of t] D(9) [of t] wait_done by (auto simp: cas_ok_def split: if_splits)
  note d = is_sem_dec [OF D(1) o(1,2) [folded s(1)]]
  show ?case
    by (rule keeps_move [OF wait_done.prems(1), of t _ SIdle, where m = "n - 1"])
      (use wait_done s o d D(2) in \<open>auto simp: spc_defs ready_upd\<close>)
next
  case (wait_block x t old new s')
  note D = sem_invD [OF wait_block.prems(1)]
  have s: "s_status sem x = old" "s' = upd_sem sem (sem_status_update (\<lambda>_. new)) (s_st x)"
    using wait_block cas_succeeded by auto
  have o: "even old \<or> old = 1" "new = t"
    using D(10) [of t] wait_block by (auto simp: cas_ok_def split: if_splits)
  have "n = 0" using is_sem_list [OF D(1)] s o by simp
  with wait_block.prems(1) have "sem_inv sem x 0 q W pl" by simp
  from sem_inv_block [OF this, of t old "x\<lparr>s_st := s', s_ctl := (s_ctl x)(t := SSleeping)\<rparr>"] show ?case
    using wait_block s o \<open>n = 0\<close> by (intro keepsI) (auto simp: ready_upd)
next
  case (wait_woken x t s')
  note same = deliver_restart_same [OF wait_woken.hyps(3)]
  show ?case
    by (rule keepsI [OF sem_inv_woken [OF wait_woken.prems(1) wait_woken.hyps(1,2)]])
      (use wait_woken same sem_invD(11) [OF wait_woken.prems(1)] in auto)
next
  case (try_call x t)
  show ?case
    by (rule keeps_move [OF try_call.prems(1), of t _ STryRead])
      (use try_call sem_invD(1,2) [OF try_call.prems(1)] in \<open>auto simp: spc_defs\<close>)
next
  case (try_fail x t)
  show ?case
    by (rule keeps_move [OF try_fail.prems(1), of t _ SIdle])
      (use try_fail sem_invD(1,2,9) [OF try_fail.prems(1)] in \<open>auto simp: spc_defs\<close>)
next
  case (try_read x t)
  show ?case
    by (rule keeps_move [OF try_read.prems(1), of t])
      (use try_read sem_invD(1,2,9) [OF try_read.prems(1)] in \<open>auto simp: spc_defs\<close>)
next
  case (try_retry x t old new s')
  then have "s' = s_st x" using cas_failed by simp
  then show ?case
    by (intro keeps_move [OF try_retry.prems(1), of t])
      (use try_retry sem_invD(1,2,9) [OF try_retry.prems(1)] in \<open>auto simp: spc_defs\<close>)
next
  case (try_done x t old new s')
  note D = sem_invD [OF try_done.prems(1)]
  have s: "s_status sem x = old" "s' = upd_sem sem (sem_status_update (\<lambda>_. new)) (s_st x)"
    using try_done cas_succeeded by auto
  have o: "odd old" "old \<noteq> 1" "new = old - 2" using D(10) [of t] try_done by (auto simp: cas_ok_def)
  note d = is_sem_dec [OF D(1) o(1,2) [folded s(1)]]
  show ?case
    by (rule keeps_move [OF try_done.prems(1), of t _ SIdle, where m = "n - 1"])
      (use try_done s o d D(2) in \<open>auto simp: spc_defs ready_upd\<close>)
next
  case (post_call x t)
  show ?case
    by (rule keeps_move [OF post_call.prems(1), of t _ SPostRead])
      (use post_call sem_invD(1,2) [OF post_call.prems(1)] in \<open>auto simp: spc_defs\<close>)
next
  case (post_range x t)
  show ?case
    by (rule keeps_move [OF post_range.prems(1), of t _ SIdle])
      (use post_range sem_invD(1,2,9) [OF post_range.prems(1)] in \<open>auto simp: spc_defs\<close>)
next
  case (post_read x t)
  show ?case
    by (rule keeps_move [OF post_read.prems(1), of t])
      (use post_read sem_invD(1,2,9) [OF post_read.prems(1)] in \<open>auto simp: spc_defs\<close>)
next
  case (post_retry x t old new s')
  then have "s' = s_st x" using cas_failed by simp
  then show ?case
    by (intro keeps_move [OF post_retry.prems(1), of t])
      (use post_retry sem_invD(1,2,9) [OF post_retry.prems(1)] in \<open>auto simp: spc_defs\<close>)
next
  case (post_done x t old new s')
  note D = sem_invD [OF post_done.prems(1)]
  have s: "s_status sem x = old" "s' = upd_sem sem (sem_status_update (\<lambda>_. new)) (s_st x)"
    using post_done cas_succeeded by auto
  show ?case
  proof (cases "even old")
    case True
    then have "n = 0" "new = 3" using is_sem_list [OF D(1)] s D(10) [of t] post_done by (auto simp: cas_ok_def)
    then have "sem_inv sem x 0 q W pl" using post_done.prems(1) by simp
    from sem_inv_take [OF this post_done.hyps(1) True s(1), of "x\<lparr>s_st := s', s_ctl := (s_ctl x)(t := SWakeNext old), s_posts := s_posts x + 1\<rparr>"]
    show ?thesis
      using post_done s True \<open>n = 0\<close> \<open>new = 3\<close> by (intro keepsI) (auto simp: ready_upd)
  next
    case False
    then have o: "old \<noteq> 0x7fffffff" "new = old + 2" using D(10) [of t] post_done by (auto simp: cas_ok_def)
    note d = is_sem_inc [OF D(1) _ _ D(2)]
    show ?thesis
      by (rule keeps_move [OF post_done.prems(1), of t _ SIdle, where m = "n + 1"])
        (use post_done s o d False in \<open>auto simp: spc_defs ready_upd\<close>)
  qed
next
  case (wake_next x t th)
  note D = sem_invD [OF wake_next.prems(1)]
  have w: "wake_list (descr (s_st x)) (SWakeClear th (p_nextwaiting (descr (s_st x) th))) (W t)"
    using D(3) [of t] wake_next by (cases "W t") (auto simp: wake_list_def)
  show ?case
    by (rule keepsI [OF sem_inv_move [OF wake_next.prems(1), of t _ "SWakeClear th (p_nextwaiting (descr (s_st x) th))"]])
      (use wake_next w D(1,2,9,11) in \<open>auto simp: cas_ok_def\<close>)
next
  case (wake_clear x t th next_th)
  show ?case
    by (rule keepsI [OF sem_inv_clear [OF wake_clear.prems(1) wake_clear.hyps]])
      (use wake_clear sem_invD(11) [OF wake_clear.prems(1)] in auto)
next
  case (wake_restart x t th next_th)
  show ?case
    by (rule keepsI [OF sem_inv_restart [OF wake_restart.prems(1) wake_restart.hyps]])
      (use wake_restart in auto)
qed

lemma reach_inv:
  assumes "sreach cas sem n0 x" and "\<And>v. ready \<lparr>sem_status = v, sem_spinlock = 0\<rparr>" and "n0 < 2 ^ 30"
  shows "ready (sems (s_st x) sem) \<and> (\<exists>n q W pl. sem_inv sem x n q W pl \<and> n + s_waits x = n0 + s_posts x)"
  using assms(1)
proof (induction rule: sreach.induct)
  case (start x)
  then show ?case using sem_inv_start [OF start assms(3)] assms(2) by (auto simp: sstart_def)
next
  case (step x y)
  then obtain n q W pl where i: "sem_inv sem x n q W pl" "n + s_waits x = n0 + s_posts x" "ready (sems (s_st x) sem)" by blast
  obtain m q' W' pl' where "sem_inv sem y m q' W' pl'" "m + s_waits y + s_posts x = n + s_waits x + s_posts y"
    "ready (sems (s_st y) sem)" using step_keeps [OF step.hyps(2) i(1,3)] by (auto simp: keeps_def)
  moreover from this(2) i(2) have "m + s_waits y = n0 + s_posts y" by simp
  ultimately show ?case by blast
qed

lemma cas_returns: "ready (sems s sem) \<Longrightarrow> \<exists>ok s'. cas sem old new s = Some (ok, s')"
  by (simp add: cas_eq)

end

section \<open>Progress\<close>

definition s_moves :: "sem_casfun \<Rightarrow> addr \<Rightarrow> ssys \<Rightarrow> pthread_t \<Rightarrow> bool" where
  "s_moves cas sem x u \<longleftrightarrow> s_ctl x u \<noteq> SIdle \<and> (\<exists>y. sstep cas sem x y \<and> s_ctl y u \<noteq> s_ctl x u)"

lemma s_movesI: "sstep cas sem x y \<Longrightarrow> s_ctl x u \<noteq> SIdle \<Longrightarrow> s_ctl y u \<noteq> s_ctl x u \<Longrightarrow> s_moves cas sem x u"
  by (auto simp: s_moves_def)

text \<open>A thread in an operation can move, unless it sleeps without a signal.\<close>

lemma s_moves_awake:
  assumes cas: "\<And>old new. \<exists>ok s'. cas sem old new (s_st x) = Some (ok, s')"
    and t: "s_ctl x t \<noteq> SIdle" "s_ctl x t \<noteq> SSleeping"
  shows "s_moves cas sem x t"
proof (cases "s_ctl x t")
  case SWaitRead
  then show ?thesis
    using s_movesI [OF sstep.wait_read_count [OF SWaitRead, of sem cas], of t]
      s_movesI [OF sstep.wait_read_list [OF SWaitRead, of sem cas], of t] by fastforce
next
  case (SWaitCas old new)
  obtain ok s' where "cas sem old new (s_st x) = Some (ok, s')" using cas by blast
  then show ?thesis
    using s_movesI [OF sstep.wait_retry [OF SWaitCas, of cas sem s'], of t] s_movesI [OF sstep.wait_done [OF SWaitCas, of cas sem s'], of t]
      s_movesI [OF sstep.wait_block [OF SWaitCas, of cas sem s'], of t] SWaitCas by (cases ok) auto
next
  case STryRead
  then show ?thesis
    using s_movesI [OF sstep.try_fail [OF STryRead, of sem cas], of t]
      s_movesI [OF sstep.try_read [OF STryRead, of sem cas], of t] by fastforce
next
  case (STryCas old new)
  obtain ok s' where "cas sem old new (s_st x) = Some (ok, s')" using cas by blast
  then show ?thesis
    using s_movesI [OF sstep.try_retry [OF STryCas, of cas sem s'], of t] s_movesI [OF sstep.try_done [OF STryCas, of cas sem s'], of t]
      STryCas by (cases ok) auto
next
  case SPostRead
  show ?thesis
  proof (cases "s_status sem x AND 1 \<noteq> 0 \<and> sint (s_status sem x) \<ge> SEM_VALUE_MAX")
    case True
    then show ?thesis using s_movesI [OF sstep.post_range [OF SPostRead, of sem cas], of t] SPostRead by simp
  next
    case False
    then show ?thesis using s_movesI [OF sstep.post_read [OF SPostRead, of sem cas], of t] SPostRead by auto
  qed
next
  case (SPostCas old new)
  obtain ok s' where "cas sem old new (s_st x) = Some (ok, s')" using cas by blast
  then show ?thesis
    using s_movesI [OF sstep.post_retry [OF SPostCas, of cas sem s'], of t] s_movesI [OF sstep.post_done [OF SPostCas, of cas sem s'], of t]
      SPostCas by (cases ok) auto
next
  case (SWakeNext th)
  then show ?thesis using s_movesI [OF sstep.wake_next [OF SWakeNext, of cas sem], of t] by simp
next
  case (SWakeClear th next_th)
  then show ?thesis using s_movesI [OF sstep.wake_clear [OF SWakeClear, of cas sem], of t] by simp
next
  case (SWakeRestart th next_th)
  then show ?thesis using s_movesI [OF sstep.wake_restart [OF SWakeRestart, of cas sem], of t] by simp
qed (use t in simp_all)

lemma s_moves_signalled:
  assumes "\<not> p_signal_jmp (descr (s_st x) t)" and t: "s_ctl x t = SSleeping" "s_sig x t"
  shows "s_moves cas sem x t"
proof -
  have "\<exists>s'. deliver t PTHREAD_SIG_RESTART (s_st x) = (H_return, s')"
    using assms(1) by (simp add: deliver_def pthread_sighandler_def upd_th_def)
  then obtain s' where "deliver t PTHREAD_SIG_RESTART (s_st x) = (H_return, s')" ..
  from s_movesI [OF sstep.wait_woken [OF t this, of cas sem], of t] t show ?thesis by simp
qed

section \<open>Properties\<close>

lemma sreach_inv:
  assumes "cas \<in> sem_casfuns" and "sreach cas sem n0 x" and "n0 < 2 ^ 30"
  obtains n q W pl where "sem_inv sem x n q W pl" and "n + s_waits x = n0 + s_posts x"
    and "\<And>old new. \<exists>ok s'. cas sem old new (s_st x) = Some (ok, s')"
proof -
  consider "cas = compare_and_swap" | "cas = compare_and_swap_hw compare_and_swap_i486"
    | "cas = compare_and_swap_hw compare_and_swap_m68k" using assms(1) by (auto simp: sem_casfuns_def)
  then have "(\<exists>n q W pl. sem_inv sem x n q W pl \<and> n + s_waits x = n0 + s_posts x) \<and>
    (\<forall>old new. \<exists>ok s'. cas sem old new (s_st x) = Some (ok, s'))"
  proof cases
    case 1
    then show ?thesis using faked.reach_inv [of sem n0 x] faked.cas_returns assms(2,3) by auto
  next
    case 2
    then show ?thesis using i486.reach_inv [of sem n0 x] i486.cas_returns assms(2,3) by auto
  next
    case 3
    then show ?thesis using m68k_cas.reach_inv [of sem n0 x] m68k_cas.cas_returns assms(2,3) by auto
  qed
  then show thesis using that by blast
qed

text \<open>For the witnesses: an execution after which thread 8 sleeps on a semaphore with the count 0.\<close>

definition s_first :: ssys where
  "s_first = \<lparr>s_st = zero_st\<lparr>sems := (\<lambda>_. \<lparr>sem_status = 1, sem_spinlock = 0\<rparr>)\<rparr>, s_ctl = (\<lambda>_. SIdle),
     s_sig = (\<lambda>_. False), s_posts = 0, s_waits = 0\<rparr>"

lemma s_sleeper:
  "\<exists>x. sreach compare_and_swap 0 0 x \<and> s_ctl x = (\<lambda>_. SIdle)(8 := SSleeping) \<and> s_sig x = (\<lambda>_. False) \<and> s_posts x = 0 \<and> s_waits x = 0"
proof -
  define x1 where "x1 = s_first\<lparr>s_ctl := (s_ctl s_first)(8 := SWaitRead)\<rparr>"
  define x2 where "x2 = x1\<lparr>s_st := upd_th 8 (p_nextwaiting_update (\<lambda>_. s_status 0 x1)) (s_st x1),
    s_ctl := (s_ctl x1)(8 := SWaitCas (s_status 0 x1) 8)\<rparr>"
  define s' where "s' = upd_sem 0 (sem_status_update (\<lambda>_. 8)) (s_st x2)"
  define x3 where "x3 = x2\<lparr>s_st := s', s_ctl := (s_ctl x2)(8 := SSleeping)\<rparr>"
  have "sreach compare_and_swap 0 0 s_first"
    by (rule sreach.start) (simp add: sstart_def s_first_def zero_st_def zero_descr_def)
  moreover have "sstep compare_and_swap 0 s_first x1"
    unfolding x1_def by (rule sstep.wait_call) (simp_all add: s_first_def)
  moreover have "sstep compare_and_swap 0 x1 x2"
    unfolding x2_def by (rule sstep.wait_read_list) (simp_all add: x1_def s_first_def)
  moreover have "compare_and_swap 0 1 8 (s_st x2) = Some (True, s')"
    using faked.cas_eq [of "s_st x2" 0 1 8] by (simp add: s'_def x2_def x1_def s_first_def)
  then have "sstep compare_and_swap 0 x2 x3"
    unfolding x3_def by (intro sstep.wait_block [of _ _ 1 8]) (simp_all add: x2_def x1_def s_first_def)
  ultimately have "sreach compare_and_swap 0 0 x3" by (blast intro: sreach.step)
  then show ?thesis by (intro exI [of _ x3]) (auto simp: x3_def x2_def x1_def s_first_def)
qed

text \<open>
  C4. The count of a semaphore is exact, whatever the interleaving of the threads. At any time of any
  execution the value of \<open>sem_getvalue\<close> and the number of successful calls of \<open>sem_wait\<close> and \<open>sem_trywait\<close>
  add up to the initial count and the number of successful calls of \<open>sem_post\<close>; in particular no more threads
  get through than there are units. The spin lock of the semaphore is free at first, and the initial count is less than 2 to the 30, the limit at which \<open>sem_post\<close>
  refuses to go on; \<open>sem_init\<close> also accepts larger ones, from which the status word can overflow, as \<open>sem_post_limits\<close> shows.
\<close>

theorem sem_concurrent_count:
  assumes "cas \<in> sem_casfuns" and "sreach cas sem n0 x" and "n0 < 2 ^ 30"
  shows "\<exists>v. sem_getvalue sem (s_st x) = (0, int v) \<and> v + s_waits x = n0 + s_posts x"
  using sreach_inv [OF assms] sem_getvalue_count sem_invD(1) by metis

theorem sem_concurrent_count_witness:
  "\<exists>x. sreach compare_and_swap 0 0 x \<and> s_ctl x 8 = SSleeping \<and> sem_getvalue 0 (s_st x) = (0, 0)"
proof -
  obtain x where x: "sreach compare_and_swap 0 0 x" "s_ctl x 8 = SSleeping" "s_posts x = 0"
    using s_sleeper by fastforce
  with sem_concurrent_count [of compare_and_swap 0 0 x] show ?thesis by (auto simp: sem_casfuns_def)
qed

text \<open>
  C5. No wake-up is lost and the operations of a semaphore never block each other. When a thread is in an
  operation, some thread in an operation can take a step, or the count is 0 and the thread sleeps in
  the list that begins in the status word, where the next \<open>sem_post\<close> finds it. So no thread sleeps
  while the count is positive, unless another is about to restart it. The initial count is less than 2 to the 30.
\<close>

theorem sem_no_lost_wakeup:
  assumes "cas \<in> sem_casfuns" and "sreach cas sem n0 x" and "n0 < 2 ^ 30" and "s_ctl x t \<noteq> SIdle"
  shows "(\<exists>u. s_moves cas sem x u) \<or>
    s_ctl x t = SSleeping \<and> sem_getvalue sem (s_st x) = (0, 0) \<and>
    (\<exists>q. chain (nextwaiting (descr (s_st x))) 1 (s_status sem x) q \<and> t \<in> set q)"
proof -
  obtain n q W pl where i: "sem_inv sem x n q W pl" "\<And>old new. \<exists>ok s'. cas sem old new (s_st x) = Some (ok, s')"
    using sreach_inv [OF assms(1-3)] by metis
  note D = sem_invD [OF i(1)]
  show ?thesis
  proof (cases "pl t")
    case Awake
    then have "s_ctl x t \<noteq> SSleeping" using D(8) [of t] by simp
    then show ?thesis using s_moves_awake [of cas sem x t] i(2) assms(4) by blast
  next
    case Listed
    then have l: "t \<in> set q" using D(5) [of t] by simp
    then have "n = 0" using D(1) by (auto simp: is_sem_def split: if_splits)
    with l D(1) sem_getvalue_count [OF D(1)] D(8) [of t] Listed show ?thesis by (auto simp: is_sem_def)
  next
    case (Taken_by u)
    then have "W u \<noteq> []" using D(6) [of t u] by auto
    then have "s_ctl x u \<noteq> SIdle" "s_ctl x u \<noteq> SSleeping" using D(3) [of u] by (auto simp: wake_list_def)
    then show ?thesis using s_moves_awake [of cas sem x u] i(2) by blast
  next
    case Signalled
    then show ?thesis using s_moves_signalled [of x t cas sem] D(7,8) [of t] D(11) [of t] by auto
  qed
qed

theorem sem_no_lost_wakeup_witness:
  "\<exists>x. sreach compare_and_swap 0 0 x \<and> s_ctl x 8 = SSleeping \<and>
    ((\<exists>u. s_moves compare_and_swap 0 x u) \<or> sem_getvalue 0 (s_st x) = (0, 0))"
proof -
  obtain x where x: "sreach compare_and_swap 0 0 x" "s_ctl x 8 = SSleeping" using s_sleeper by fastforce
  with sem_no_lost_wakeup [of compare_and_swap 0 0 x 8] show ?thesis by (auto simp: sem_casfuns_def)
qed

end
