(* ===== verification/Keys.thy ===== *)
theory Keys
  imports Mutex
begin

text \<open>
  Thread-specific data (\<open>specific.c\<close>): the table of keys, protected by the mutex
  \<open>pthread_keys_mutex\<close>, and the array \<open>p_specific\<close> of every thread. A key is an \<open>unsigned int\<close>, here a
  natural number.
\<close>

text \<open>The loop of \<open>__pthread_key_create\<close>: the first index from \<open>i\<close> on whose entry is not in use.\<close>

function key_search :: "pthread_key_struct list \<Rightarrow> nat \<Rightarrow> nat option" where
  "key_search ks i =
     (if i < PTHREAD_KEYS_MAX
      then if \<not> in_use (ks ! i) then Some i else key_search ks (i + 1)
      else None)"
  by pat_completeness auto
termination
  by (relation "measure (\<lambda>(ks, i). PTHREAD_KEYS_MAX - i)") auto

declare key_search.simps [simp del]

definition pthread_key_create :: "env \<Rightarrow> pthread_t \<Rightarrow> addr \<Rightarrow> st \<Rightarrow> (int \<times> nat option) res" where
  "pthread_key_create E self destr_fn s =
     and_then (pthread_mutex_lock E self (pthread_keys_mutex s) s) (\<lambda>_ s.
       case key_search (pthread_keys s) 0 of
         Some i \<Rightarrow> do {
           let s = s\<lparr>pthread_keys := (pthread_keys s)[i := \<lparr>in_use = True, destr = destr_fn\<rparr>]\<rparr>;
           (_, s) \<leftarrow> pthread_mutex_unlock (pthread_keys_mutex s) s;
           Some (Ret (0, Some i), s) }
       | None \<Rightarrow> do {
           (_, s) \<leftarrow> pthread_mutex_unlock (pthread_keys_mutex s) s;
           Some (Ret (EAGAIN, None), s) })"

definition pthread_key_delete :: "env \<Rightarrow> pthread_t \<Rightarrow> nat \<Rightarrow> st \<Rightarrow> int res" where
  "pthread_key_delete E self key s =
     and_then (pthread_mutex_lock E self (pthread_keys_mutex s) s) (\<lambda>_ s.
       if key \<ge> PTHREAD_KEYS_MAX \<or> \<not> in_use (pthread_keys s ! key) then do {
         (_, s) \<leftarrow> pthread_mutex_unlock (pthread_keys_mutex s) s;
         Some (Ret EINVAL, s) }
       else do {
         let s = s\<lparr>pthread_keys := (pthread_keys s)[key := \<lparr>in_use = False, destr = NULL\<rparr>]\<rparr>;
         (_, s) \<leftarrow> pthread_mutex_unlock (pthread_keys_mutex s) s;
         Some (Ret 0, s) })"

definition pthread_setspecific :: "pthread_t \<Rightarrow> nat \<Rightarrow> addr \<Rightarrow> st \<Rightarrow> int \<times> st" where
  "pthread_setspecific self key pointer s =
     (if key \<ge> PTHREAD_KEYS_MAX then (EINVAL, s)
      else (0, upd_th self (\<lambda>d. d\<lparr>p_specific := (p_specific d)[key := pointer]\<rparr>) s))"

definition pthread_getspecific :: "pthread_t \<Rightarrow> nat \<Rightarrow> st \<Rightarrow> addr" where
  "pthread_getspecific self key s =
     (if key \<ge> PTHREAD_KEYS_MAX then NULL else p_specific (descr s self) ! key)"

text \<open>The loop of \<open>__pthread_destroy_specifics\<close>, from the key \<open>i\<close> on.\<close>

function destroy_specifics_from :: "env \<Rightarrow> pthread_t \<Rightarrow> nat \<Rightarrow> st \<Rightarrow> st" where
  "destroy_specifics_from E self i s =
     (if i < PTHREAD_KEYS_MAX then
        let f = destr (pthread_keys s ! i);
            data = p_specific (descr s self) ! i
        in destroy_specifics_from E self (i + 1)
             (if f \<noteq> NULL \<and> data \<noteq> NULL then snd (call_env E f data s) else s)
      else s)"
  by pat_completeness auto
termination
  by (relation "measure (\<lambda>(E, self, i, s). PTHREAD_KEYS_MAX - i)") auto

declare destroy_specifics_from.simps [simp del]

definition pthread_destroy_specifics :: "env \<Rightarrow> pthread_t \<Rightarrow> st \<Rightarrow> st" where
  "pthread_destroy_specifics E self s = destroy_specifics_from E self 0 s"

section \<open>The search for a free key\<close>

lemma key_search_Some:
  "key_search ks i = Some k \<Longrightarrow>
    i \<le> k \<and> k < PTHREAD_KEYS_MAX \<and> \<not> in_use (ks ! k) \<and> (\<forall>j. i \<le> j \<and> j < k \<longrightarrow> in_use (ks ! j))"
proof (induction ks i rule: key_search.induct)
  case (1 ks i)
  show ?case
  proof (cases "i < PTHREAD_KEYS_MAX \<and> in_use (ks ! i)")
    case True
    with 1 have "Suc i \<le> k \<and> k < PTHREAD_KEYS_MAX \<and> \<not> in_use (ks ! k) \<and>
        (\<forall>j. Suc i \<le> j \<and> j < k \<longrightarrow> in_use (ks ! j))" by (simp add: key_search.simps [of ks i])
    with True show ?thesis by (auto, metis Suc_leI le_neq_implies_less)
  next
    case False
    with 1 show ?thesis by (auto simp: key_search.simps [of ks i] split: if_splits)
  qed
qed

lemma key_search_None:
  "key_search ks i = None \<Longrightarrow> i \<le> j \<Longrightarrow> j < PTHREAD_KEYS_MAX \<Longrightarrow> in_use (ks ! j)"
proof (induction ks i rule: key_search.induct)
  case (1 ks i)
  then have "i < PTHREAD_KEYS_MAX" by simp
  with 1 show ?case
    by (cases "i = j") (auto simp: key_search.simps [of ks i] key_search.simps [of ks j] split: if_splits)
qed

section \<open>Sections under the mutex of the keys\<close>

text \<open>
  With the mutex free, a section \<open>lock; change of the table; unlock\<close> leaves the mutex as it was and
  has only the effect of the change.
\<close>

lemma fast_lock_free:
  assumes "mutexes s mu = PTHREAD_MUTEX_INITIALIZER"
  shows "pthread_mutex_lock E self mu s =
    Some (Ret 0, upd_mutex mu (\<lambda>_. PTHREAD_MUTEX_INITIALIZER\<lparr>m_count := 1\<rparr>) s)"
  by (rule mutex_lock_immediate)
    (use assms in \<open>simp add: pthread_mutex_lock_attempt_def acquire_mutex_eq mutex_lock_body_def
      upd_mutex_def release_mutex_def PTHREAD_MUTEX_INITIALIZER_def\<close>)

lemma fast_unlock_free:
  assumes "mutexes s mu = PTHREAD_MUTEX_INITIALIZER\<lparr>m_count := 1\<rparr>"
  shows "pthread_mutex_unlock mu s = Some (0, upd_mutex mu (\<lambda>_. PTHREAD_MUTEX_INITIALIZER) s)"
  using assms
  by (simp add: pthread_mutex_unlock_def acquire_mutex_eq mutex_unlock_body_def dequeue_def
      upd_mutex_def release_mutex_def PTHREAD_MUTEX_INITIALIZER_def Let_def)

lemma fast_section:
  assumes "mutexes s mu = PTHREAD_MUTEX_INITIALIZER"
  shows "upd_mutex mu (\<lambda>_. PTHREAD_MUTEX_INITIALIZER) ((upd_mutex mu h s)\<lparr>pthread_keys := ks\<rparr>) =
      s\<lparr>pthread_keys := ks\<rparr>"
    and "upd_mutex mu (\<lambda>_. PTHREAD_MUTEX_INITIALIZER) (upd_mutex mu h s) = s"
  using assms by (cases s; simp add: upd_mutex_def fun_upd_idem)+

lemma fast_unlock_simps:
  "pthread_mutex_unlock mu (upd_mutex mu (\<lambda>_. PTHREAD_MUTEX_INITIALIZER\<lparr>m_count := 1\<rparr>) s) =
     Some (0, upd_mutex mu (\<lambda>_. PTHREAD_MUTEX_INITIALIZER) (upd_mutex mu (\<lambda>_. PTHREAD_MUTEX_INITIALIZER\<lparr>m_count := 1\<rparr>) s))"
  "pthread_mutex_unlock mu ((upd_mutex mu (\<lambda>_. PTHREAD_MUTEX_INITIALIZER\<lparr>m_count := 1\<rparr>) s)\<lparr>pthread_keys := ks\<rparr>) =
     Some (0, upd_mutex mu (\<lambda>_. PTHREAD_MUTEX_INITIALIZER)
       ((upd_mutex mu (\<lambda>_. PTHREAD_MUTEX_INITIALIZER\<lparr>m_count := 1\<rparr>) s)\<lparr>pthread_keys := ks\<rparr>))"
  by (rule fast_unlock_free, simp)+

text \<open>The operations with the mutex free, as functions on the table.\<close>

lemma key_create_eq:
  assumes "mutexes s (pthread_keys_mutex s) = PTHREAD_MUTEX_INITIALIZER"
  shows "pthread_key_create E self f s =
    (case key_search (pthread_keys s) 0 of
       Some i \<Rightarrow> Some (Ret (0, Some i), s\<lparr>pthread_keys := (pthread_keys s)[i := \<lparr>in_use = True, destr = f\<rparr>]\<rparr>)
     | None \<Rightarrow> Some (Ret (EAGAIN, None), s))"
  by (simp add: pthread_key_create_def fast_lock_free [OF assms] fast_unlock_simps fast_section [OF assms]
      split: option.splits)

lemma key_delete_eq:
  assumes "mutexes s (pthread_keys_mutex s) = PTHREAD_MUTEX_INITIALIZER"
  shows "pthread_key_delete E self key s =
    (if key \<ge> PTHREAD_KEYS_MAX \<or> \<not> in_use (pthread_keys s ! key) then Some (Ret EINVAL, s)
     else Some (Ret 0, s\<lparr>pthread_keys := (pthread_keys s)[key := \<lparr>in_use = False, destr = NULL\<rparr>]\<rparr>))"
  by (simp add: pthread_key_delete_def fast_lock_free [OF assms] fast_unlock_simps fast_section [OF assms])

section \<open>Properties\<close>

text \<open>The table of keys and the array of the thread have the declared size.\<close>

definition keys_wf :: "pthread_t \<Rightarrow> st \<Rightarrow> bool" where
  "keys_wf self s \<longleftrightarrow>
     length (pthread_keys s) = PTHREAD_KEYS_MAX \<and> length (p_specific (descr s self)) = PTHREAD_KEYS_MAX \<and>
     mutexes s (pthread_keys_mutex s) = PTHREAD_MUTEX_INITIALIZER"

lemma keys_wf_zero: "keys_wf self zero_st"
  by (simp add: keys_wf_def zero_st_def zero_descr_def)

text \<open>
  \<open>pthread_key_create\<close> allocates the smallest key that is not in use and gives it the destructor;
  it fails with \<open>EAGAIN\<close> exactly when all keys are in use, and then changes nothing.
\<close>

theorem key_create_smallest_free:
  assumes "keys_wf self s"
  shows "(\<exists>k s'. pthread_key_create E self f s = Some (Ret (0, Some k), s') \<and> k < PTHREAD_KEYS_MAX \<and>
      \<not> in_use (pthread_keys s ! k) \<and> (\<forall>j < k. in_use (pthread_keys s ! j)) \<and>
      pthread_keys s' ! k = \<lparr>in_use = True, destr = f\<rparr> \<and>
      (\<forall>j. j \<noteq> k \<longrightarrow> pthread_keys s' ! j = pthread_keys s ! j) \<and> keys_wf self s') \<or>
    (pthread_key_create E self f s = Some (Ret (EAGAIN, None), s) \<and>
      (\<forall>j < PTHREAD_KEYS_MAX. in_use (pthread_keys s ! j)))"
proof (cases "key_search (pthread_keys s) 0")
  case None
  with assms show ?thesis
    using key_search_None [OF None] by (simp add: key_create_eq keys_wf_def)
next
  case (Some k)
  with assms show ?thesis
    using key_search_Some [OF Some] by (simp add: key_create_eq keys_wf_def)
qed

theorem key_create_smallest_free_witness:
  "\<exists>k s'. pthread_key_create prompt_env 8 12 zero_st = Some (Ret (0, Some k), s') \<and>
    pthread_keys s' ! k = \<lparr>in_use = True, destr = 12\<rparr>"
proof -
  have "\<not> in_use (pthread_keys zero_st ! 0)" "0 < PTHREAD_KEYS_MAX" by (simp_all add: zero_st_def)
  with key_create_smallest_free [OF keys_wf_zero, of prompt_env 8 12] show ?thesis by blast
qed

text \<open>
  The value a thread stores under a key is the value it reads back, and storing it changes
  neither the value under any other key nor any value of another thread; keys outside the table are
  refused with \<open>EINVAL\<close>.
\<close>

theorem setspecific_getspecific:
  assumes "keys_wf self s" and "pthread_setspecific self key v s = (r, s')"
  shows "(r = 0 \<longleftrightarrow> key < PTHREAD_KEYS_MAX) \<and> (r = 0 \<or> r = EINVAL \<and> s' = s) \<and>
    (r = 0 \<longrightarrow> pthread_getspecific self key s' = v) \<and>
    (\<forall>k t. k \<noteq> key \<or> t \<noteq> self \<longrightarrow> pthread_getspecific t k s' = pthread_getspecific t k s)"
  using assms by (auto simp: pthread_setspecific_def pthread_getspecific_def keys_wf_def split: if_splits)

theorem setspecific_getspecific_witness:
  "pthread_getspecific 8 3 (snd (pthread_setspecific 8 3 77 zero_st)) = 77"
  using setspecific_getspecific [OF keys_wf_zero, of 8 3 77 0 "snd (pthread_setspecific 8 3 77 zero_st)"]
  by (simp add: pthread_setspecific_def)

text \<open>
  A deleted key and its values. Deleting a key and creating it again does not clear the value the
  thread has stored: the new key starts with the old value, although every thread should see NULL
  under a new key.
\<close>

theorem recreated_key_keeps_value:
  assumes "keys_wf self s" and "key < PTHREAD_KEYS_MAX" and "in_use (pthread_keys s ! key)"
    and "\<forall>j < key. in_use (pthread_keys s ! j)" and "pthread_getspecific self key s = v"
  shows "\<exists>s1 s2. pthread_key_delete E self key s = Some (Ret 0, s1) \<and>
    pthread_key_create E self f s1 = Some (Ret (0, Some key), s2) \<and> pthread_getspecific self key s2 = v"
proof -
  define s1 where "s1 = s\<lparr>pthread_keys := (pthread_keys s)[key := \<lparr>in_use = False, destr = NULL\<rparr>]\<rparr>"
  have len: "length (pthread_keys s) = PTHREAD_KEYS_MAX" using assms(1) by (simp add: keys_wf_def)
  have d: "pthread_key_delete E self key s = Some (Ret 0, s1)"
    using assms(1-3) by (simp add: key_delete_eq keys_wf_def s1_def)
  have "key_search (pthread_keys s1) 0 = Some key"
  proof (cases "key_search (pthread_keys s1) 0")
    case None
    from key_search_None [OF None, of key] assms(2) len show ?thesis by (simp add: s1_def)
  next
    case (Some k)
    from key_search_Some [OF Some] have "\<not> in_use (pthread_keys s1 ! k)" "\<not> key < k"
      using assms(2) len by (auto simp: s1_def)
    then have "k = key" using assms(4) by (cases "k < key") (simp_all add: s1_def)
    with Some show ?thesis by simp
  qed
  then have "pthread_key_create E self f s1 =
      Some (Ret (0, Some key), s1\<lparr>pthread_keys := (pthread_keys s1)[key := \<lparr>in_use = True, destr = f\<rparr>]\<rparr>)"
    using assms(1) by (simp add: key_create_eq keys_wf_def s1_def)
  moreover have "pthread_getspecific self key (s1\<lparr>pthread_keys := ks\<rparr>) = v" for ks
    using assms(5) by (auto simp: s1_def pthread_getspecific_def)
  ultimately show ?thesis using d by blast
qed

theorem recreated_key_keeps_value_witness:
  "\<exists>s s1 s2. pthread_getspecific 8 0 s = 77 \<and> pthread_key_delete prompt_env 8 0 s = Some (Ret 0, s1) \<and>
    pthread_key_create prompt_env 8 12 s1 = Some (Ret (0, Some 0), s2) \<and> pthread_getspecific 8 0 s2 = 77"
proof -
  define s where "s = zero_st\<lparr>pthread_keys := (pthread_keys zero_st)[0 := \<lparr>in_use = True, destr = NULL\<rparr>],
    descr := (\<lambda>_. zero_descr\<lparr>p_specific := (p_specific zero_descr)[0 := 77]\<rparr>)\<rparr>"
  have "keys_wf 8 s" "in_use (pthread_keys s ! 0)" "pthread_getspecific 8 0 s = 77"
    by (simp_all add: s_def keys_wf_def zero_st_def zero_descr_def pthread_getspecific_def)
  with recreated_key_keeps_value [of 8 s 0 77 prompt_env 12] show ?thesis by auto
qed

end
