(* ===== verification/Attr.thy ===== *)
theory Attr
  imports Pthread_Types
begin

text \<open>
  Thread attribute objects (\<open>attr.c\<close>). A setter returns its code and the new object; it leaves the
  object alone when it refuses the value. A getter returns its code and the value it stores.
\<close>

definition pthread_attr_init :: "pthread_attr_t \<Rightarrow> int \<times> pthread_attr_t" where
  "pthread_attr_init attr =
     (0, attr\<lparr>detachstate := PTHREAD_CREATE_JOINABLE, schedpolicy := SCHED_OTHER, sched_priority := 0,
              inheritsched := PTHREAD_EXPLICIT_SCHED, scope := PTHREAD_SCOPE_SYSTEM\<rparr>)"

definition pthread_attr_destroy :: "pthread_attr_t \<Rightarrow> int \<times> pthread_attr_t" where
  "pthread_attr_destroy attr = (0, attr)"

definition pthread_attr_setdetachstate :: "pthread_attr_t \<Rightarrow> int \<Rightarrow> int \<times> pthread_attr_t" where
  "pthread_attr_setdetachstate attr v =
     (if v < PTHREAD_CREATE_JOINABLE \<or> v > PTHREAD_CREATE_DETACHED then (EINVAL, attr)
      else (0, attr\<lparr>detachstate := v\<rparr>))"

definition pthread_attr_getdetachstate :: "pthread_attr_t \<Rightarrow> int \<times> int" where
  "pthread_attr_getdetachstate attr = (0, detachstate attr)"

definition pthread_attr_setschedparam :: "kern \<Rightarrow> pthread_attr_t \<Rightarrow> int \<Rightarrow> int \<times> pthread_attr_t" where
  "pthread_attr_setschedparam K attr prio =
     (let max_prio = sched_get_priority_max K (schedpolicy attr);
          min_prio = sched_get_priority_min K (schedpolicy attr)
      in if prio < min_prio \<or> prio > max_prio then (EINVAL, attr)
         else (0, attr\<lparr>sched_priority := prio\<rparr>))"

definition pthread_attr_getschedparam :: "pthread_attr_t \<Rightarrow> int \<times> int" where
  "pthread_attr_getschedparam attr = (0, sched_priority attr)"

definition pthread_attr_setschedpolicy :: "kern \<Rightarrow> pthread_attr_t \<Rightarrow> int \<Rightarrow> int \<times> pthread_attr_t" where
  "pthread_attr_setschedpolicy K attr policy =
     (if policy \<noteq> SCHED_OTHER \<and> policy \<noteq> SCHED_FIFO \<and> policy \<noteq> SCHED_RR then (EINVAL, attr)
      else if policy \<noteq> SCHED_OTHER \<and> geteuid_env K \<noteq> 0 then (ENOTSUP, attr)
      else (0, attr\<lparr>schedpolicy := policy\<rparr>))"

definition pthread_attr_getschedpolicy :: "pthread_attr_t \<Rightarrow> int \<times> int" where
  "pthread_attr_getschedpolicy attr = (0, schedpolicy attr)"

definition pthread_attr_setinheritsched :: "pthread_attr_t \<Rightarrow> int \<Rightarrow> int \<times> pthread_attr_t" where
  "pthread_attr_setinheritsched attr inherit =
     (if inherit \<noteq> PTHREAD_INHERIT_SCHED \<and> inherit \<noteq> PTHREAD_EXPLICIT_SCHED then (EINVAL, attr)
      else (0, attr\<lparr>inheritsched := inherit\<rparr>))"

definition pthread_attr_getinheritsched :: "pthread_attr_t \<Rightarrow> int \<times> int" where
  "pthread_attr_getinheritsched attr = (0, inheritsched attr)"

definition pthread_attr_setscope :: "pthread_attr_t \<Rightarrow> int \<Rightarrow> int \<times> pthread_attr_t" where
  "pthread_attr_setscope attr v =
     (if v = PTHREAD_SCOPE_SYSTEM then (0, attr\<lparr>scope := v\<rparr>)
      else if v = PTHREAD_SCOPE_PROCESS then (ENOTSUP, attr)
      else (EINVAL, attr))"

definition pthread_attr_getscope :: "pthread_attr_t \<Rightarrow> int \<times> int" where
  "pthread_attr_getscope attr = (0, scope attr)"

section \<open>Sequences of calls\<close>

text \<open>The setters as data, to speak about all programs that only use the interface.\<close>

datatype attr_op =
    SetDetach int | SetParam int | SetPolicy int | SetInherit int | SetScope int

fun attr_apply :: "kern \<Rightarrow> attr_op \<Rightarrow> pthread_attr_t \<Rightarrow> int \<times> pthread_attr_t" where
  "attr_apply K (SetDetach v) a = pthread_attr_setdetachstate a v"
| "attr_apply K (SetParam v) a = pthread_attr_setschedparam K a v"
| "attr_apply K (SetPolicy v) a = pthread_attr_setschedpolicy K a v"
| "attr_apply K (SetInherit v) a = pthread_attr_setinheritsched a v"
| "attr_apply K (SetScope v) a = pthread_attr_setscope a v"

fun attr_get :: "attr_op \<Rightarrow> pthread_attr_t \<Rightarrow> int \<times> int" where
  "attr_get (SetDetach v) a = pthread_attr_getdetachstate a"
| "attr_get (SetParam v) a = pthread_attr_getschedparam a"
| "attr_get (SetPolicy v) a = pthread_attr_getschedpolicy a"
| "attr_get (SetInherit v) a = pthread_attr_getinheritsched a"
| "attr_get (SetScope v) a = pthread_attr_getscope a"

fun attr_value :: "attr_op \<Rightarrow> int" where
  "attr_value (SetDetach v) = v" | "attr_value (SetParam v) = v" | "attr_value (SetPolicy v) = v"
| "attr_value (SetInherit v) = v" | "attr_value (SetScope v) = v"

text \<open>Two calls that concern the same field.\<close>

fun same_field :: "attr_op \<Rightarrow> attr_op \<Rightarrow> bool" where
  "same_field (SetDetach _) (SetDetach _) = True" | "same_field (SetParam _) (SetParam _) = True"
| "same_field (SetPolicy _) (SetPolicy _) = True" | "same_field (SetInherit _) (SetInherit _) = True"
| "same_field (SetScope _) (SetScope _) = True" | "same_field _ _ = False"

text \<open>
  The values the manager can rely on when it reads an attribute object. The priority has been checked against the
  policy that the object had when it was set; \<open>pthread_attr_setschedpolicy\<close> does not look at it again.
\<close>

definition policy_allowed :: "kern \<Rightarrow> int \<Rightarrow> bool" where
  "policy_allowed K p \<longleftrightarrow> p \<in> {SCHED_OTHER, SCHED_FIFO, SCHED_RR} \<and> (p \<noteq> SCHED_OTHER \<longrightarrow> geteuid_env K = 0)"

definition priority_allowed :: "kern \<Rightarrow> int \<Rightarrow> int \<Rightarrow> bool" where
  "priority_allowed K p prio \<longleftrightarrow> sched_get_priority_min K p \<le> prio \<and> prio \<le> sched_get_priority_max K p"

definition priority_valid :: "kern \<Rightarrow> int \<Rightarrow> bool" where
  "priority_valid K prio \<longleftrightarrow> prio = 0 \<or>
     (\<exists>p \<in> {SCHED_OTHER, SCHED_FIFO, SCHED_RR}. policy_allowed K p \<and> priority_allowed K p prio)"

lemma priority_validI: "policy_allowed K p \<Longrightarrow> priority_allowed K p prio \<Longrightarrow> priority_valid K prio"
  unfolding priority_valid_def policy_allowed_def by blast

definition attr_valid :: "kern \<Rightarrow> pthread_attr_t \<Rightarrow> bool" where
  "attr_valid K a \<longleftrightarrow>
     detachstate a \<in> {PTHREAD_CREATE_JOINABLE, PTHREAD_CREATE_DETACHED} \<and>
     policy_allowed K (schedpolicy a) \<and>
     priority_valid K (sched_priority a) \<and>
     inheritsched a \<in> {PTHREAD_INHERIT_SCHED, PTHREAD_EXPLICIT_SCHED} \<and>
     scope a = PTHREAD_SCOPE_SYSTEM"

lemmas attr_defs = pthread_attr_setdetachstate_def pthread_attr_getdetachstate_def
  pthread_attr_setschedparam_def pthread_attr_getschedparam_def pthread_attr_setschedpolicy_def
  pthread_attr_getschedpolicy_def pthread_attr_setinheritsched_def pthread_attr_getinheritsched_def
  pthread_attr_setscope_def pthread_attr_getscope_def Let_def

lemma attr_apply_valid: "attr_valid K a \<Longrightarrow> attr_valid K (snd (attr_apply K c a))"
proof (cases c)
  case (SetParam v)
  assume a: "attr_valid K a"
  then have "priority_allowed K (schedpolicy a) v \<Longrightarrow> priority_valid K v"
    by (intro priority_validI) (simp_all add: attr_valid_def)
  with a show ?thesis by (simp add: SetParam attr_defs attr_valid_def priority_allowed_def not_less)
qed (auto simp: attr_valid_def attr_defs policy_allowed_def)

lemma attr_fold_valid: "attr_valid K a \<Longrightarrow> attr_valid K (fold (\<lambda>c a. snd (attr_apply K c a)) cs a)"
  by (induction cs arbitrary: a) (simp_all add: attr_apply_valid)

section \<open>Properties\<close>

text \<open>
  C36. Whatever sequence of setters a program applies to an initialised attribute object, the object
  stays valid: the detach state, the policy and the inheritance hold one of their defined values, the scope is the
  system scope, a real-time policy is only ever stored for the super-user, and the priority is 0 or within the limits
  of one of the policies that the user may choose.
\<close>

theorem attr_always_valid:
  "attr_valid K (fold (\<lambda>c a. snd (attr_apply K c a)) cs (snd (pthread_attr_init a0)))"
  by (rule attr_fold_valid) (simp add: attr_valid_def policy_allowed_def priority_valid_def pthread_attr_init_def)

text \<open>
  A setter that succeeds makes the matching getter return the value, and changes what no other
  getter returns; a setter that fails returns a non-zero code and changes nothing.
\<close>

theorem attr_set_get:
  assumes "attr_apply K c a = (r, a')"
  shows "(r = 0 \<longrightarrow> attr_get c a' = (0, attr_value c)) \<and> (r \<noteq> 0 \<longrightarrow> a' = a) \<and>
    (\<forall>d. \<not> same_field c d \<longrightarrow> attr_get d a' = attr_get d a)"
proof (intro conjI allI)
  show "r = 0 \<longrightarrow> attr_get c a' = (0, attr_value c)" "r \<noteq> 0 \<longrightarrow> a' = a"
    using assms by (cases c; auto simp: attr_defs split: if_splits)+
  show "\<not> same_field c d \<longrightarrow> attr_get d a' = attr_get d a" for d
    using assms by (cases c; cases d; auto simp: attr_defs split: if_splits)
qed

theorem attr_set_get_witness:
  "attr_get (SetDetach 1) (snd (attr_apply easy_kern (SetDetach 1)
     \<lparr>detachstate = 0, schedpolicy = 0, sched_priority = 0, inheritsched = 1, scope = 0\<rparr>)) = (0, 1)"
  using attr_set_get [of easy_kern "SetDetach 1"
      "\<lparr>detachstate = 0, schedpolicy = 0, sched_priority = 0, inheritsched = 1, scope = 0\<rparr>" 0
      "\<lparr>detachstate = 1, schedpolicy = 0, sched_priority = 0, inheritsched = 1, scope = 0\<rparr>"]
  by (simp add: pthread_attr_setdetachstate_def)

end
