(* ===== verification/Join.thy ===== *)
theory Join
  imports Cancel Keys
begin

text \<open>
  Termination, joining and detaching of threads (\<open>join.c\<close>). The three functions synchronise through
  the spin lock, \<open>p_terminated\<close>, \<open>p_joining\<close> and \<open>p_detached\<close> of the thread's descriptor, and send
  requests to the thread manager by the pipe \<open>reqs\<close>.
\<close>

definition acquire_th :: "pthread_t \<Rightarrow> st \<Rightarrow> st option" where
  "acquire_th th s = do {
     l \<leftarrow> acquire (p_spinlock (descr s th));
     Some (upd_th th (p_spinlock_update (\<lambda>_. l)) s) }"

definition release_th :: "pthread_t \<Rightarrow> st \<Rightarrow> st" where
  "release_th th s = upd_th th (\<lambda>d. d\<lparr>p_spinlock := release (p_spinlock d)\<rparr>) s"

text \<open>\<open>__libc_write(__pthread_manager_request, (char * ) &request, sizeof(request))\<close>\<close>

definition send_request :: "pthread_t \<Rightarrow> req_kind \<Rightarrow> st \<Rightarrow> st" where
  "send_request self kind s = s\<lparr>reqs := reqs s @ [\<lparr>req_thread = self, req_kind = kind\<rparr>]\<rparr>"

definition pthread_exit :: "env \<Rightarrow> pthread_t \<Rightarrow> addr \<Rightarrow> st \<Rightarrow> unit res" where
  "pthread_exit E self retval s = do {
     let s = upd_th self (p_canceled_update (\<lambda>_. False)) s;
     s \<leftarrow> pthread_perform_cleanup E self s;
     let s = pthread_destroy_specifics E self s;
     s \<leftarrow> acquire_th self s;
     let s = upd_th self (\<lambda>d. d\<lparr>p_retval := retval, p_terminated := True\<rparr>) s;
     let joining = p_joining (descr s self);
     let s = release_th self s;
     let s = (if joining \<noteq> NULL then restart joining s else s);
     if self = main_thread s \<and> manager_request s \<ge> 0
     then and_then (suspend E self (send_request self REQ_MAIN_THREAD_EXIT s)) (\<lambda>_ s. Some (Exit 0, s))
     else Some (Exit 0, s) }"

text \<open>The end of \<open>pthread_join\<close>, with the spin lock held: the value, and the request to free.\<close>

definition join_finish :: "pthread_t \<Rightarrow> pthread_t \<Rightarrow> bool \<Rightarrow> st \<Rightarrow> (int \<times> addr option) res" where
  "join_finish self th want_return s =
     (let v = (if want_return then Some (p_retval (descr s th)) else None);
          s = release_th th s;
          s = (if manager_request s \<ge> 0 then send_request self (REQ_FREE th) s else s)
      in Some (Ret (0, v), s))"

definition pthread_join :: "env \<Rightarrow> pthread_t \<Rightarrow> pthread_t \<Rightarrow> bool \<Rightarrow> st \<Rightarrow> (int \<times> addr option) res" where
  "pthread_join E self th want_return s =
     (if th = self then Some (Ret (EDEADLK, None), s)
      else do {
        s \<leftarrow> acquire_th th s;
        if p_detached (descr s th) \<noteq> 0 \<or> p_joining (descr s th) \<noteq> NULL
        then Some (Ret (EINVAL, None), release_th th s)
        else if \<not> p_terminated (descr s th) then do {
          let s = upd_th th (p_joining_update (\<lambda>_. self)) s;
          let s = release_th th s;
          and_then (suspend_with_cancellation E self s) (\<lambda>_ s. do {
            s \<leftarrow> acquire_th th s;
            if cancel_pending self s then do {
              let s = upd_th th (p_joining_update (\<lambda>_. NULL)) s;
              Some (PExit PTHREAD_CANCELED, release_th th s) }
            else join_finish self th want_return s }) }
        else join_finish self th want_return s })"

definition pthread_detach :: "pthread_t \<Rightarrow> pthread_t \<Rightarrow> st \<Rightarrow> (int \<times> st) option" where
  "pthread_detach self th s = do {
     s \<leftarrow> acquire_th th s;
     if p_detached (descr s th) \<noteq> 0 then Some (EINVAL, release_th th s)
     else if p_joining (descr s th) \<noteq> NULL then Some (0, release_th th s)
     else do {
       let s = upd_th th (p_detached_update (\<lambda>_. 1)) s;
       let terminated = p_terminated (descr s th);
       let s = release_th th s;
       Some (0, if terminated \<and> manager_request s \<ge> 0 then send_request self (REQ_FREE th) s else s) } }"

section \<open>Accessors\<close>

lemma acquire_th_eq:
  "acquire_th th s =
     (if p_spinlock (descr s th) = 0 then Some (upd_th th (p_spinlock_update (\<lambda>_. 1)) s) else None)"
  by (simp add: acquire_th_def)

lemma release_th_simps [simp]:
  "descr (release_th th s) = (descr s)(th := (descr s th)\<lparr>p_spinlock := 0\<rparr>)"
  "klog (release_th th s) = klog s" "reqs (release_th th s) = reqs s"
  "manager_request (release_th th s) = manager_request s" "main_thread (release_th th s) = main_thread s"
  "sigmask (release_th th s) = sigmask s" "manager_thread (release_th th s) = manager_thread s"
  by (simp_all add: release_th_def)

lemma send_request_simps [simp]:
  "descr (send_request t k s) = descr s" "klog (send_request t k s) = klog s"
  "reqs (send_request t k s) = reqs s @ [\<lparr>req_thread = t, req_kind = k\<rparr>]"
  "manager_request (send_request t k s) = manager_request s"
  "main_thread (send_request t k s) = main_thread s"
  by (simp_all add: send_request_def)

lemma upd_th_comp: "upd_th t f (upd_th t g s) = upd_th t (\<lambda>d. f (g d)) s"
  by (simp add: upd_th_def)

lemma upd_th_id: "f (descr s t) = descr s t \<Longrightarrow> upd_th t f s = s"
  by (simp add: upd_th_def)

lemma spinlock_idem: "p_spinlock d = 0 \<Longrightarrow> d\<lparr>p_spinlock := 0\<rparr> = d"
  by (cases d) simp

lemma acquire_release_th:
  "p_spinlock (descr s th) = 0 \<Longrightarrow> release_th th (upd_th th (p_spinlock_update (\<lambda>_. 1)) s) = s"
  unfolding release_th_def upd_th_comp by (rule upd_th_id) simp

section \<open>How a thread ends\<close>

text \<open>
  User functions (cleanup handlers, destructors) may change what they like of the program's data; they
  are assumed to return with the descriptors and the globals of the library as they were
  (\<open>well_behaved\<close>): handlers that call back into the library are outside this assumption.
\<close>

definition lib_rest :: "st \<Rightarrow> bool list \<times> nat \<times> addr \<times> pthread_t \<times> pthread_t \<times> bool" where
  "lib_rest s = (stack_segments s, num_stack_segments s, initial_thread_bos s, initial_thread s, main_thread s,
     main_thread_exiting s)"

definition lib_part :: "st \<Rightarrow> heap \<times> int \<times> pthread_t \<times> pthread_request list \<times> pthread_key_struct list \<times>
    bool list \<times> nat \<times> addr \<times> pthread_t \<times> pthread_t \<times> bool" where
  "lib_part s = (descr s, manager_request s, manager_thread s, reqs s, pthread_keys s, lib_rest s)"

lemma lib_rest_simps [simp]:
  "lib_rest (upd_th t f s) = lib_rest s" "lib_rest (restart t s) = lib_rest s"
  "lib_rest (release_th t s) = lib_rest s" "lib_rest (send_request t k s) = lib_rest s"
  "lib_rest (log e s) = lib_rest s"
  by (simp_all add: lib_rest_def release_th_def send_request_def)

lemma lib_rest_main: "lib_rest s = lib_rest s' \<Longrightarrow> main_thread s = main_thread s'"
  by (simp add: lib_rest_def)

definition well_behaved :: "env \<Rightarrow> bool" where
  "well_behaved E \<longleftrightarrow> tame E \<and> (\<forall>f a s. lib_part (snd (call_env E f a s)) = lib_part s)"

lemma well_behaved_prompt: "well_behaved prompt_env"
  by (simp add: well_behaved_def tame_prompt lib_part_def) (simp add: prompt_env_def)

lemma well_behaved_call: "well_behaved E \<Longrightarrow> lib_part (snd (call_env E f a s)) = lib_part s"
  by (simp add: well_behaved_def)

text \<open>
  The same, demanded only of the calls that are made while the descriptor of a thread satisfies \<open>Q\<close>; a function that is called
  in another state may do anything.
\<close>

definition well_behaved_while :: "pthread_t \<Rightarrow> (pthread_descr \<Rightarrow> bool) \<Rightarrow> env \<Rightarrow> bool" where
  "well_behaved_while self Q E \<longleftrightarrow> (\<forall>f a s. Q (descr s self) \<longrightarrow>
     lib_part (snd (call_env E f a s)) = lib_part s \<and> cleanup_bufs (snd (call_env E f a s)) = cleanup_bufs s \<and>
     klog (snd (call_env E f a s)) = klog s @ [Call f a])"

lemma well_behaved_whileD:
  assumes "well_behaved_while self Q E" and "Q (descr s self)"
  shows "lib_part (snd (call_env E f a s)) = lib_part s" and "cleanup_bufs (snd (call_env E f a s)) = cleanup_bufs s"
    and "klog (snd (call_env E f a s)) = klog s @ [Call f a]" and "Q (descr (snd (call_env E f a s)) self)"
    and "pthread_keys (snd (call_env E f a s)) = pthread_keys s" and "descr (snd (call_env E f a s)) = descr s"
proof -
  show l: "lib_part (snd (call_env E f a s)) = lib_part s" and "cleanup_bufs (snd (call_env E f a s)) = cleanup_bufs s"
    and "klog (snd (call_env E f a s)) = klog s @ [Call f a]"
    using assms unfolding well_behaved_while_def by blast+
  show "Q (descr (snd (call_env E f a s)) self)" "pthread_keys (snd (call_env E f a s)) = pthread_keys s"
    "descr (snd (call_env E f a s)) = descr s" using l assms(2) by (simp_all add: lib_part_def)
qed

lemma well_behaved_always: "well_behaved E \<Longrightarrow> well_behaved_while self (\<lambda>_. True) E"
  by (simp add: well_behaved_def well_behaved_while_def tame_def)

lemma perform_cleanup_while:
  assumes "well_behaved_while self Q E" and "Q (descr s self)" and "chain (\<lambda>b. prev (cleanup_bufs s b)) NULL c bs"
  shows "\<exists>s'. perform_cleanup_loop E c s = Some s' \<and> lib_part s' = lib_part s \<and> cleanup_bufs s' = cleanup_bufs s \<and>
    klog s' = klog s @ map (\<lambda>b. Call (routine (cleanup_bufs s b)) (cb_arg (cleanup_bufs s b))) bs"
  using assms(2,3)
proof (induction bs arbitrary: c s)
  case Nil
  then show ?case by (subst perform_cleanup_loop.simps) simp
next
  case (Cons b bs)
  define s1 where "s1 = snd (call_env E (routine (cleanup_bufs s b)) (cb_arg (cleanup_bufs s b)) s)"
  have s1: "lib_part s1 = lib_part s" "cleanup_bufs s1 = cleanup_bufs s" "Q (descr s1 self)"
    "klog s1 = klog s @ [Call (routine (cleanup_bufs s b)) (cb_arg (cleanup_bufs s b))]"
    unfolding s1_def by (rule well_behaved_whileD [OF assms(1) Cons.prems(1)])+
  have "c = b" "b \<noteq> NULL" using Cons.prems(2) by auto
  then have "perform_cleanup_loop E c s = perform_cleanup_loop E (prev (cleanup_bufs s b)) s1"
    by (subst perform_cleanup_loop.simps) (simp add: s1_def [symmetric] s1)
  moreover have "chain (\<lambda>b. prev (cleanup_bufs s1 b)) NULL (prev (cleanup_bufs s b)) bs"
    using Cons.prems(2) by (simp add: s1)
  ultimately show ?case using Cons.IH [OF s1(3)] s1 by simp
qed

text \<open>
  The calls of destructors for a thread, in the order of the keys: those of the keys that have a destructor and under
  which the thread has a value.
\<close>

definition destructor_calls :: "pthread_t \<Rightarrow> st \<Rightarrow> (addr \<times> addr) list" where
  "destructor_calls self s = filter (\<lambda>(f, data). f \<noteq> NULL \<and> data \<noteq> NULL)
     (map (\<lambda>i. (destr (pthread_keys s ! i), p_specific (descr s self) ! i)) [0..<PTHREAD_KEYS_MAX])"

lemma destroy_specifics_while:
  assumes "well_behaved_while self Q E" and "Q (descr s self)"
  shows "lib_part (destroy_specifics_from E self i s) = lib_part s \<and>
    klog (destroy_specifics_from E self i s) = klog s @ map (\<lambda>(f, data). Call f data)
      (filter (\<lambda>(f, data). f \<noteq> NULL \<and> data \<noteq> NULL)
        (map (\<lambda>i. (destr (pthread_keys s ! i), p_specific (descr s self) ! i)) [i..<PTHREAD_KEYS_MAX]))"
  using assms
proof (induction E self i s rule: destroy_specifics_from.induct)
  case (1 E self i s)
  note W = well_behaved_whileD [OF 1(2,3)]
  show ?case
  proof (cases "i < PTHREAD_KEYS_MAX")
    case True
    with 1(1) [OF True refl refl 1(2)] 1(3) W(4) show ?thesis
      by (subst (1 2) destroy_specifics_from.simps)
        (simp add: Let_def upt_conv_Cons W(1,3,5,6) del: PTHREAD_KEYS_MAX_def upt_Suc)
  next
    case False
    then show ?thesis by (subst (1 2) destroy_specifics_from.simps) simp
  qed
qed

text \<open>
  The whole of \<open>pthread_exit\<close>. The main thread goes on to wait for the others if there is a manager; \<open>s'\<close> is the
  state before that.
\<close>

lemma exit_run:
  assumes E: "well_behaved_while self Q E" and Q: "Q ((descr s self)\<lparr>p_canceled := False\<rparr>)"
    and st: "cleanup_stack self bs s" and l: "p_spinlock (descr s self) = 0"
  shows "\<exists>s'. pthread_exit E self v s =
      (if self = main_thread s \<and> manager_request s \<ge> 0
       then and_then (suspend E self (send_request self REQ_MAIN_THREAD_EXIT s')) (\<lambda>_ s. Some (Exit 0, s))
       else Some (Exit 0, s')) \<and>
    descr s' = (descr s)(self := (descr s self)\<lparr>p_canceled := False, p_retval := v, p_terminated := True\<rparr>) \<and>
    reqs s' = reqs s \<and> manager_request s' = manager_request s \<and> manager_thread s' = manager_thread s \<and>
    lib_rest s' = lib_rest s \<and>
    klog s' = klog s @ map (\<lambda>b. Call (routine (cleanup_bufs s b)) (cb_arg (cleanup_bufs s b))) bs @
      map (\<lambda>(f, data). Call f data) (destructor_calls self s) @ (if p_joining (descr s self) = NULL then []
      else [Kill (p_pid (descr s (p_joining (descr s self)))) PTHREAD_SIG_RESTART])"
proof -
  define s0 where "s0 = upd_th self (p_canceled_update (\<lambda>_. False)) s"
  have "chain (\<lambda>b. prev (cleanup_bufs s0 b)) NULL (p_cleanup (descr s0 self)) bs" "Q (descr s0 self)"
    using st Q by (simp_all add: s0_def cleanup_stack_def)
  then obtain s1 where c: "perform_cleanup_loop E (p_cleanup (descr s0 self)) s0 = Some s1" "lib_part s1 = lib_part s0"
    and k1: "klog s1 = klog s0 @ map (\<lambda>b. Call (routine (cleanup_bufs s0 b)) (cb_arg (cleanup_bufs s0 b))) bs"
    using perform_cleanup_while [OF E, of s0 "p_cleanup (descr s0 self)" bs] by auto
  have q1: "Q (descr s1 self)" using c(2) Q by (simp add: lib_part_def s0_def)
  define s2 where "s2 = pthread_destroy_specifics E self s1"
  note D = destroy_specifics_while [OF E q1, of 0]
  have "pthread_keys s1 = pthread_keys s" "p_specific (descr s1 self) = p_specific (descr s self)"
    using c(2) by (simp_all add: lib_part_def s0_def)
  then have k2: "klog s2 = klog s @ map (\<lambda>b. Call (routine (cleanup_bufs s b)) (cb_arg (cleanup_bufs s b))) bs @
      map (\<lambda>(f, data). Call f data) (destructor_calls self s)"
    using D by (simp add: s2_def pthread_destroy_specifics_def destructor_calls_def k1 s0_def del: PTHREAD_KEYS_MAX_def upt_Suc)
  have "lib_part s2 = lib_part s0" using D c(2) by (simp add: s2_def pthread_destroy_specifics_def)
  then have s2: "descr s2 = descr s0" "lib_rest s2 = lib_rest s" "manager_request s2 = manager_request s"
    "manager_thread s2 = manager_thread s" "reqs s2 = reqs s" by (simp_all add: lib_part_def s0_def)
  have m2: "main_thread s2 = main_thread s" by (rule lib_rest_main [OF s2(2)])
  define t where "t = upd_th self (\<lambda>d. d\<lparr>p_retval := v, p_terminated := True\<rparr>) (upd_th self (p_spinlock_update (\<lambda>_. 1)) s2)"
  define s3 where "s3 = release_th self t"
  have d: "descr s3 = (descr s)(self := (descr s self)\<lparr>p_canceled := False, p_retval := v, p_terminated := True\<rparr>)"
    using l s2(1) by (simp add: s3_def t_def s0_def spinlock_idem)
  define j where "j = p_joining (descr s self)"
  define s4 where "s4 = (if j \<noteq> NULL then restart j s3 else s3)"
  have s4: "descr s4 = descr s3" "lib_rest s4 = lib_rest s" "manager_request s4 = manager_request s"
    "reqs s4 = reqs s" "manager_thread s4 = manager_thread s"
    "klog s4 = klog s2 @ (if j = NULL then [] else [Kill (p_pid (descr s j)) PTHREAD_SIG_RESTART])"
    using s2 d by (simp_all add: s4_def s3_def t_def)
  have m4: "main_thread s4 = main_thread s" by (rule lib_rest_main [OF s4(2)])
  have a: "acquire_th self s2 = Some (upd_th self (p_spinlock_update (\<lambda>_. 1)) s2)"
    using l s2(1) by (simp add: acquire_th_eq s0_def)
  have pj: "p_joining (descr t self) = j" using s2(1) by (simp add: t_def s0_def j_def)
  have "pthread_exit E self v s = do {
      s \<leftarrow> acquire_th self s2;
      let s = upd_th self (\<lambda>d. d\<lparr>p_retval := v, p_terminated := True\<rparr>) s;
      let joining = p_joining (descr s self);
      let s = release_th self s;
      let s = (if joining \<noteq> NULL then restart joining s else s);
      if self = main_thread s \<and> manager_request s \<ge> 0
      then and_then (suspend E self (send_request self REQ_MAIN_THREAD_EXIT s)) (\<lambda>_ s. Some (Exit 0, s))
      else Some (Exit 0, s) }"
    using c by (simp add: pthread_exit_def pthread_perform_cleanup_def s0_def [symmetric] s2_def [symmetric])
  also have "\<dots> = (if self = main_thread s4 \<and> manager_request s4 \<ge> 0
       then and_then (suspend E self (send_request self REQ_MAIN_THREAD_EXIT s4)) (\<lambda>_ s. Some (Exit 0, s))
       else Some (Exit 0, s4))"
    unfolding a Option.bind.bind_lunit Let_def t_def [symmetric] pj s3_def [symmetric] s4_def [symmetric] ..
  finally have "pthread_exit E self v s = (if self = main_thread s \<and> manager_request s \<ge> 0
       then and_then (suspend E self (send_request self REQ_MAIN_THREAD_EXIT s4)) (\<lambda>_ s. Some (Exit 0, s))
       else Some (Exit 0, s4))" unfolding m4 s4(3) .
  then show ?thesis using s4 d by (intro exI [of _ s4]) (simp add: j_def k2)
qed

lemma exit_effect:
  assumes "well_behaved E" and "cleanup_stack self bs s" and "p_spinlock (descr s self) = 0"
    and "self \<noteq> main_thread s \<or> manager_request s < 0"
  shows "\<exists>s' pre. pthread_exit E self v s = Some (Exit 0, s') \<and>
    descr s' = (descr s)(self := (descr s self)\<lparr>p_canceled := False, p_retval := v, p_terminated := True\<rparr>) \<and>
    reqs s' = reqs s \<and> manager_request s' = manager_request s \<and> manager_thread s' = manager_thread s \<and>
    lib_rest s' = lib_rest s \<and>
    klog s' = pre @ (if p_joining (descr s self) = NULL then []
      else [Kill (p_pid (descr s (p_joining (descr s self)))) PTHREAD_SIG_RESTART])"
proof -
  have n: "\<not> (self = main_thread s \<and> manager_request s \<ge> 0)" using assms(4) by auto
  from exit_run [OF well_behaved_always [OF assms(1)] TrueI assms(2,3), of v, folded append_assoc] n show ?thesis
    by (simp only: if_False) blast
qed

lemma join_finish_eq:
  "join_finish self th True s = Some (Ret (0, Some (p_retval (descr s th))),
     (if manager_request s \<ge> 0 then send_request self (REQ_FREE th) (release_th th s) else release_th th s))"
  by (simp add: join_finish_def Let_def)

lemma join_terminated:
  assumes "self \<noteq> th" and "p_spinlock (descr s th) = 0" and "p_detached (descr s th) = 0"
    and "p_joining (descr s th) = NULL" and "p_terminated (descr s th)"
  shows "\<exists>s'. pthread_join E self th True s = Some (Ret (0, Some (p_retval (descr s th))), s') \<and>
    reqs s' = reqs s @ (if manager_request s \<ge> 0 then [\<lparr>req_thread = self, req_kind = REQ_FREE th\<rparr>] else []) \<and>
    klog s' = klog s \<and> descr s' = descr s \<and> lib_rest s' = lib_rest s"
  using assms by (auto simp: pthread_join_def acquire_th_eq join_finish_eq fun_upd_idem)

lemma join_refused:
  assumes "self \<noteq> th" and "p_spinlock (descr s th) = 0"
    and "p_detached (descr s th) \<noteq> 0 \<or> p_joining (descr s th) \<noteq> NULL"
  shows "pthread_join E self th w s = Some (Ret (EINVAL, None), s)"
  using assms by (simp add: pthread_join_def acquire_th_eq acquire_release_th)

lemma detach_refused:
  assumes "p_spinlock (descr s th) = 0" and "p_detached (descr s th) \<noteq> 0"
  shows "pthread_detach self th s = Some (EINVAL, s)"
  using assms by (simp add: pthread_detach_def acquire_th_eq acquire_release_th)

section \<open>Properties\<close>

text \<open>
  C33. What a thread does when it exits. It calls its cleanup handlers, the innermost first, then the destructors of the
  keys that have one and under which the thread has a value, in the order of the keys and each once with this value.
  All this happens before it is marked as terminated and its value is stored: nothing is assumed of what these functions do if they are
  called later than that. Then the mark and the value are there, and the thread that joins it is restarted. The main thread
  goes on from there, if the manager runs, with a request to it and a suspension; any other thread ends.
\<close>

theorem exit_runs_handlers_then_destructors:
  assumes "well_behaved_while self (\<lambda>d. \<not> p_terminated d \<and> p_retval d = r) E"
    and "\<not> p_terminated (descr s self)" and "p_retval (descr s self) = r"
    and "cleanup_stack self bs s" and "p_spinlock (descr s self) = 0"
  shows "\<exists>s'. pthread_exit E self v s =
      (if self = main_thread s \<and> manager_request s \<ge> 0
       then and_then (suspend E self (send_request self REQ_MAIN_THREAD_EXIT s')) (\<lambda>_ s. Some (Exit 0, s))
       else Some (Exit 0, s')) \<and>
    p_terminated (descr s' self) \<and> p_retval (descr s' self) = v \<and>
    klog s' = klog s @ map (\<lambda>b. Call (routine (cleanup_bufs s b)) (cb_arg (cleanup_bufs s b))) bs @
      map (\<lambda>(f, data). Call f data) (destructor_calls self s) @
      (if p_joining (descr s self) = NULL then []
       else [Kill (p_pid (descr s (p_joining (descr s self)))) PTHREAD_SIG_RESTART])"
proof -
  have "\<not> p_terminated ((descr s self)\<lparr>p_canceled := False\<rparr>) \<and> p_retval ((descr s self)\<lparr>p_canceled := False\<rparr>) = r"
    using assms(2,3) by simp
  from exit_run [OF assms(1) this assms(4,5), of v] show ?thesis by (elim exE conjE) (intro exI conjI, assumption, simp_all)
qed

text \<open>For the witness: functions that are called by a thread that is marked as terminated are not called at all.\<close>

definition strict_env :: "pthread_t \<Rightarrow> env" where
  "strict_env self = prompt_env\<lparr>call_env := \<lambda>f a s. if p_terminated (descr s self) then (0, s) else call_env prompt_env f a s\<rparr>"

theorem exit_runs_handlers_then_destructors_witness:
  "\<exists>s s'. pthread_exit (strict_env 8) 8 5 s = Some (Exit 0, s') \<and> klog s' = [Call 0x60 1, Call 0x50 77]"
proof -
  define s where "s = pthread_cleanup_push 8 64 0x60 1 (upd_th 8 (p_specific_update (\<lambda>a. a[0 := 77, 2 := 78]))
    (zero_st\<lparr>pthread_keys := (pthread_keys zero_st)[0 := \<lparr>in_use = True, destr = 0x50\<rparr>, 1 := \<lparr>in_use = True, destr = 0x54\<rparr>]\<rparr>))"
  have d: "p_specific (descr s 8) = (replicate PTHREAD_KEYS_MAX NULL)[0 := 77, 2 := 78]" "p_spinlock (descr s 8) = 0"
    "p_joining (descr s 8) = NULL" "\<not> p_terminated (descr s 8)" "p_retval (descr s 8) = NULL"
    "pthread_keys s = (replicate PTHREAD_KEYS_MAX \<lparr>in_use = False, destr = NULL\<rparr>)[0 := \<lparr>in_use = True, destr = 0x50\<rparr>,
      1 := \<lparr>in_use = True, destr = 0x54\<rparr>]"
    and m: "8 \<noteq> main_thread s \<or> manager_request s < 0" and k: "klog s = []"
    by (simp_all add: s_def pthread_cleanup_push_def upd_buf_def upd_th_def zero_st_def zero_descr_def del: PTHREAD_KEYS_MAX_def)
  have c: "cleanup_stack 8 [64] s" "routine (cleanup_bufs s 64) = 0x60" "cb_arg (cleanup_bufs s 64) = 1"
    by (simp_all add: s_def cleanup_stack_def pthread_cleanup_push_def zero_st_def zero_descr_def)
  have "[0..<PTHREAD_KEYS_MAX] = 0 # 1 # [2..<PTHREAD_KEYS_MAX]" by (simp add: upt_conv_Cons)
  then have "destructor_calls 8 s = [(0x50, 77)]"
    unfolding destructor_calls_def d by (auto simp: filter_empty_conv nth_list_update simp del: upt_rec_numeral)
  moreover have "well_behaved_while 8 (\<lambda>d. \<not> p_terminated d \<and> p_retval d = NULL) (strict_env 8)"
    by (simp add: well_behaved_while_def strict_env_def prompt_env_def lib_part_def)
  moreover have "\<not> (8 = main_thread s \<and> manager_request s \<ge> 0)" using m by auto
  ultimately have "\<exists>s'. pthread_exit (strict_env 8) 8 5 s = Some (Exit 0, s') \<and> klog s' = [Call 0x60 1, Call 0x50 77]"
    using exit_runs_handlers_then_destructors [of 8 NULL "strict_env 8" s "[64]" 5] k c d(2-5) by auto
  then show ?thesis by blast
qed

text \<open>
  Joining a thread that has terminated. After \<open>pthread_exit\<close> with a value by a joinable thread that
  is not the main thread, \<open>pthread_join\<close> by another thread returns 0 and that value at once, and asks
  the manager to free the thread if the manager runs.
\<close>

theorem exit_then_join_gets_value:
  assumes "well_behaved E" and "cleanup_stack th bs s" and "p_spinlock (descr s th) = 0"
    and "th \<noteq> main_thread s" and "p_detached (descr s th) = 0" and "p_joining (descr s th) = NULL"
    and "self \<noteq> th"
  shows "\<exists>s1 s2. pthread_exit E th v s = Some (Exit 0, s1) \<and>
    pthread_join E' self th True s1 = Some (Ret (0, Some v), s2) \<and>
    reqs s2 = reqs s @ (if manager_request s \<ge> 0 then [\<lparr>req_thread = self, req_kind = REQ_FREE th\<rparr>] else [])"
proof -
  obtain s1 where e: "pthread_exit E th v s = Some (Exit 0, s1)"
    and d: "descr s1 = (descr s)(th := (descr s th)\<lparr>p_canceled := False, p_retval := v, p_terminated := True\<rparr>)"
    and s1: "reqs s1 = reqs s" "manager_request s1 = manager_request s"
    using exit_effect [OF assms(1-3) disjI1 [OF assms(4)], of v] by blast
  have "p_spinlock (descr s1 th) = 0" "p_detached (descr s1 th) = 0" "p_joining (descr s1 th) = NULL"
    "p_terminated (descr s1 th)" "p_retval (descr s1 th) = v"
    using assms(3,5,6) d by simp_all
  with join_terminated [OF assms(7), of s1 E'] s1 obtain s2 where
    "pthread_join E' self th True s1 = Some (Ret (0, Some v), s2)"
    "reqs s2 = reqs s @ (if manager_request s \<ge> 0 then [\<lparr>req_thread = self, req_kind = REQ_FREE th\<rparr>] else [])"
    by auto
  with e show ?thesis by blast
qed

theorem exit_then_join_gets_value_witness:
  "\<exists>s1 s2. pthread_exit prompt_env 8 77 (zero_st\<lparr>main_thread := 16\<rparr>) = Some (Exit 0, s1) \<and>
    pthread_join prompt_env 16 8 True s1 = Some (Ret (0, Some 77), s2)"
proof -
  have "cleanup_stack 8 [] (zero_st\<lparr>main_thread := 16\<rparr>)" "p_spinlock (descr (zero_st\<lparr>main_thread := 16\<rparr>) 8) = 0"
    "8 \<noteq> main_thread (zero_st\<lparr>main_thread := 16\<rparr>)" "p_detached (descr (zero_st\<lparr>main_thread := 16\<rparr>) 8) = 0"
    "p_joining (descr (zero_st\<lparr>main_thread := 16\<rparr>) 8) = NULL" "(16 :: addr) \<noteq> 8"
    by (simp_all add: zero_st_def zero_descr_def cleanup_stack_def)
  from exit_then_join_gets_value [OF well_behaved_prompt this, of 77 prompt_env] show ?thesis by blast
qed

text \<open>
  Joining a thread that is still running. The joining thread records itself in the descriptor and
  suspends; if the other thread then calls \<open>pthread_exit\<close> with a value, the exit sends the restart
  signal to the joining thread as its last signal, and \<open>pthread_join\<close> returns 0 and the value.
\<close>

theorem join_then_exit_gets_value:
  assumes "well_behaved E'" and "cleanup_stack th bs s" and "p_spinlock (descr s th) = 0"
    and "th \<noteq> main_thread s" and "p_detached (descr s th) = 0" and "p_joining (descr s th) = NULL"
    and "\<not> p_terminated (descr s th)" and "self \<noteq> th" and "self \<noteq> NULL" and "self \<noteq> manager_thread s"
    and "\<not> p_signal_jmp (descr s self)" and "\<not> cancel_pending self s"
    and env: "\<And>msk s. sigsuspend_env E self msk s =
      (case pthread_exit E' th v s of Some (Exit c, s') \<Rightarrow> Some (PTHREAD_SIG_RESTART, s') | _ \<Rightarrow> None)"
  shows "\<exists>s'. pthread_join E self th True s = Some (Ret (0, Some v), s') \<and>
    last (klog s') = Kill (p_pid (descr s self)) PTHREAD_SIG_RESTART"
proof -
  define s1 where "s1 = release_th th (upd_th th (p_joining_update (\<lambda>_. self)) (upd_th th (p_spinlock_update (\<lambda>_. 1)) s))"
  define s2 where "s2 = upd_th self (p_cancel_jmp_update (\<lambda>_. True)) s1"
  have bufs: "cleanup_bufs s2 = cleanup_bufs s" by (simp add: s2_def s1_def release_th_def)
  have d2: "descr s2 = (descr s)(th := (descr s th)\<lparr>p_joining := self\<rparr>, self := (descr s self)\<lparr>p_cancel_jmp := True\<rparr>)"
    using assms(3,8) by (simp add: s2_def s1_def spinlock_idem)
  have g2: "main_thread s2 = main_thread s" "manager_request s2 = manager_request s"
    "manager_thread s2 = manager_thread s" by (simp_all add: s2_def s1_def)
  have "cleanup_stack th bs s2" "p_spinlock (descr s2 th) = 0"
    using assms(2,3,8) bufs d2 by (simp_all add: cleanup_stack_def)
  from exit_effect [OF assms(1) this, of v] obtain s3 pre where
    e: "pthread_exit E' th v s2 = Some (Exit 0, s3)"
    and d3: "descr s3 = (descr s2)(th := (descr s2 th)\<lparr>p_canceled := False, p_retval := v, p_terminated := True\<rparr>)"
    and g3: "manager_thread s3 = manager_thread s"
    and k3: "klog s3 = pre @ [Kill (p_pid (descr s2 self)) PTHREAD_SIG_RESTART]"
    using assms(4,8,9) d2 g2 by (auto split: if_splits)
  define s4 where "s4 = upd_th self (p_signal_update (\<lambda>_. PTHREAD_SIG_RESTART)) s3"
  have "deliver self PTHREAD_SIG_RESTART s3 = (H_return, s4)"
    using assms(8,10,11) d2 d3 g3 by (simp add: deliver_def pthread_sighandler_def s4_def)
  then have w: "suspend_loop E self msk s2 = Some (Ret (), s4)" for msk
    using e env by (intro suspend_loop_return) (simp_all add: s4_def)
  define s5 where "s5 = upd_th self (p_cancel_jmp_update (\<lambda>_. False)) s4"
  have c: "\<not> (p_canceled (descr s2 self) \<and> p_cancelstate (descr s2 self) = PTHREAD_CANCEL_ENABLE)"
    using assms(8,12) d2 by (simp add: cancel_pending_def)
  have "suspend_with_cancellation E self s1 = Some (Ret (), s5)"
    using w c by (simp add: suspend_with_cancellation_def s2_def [symmetric] s5_def Let_def)
  moreover have d5: "p_spinlock (descr s5 th) = 0" "p_retval (descr s5 th) = v" "\<not> cancel_pending self s5"
    "klog s5 = klog s3" "p_pid (descr s2 self) = p_pid (descr s self)"
    using assms(3,8,12) d2 d3 by (simp_all add: s5_def s4_def cancel_pending_def)
  moreover have "pthread_join E self th True s =
      and_then (suspend_with_cancellation E self s1) (\<lambda>_ s. do {
            s \<leftarrow> acquire_th th s;
            if cancel_pending self s then do {
              let s = upd_th th (p_joining_update (\<lambda>_. NULL)) s;
              Some (PExit PTHREAD_CANCELED, release_th th s) }
            else join_finish self th True s })"
    using assms(3,5-8) by (simp add: pthread_join_def acquire_th_eq s1_def)
  ultimately have "pthread_join E self th True s = join_finish self th True (upd_th th (p_spinlock_update (\<lambda>_. 1)) s5)"
    using assms(8) by (auto simp: acquire_th_eq cancel_pending_def)
  then show ?thesis using d5 k3 by (simp add: join_finish_eq)
qed

text \<open>For the witness: thread 8 exits with 77 as soon as another thread sleeps.\<close>

definition exiting_env :: env where
  "exiting_env = prompt_env\<lparr>sigsuspend_env := (\<lambda>_ _ s.
     case pthread_exit prompt_env 8 77 s of Some (Exit c, s') \<Rightarrow> Some (PTHREAD_SIG_RESTART, s') | _ \<Rightarrow> None)\<rparr>"

theorem join_then_exit_gets_value_witness:
  "\<exists>s'. pthread_join exiting_env 16 8 True zero_st = Some (Ret (0, Some 77), s')"
  using join_then_exit_gets_value [OF well_behaved_prompt, of 8 "[]" zero_st 16 exiting_env 77]
  by (auto simp: zero_st_def zero_descr_def cleanup_stack_def cancel_pending_def exiting_env_def)

text \<open>
  The error cases. Joining oneself gives \<open>EDEADLK\<close>; joining a detached thread or one that another
  thread is already joining gives \<open>EINVAL\<close>; detaching a detached thread gives \<open>EINVAL\<close>. None of them
  changes the state. A successful \<open>pthread_detach\<close> makes every later join or detach fail, unless a
  join was already under way.
\<close>

theorem join_detach_errors:
  assumes "p_spinlock (descr s th) = 0"
  shows "pthread_join E th th w s = Some (Ret (EDEADLK, None), s) \<and>
    (self \<noteq> th \<and> (p_detached (descr s th) \<noteq> 0 \<or> p_joining (descr s th) \<noteq> NULL) \<longrightarrow>
      pthread_join E self th w s = Some (Ret (EINVAL, None), s)) \<and>
    (p_detached (descr s th) \<noteq> 0 \<longrightarrow> pthread_detach self th s = Some (EINVAL, s)) \<and>
    (p_detached (descr s th) = 0 \<and> p_joining (descr s th) = NULL \<and> self \<noteq> th \<longrightarrow>
      (\<exists>s'. pthread_detach self th s = Some (0, s') \<and> p_spinlock (descr s' th) = 0 \<and>
        pthread_join E self th w s' = Some (Ret (EINVAL, None), s') \<and>
        pthread_detach self th s' = Some (EINVAL, s')))"
proof (intro conjI impI)
  show "pthread_join E th th w s = Some (Ret (EDEADLK, None), s)" by (simp add: pthread_join_def)
  show "pthread_join E self th w s = Some (Ret (EINVAL, None), s)"
    if "self \<noteq> th \<and> (p_detached (descr s th) \<noteq> 0 \<or> p_joining (descr s th) \<noteq> NULL)"
    using that assms by (intro join_refused) auto
  show "pthread_detach self th s = Some (EINVAL, s)" if "p_detached (descr s th) \<noteq> 0"
    using that assms by (intro detach_refused)
  assume j: "p_detached (descr s th) = 0 \<and> p_joining (descr s th) = NULL \<and> self \<noteq> th"
  with assms obtain s' where s': "pthread_detach self th s = Some (0, s')"
    "p_spinlock (descr s' th) = 0" "p_detached (descr s' th) \<noteq> 0"
    by (auto simp: pthread_detach_def acquire_th_eq Let_def)
  with j show "\<exists>s'. pthread_detach self th s = Some (0, s') \<and> p_spinlock (descr s' th) = 0 \<and>
      pthread_join E self th w s' = Some (Ret (EINVAL, None), s') \<and>
      pthread_detach self th s' = Some (EINVAL, s')"
    by (intro exI [of _ s']) (simp add: join_refused detach_refused)
qed

theorem join_detach_errors_witness:
  "pthread_join prompt_env 8 8 True zero_st = Some (Ret (EDEADLK, None), zero_st) \<and>
    (\<exists>s'. pthread_detach 16 8 zero_st = Some (0, s') \<and>
      pthread_join prompt_env 16 8 True s' = Some (Ret (EINVAL, None), s') \<and>
      pthread_detach 16 8 s' = Some (EINVAL, s'))"
proof -
  have "p_spinlock (descr zero_st 8) = 0" "p_detached (descr zero_st 8) = 0" "p_joining (descr zero_st 8) = NULL"
    by (simp_all add: zero_st_def zero_descr_def)
  with join_detach_errors [of zero_st 8 prompt_env True 16] show ?thesis by simp blast
qed

end
