(* ===== verification/Segments.thy ===== *)
theory Segments
  imports Restart
begin

unbundle bit_operations_syntax

text \<open>
  Stacks and descriptors of threads: every thread has a segment of \<open>STACK_SIZE\<close> bytes of address
  space, aligned on its size, with the descriptor at the upper end. \<open>THREAD_SEG\<close> and \<open>SEG_THREAD\<close>
  (\<open>manager.c\<close>) map segment numbers to descriptors and back, \<open>thread_self\<close> (\<open>internals.h\<close>) finds the
  descriptor of the running thread from its stack pointer, and \<open>pthread_grow_stack_segments\<close> with
  the search loop of \<open>pthread_handle_create\<close> allocates a segment. Addresses are 32-bit words, with the
  wrap-around of the machine.
\<close>

text \<open>The size of a segment as a word, and the size of a descriptor.\<close>

definition stack_size :: addr where
  "stack_size = 0x200000"

definition sizeof_descr :: "kern \<Rightarrow> addr" where
  "sizeof_descr K = of_nat (sizeof_pthread K)"

definition THREAD_SEG :: "kern \<Rightarrow> addr \<Rightarrow> nat \<Rightarrow> pthread_t" where
  "THREAD_SEG K bos seg = bos - of_nat seg * stack_size - sizeof_descr K"

definition SEG_THREAD :: "kern \<Rightarrow> addr \<Rightarrow> pthread_t \<Rightarrow> nat" where
  "SEG_THREAD K bos thr = unat ((bos - (thr + sizeof_descr K)) div stack_size)"

definition thread_self :: "kern \<Rightarrow> st \<Rightarrow> addr \<Rightarrow> pthread_t" where
  "thread_self K s sp =
     (if sp \<ge> initial_thread_bos s then initial_thread s
      else if sp \<ge> manager_thread_bos s \<and> sp < manager_thread_tos s then manager_thread s
      else (sp OR (stack_size - 1)) + 1 - sizeof_descr K)"

text \<open>The limit of the initial stack that \<open>__pthread_initialize\<close> computes.\<close>

definition initial_bos :: "addr \<Rightarrow> addr" where
  "initial_bos frame = (frame - 2 * stack_size) AND NOT (stack_size - 1)"

section \<open>Allocation of segments\<close>

definition pthread_grow_stack_segments :: "kern \<Rightarrow> st \<Rightarrow> int \<times> st" where
  "pthread_grow_stack_segments K s =
     (let new_num_sseg = (if num_stack_segments s = 0 then 128 else num_stack_segments s * 2)
      in if \<not> malloc_ok K new_num_sseg s then (- 1, s)
         else (0, s\<lparr>stack_segments := take (num_stack_segments s) (stack_segments s) @
                      replicate (new_num_sseg - num_stack_segments s) False,
                    num_stack_segments := new_num_sseg\<rparr>))"

definition INITIAL_STACK_SIZE :: "kern \<Rightarrow> nat" where
  "INITIAL_STACK_SIZE K = 4 * page_size K"

text \<open>
  The two nested loops at the start of \<open>pthread_handle_create\<close>: the first segment from \<open>sseg\<close> on that
  is free and can be mapped, or \<open>None\<close> if the table of segments cannot grow. A free segment that
  cannot be mapped stays marked.
\<close>

partial_function (option) alloc_segment :: "kern \<Rightarrow> nat \<Rightarrow> st \<Rightarrow> (nat option \<times> st) option" where
  "alloc_segment K sseg s =
     (let (r, s1) = (if sseg \<ge> num_stack_segments s then pthread_grow_stack_segments K s else (0, s))
      in if r = - 1 then Some (None, s1)
         else if stack_segments s1 ! sseg then alloc_segment K (sseg + 1) s1
         else
           let s2 = s1\<lparr>stack_segments := (stack_segments s1)[sseg := True]\<rparr>;
               new_thread = THREAD_SEG K (initial_thread_bos s2) sseg
           in if mmap_ok K (new_thread + sizeof_descr K - of_nat (INITIAL_STACK_SIZE K)) s2
              then Some (Some sseg, s2)
              else alloc_segment K (sseg + 1) s2)"

section \<open>Segments and descriptors\<close>

text \<open>A word rounded up to the end of its segment.\<close>

lemma or_mask_plus_one:
  "(w OR mask n) + 1 = 2 ^ n * (drop_bit n w + 1)" for w :: "32 word"
proof -
  have "w OR mask n = (w AND NOT (mask n)) + mask n"
  proof -
    have "(w AND NOT (mask n)) + mask n = (w AND NOT (mask n)) OR mask n"
      by (rule disjunctive_add) (auto simp: bit_simps)
    also have "\<dots> = w OR mask n" by (rule bit_eqI) (auto simp: bit_simps)
    finally show ?thesis by simp
  qed
  moreover have "w AND NOT (mask n) = push_bit n (drop_bit n w)"
    by (rule bit_eqI) (auto simp: bit_simps)
  ultimately show ?thesis
    by (simp add: push_bit_eq_mult mask_eq_exp_minus_1 algebra_simps)
qed

lemma stack_size_mask: "stack_size - 1 = mask 21"
  by (simp add: stack_size_def mask_eq_exp_minus_1)

lemma initial_bos_aligned: "2 ^ 21 dvd unat (initial_bos frame)"
proof -
  have "initial_bos frame = push_bit 21 (drop_bit 21 (frame - 2 * stack_size))"
    unfolding initial_bos_def stack_size_mask by (rule bit_eqI) (auto simp: bit_simps)
  then have "take_bit 21 (initial_bos frame) = 0"
    by (simp add: take_bit_push_bit)
  then have "take_bit 21 (unat (initial_bos frame)) = 0"
    by (simp only: unsigned_take_bit_eq [symmetric] unsigned_0)
  then show ?thesis by (simp only: take_bit_eq_mod dvd_eq_mod_eq_0)
qed

lemma unat_stack_size: "unat stack_size = 2 ^ 21"
  by (simp add: stack_size_def)

lemma unat_seg_offset:
  assumes "seg < 2048"
  shows "unat (of_nat seg * stack_size) = seg * 2 ^ 21"
proof -
  have "of_nat seg * stack_size = (of_nat (seg * 2 ^ 21) :: addr)" by (simp add: stack_size_def)
  moreover have "seg * 2 ^ 21 < 2 ^ 32" using assms by simp
  ultimately show ?thesis by (simp only: unat_of_nat) (simp add: take_bit_eq_mod)
qed

lemma SEG_THREAD_THREAD_SEG:
  assumes "seg < 2048"
  shows "SEG_THREAD K bos (THREAD_SEG K bos seg) = seg"
proof -
  have "bos - (THREAD_SEG K bos seg + sizeof_descr K) = of_nat seg * stack_size"
    by (simp add: THREAD_SEG_def)
  then have "SEG_THREAD K bos (THREAD_SEG K bos seg) = unat (of_nat seg * stack_size) div unat stack_size"
    by (simp only: SEG_THREAD_def unat_div)
  then show ?thesis using assms by (simp add: unat_seg_offset unat_stack_size)
qed

text \<open>The stack pointer of a thread lies in the thread's segment, below its descriptor.\<close>

definition in_segment :: "addr \<Rightarrow> nat \<Rightarrow> addr \<Rightarrow> bool" where
  "in_segment bos seg sp \<longleftrightarrow>
     (seg + 1) * 2 ^ 21 \<le> unat bos \<and> unat bos - (seg + 1) * 2 ^ 21 \<le> unat sp \<and> unat sp < unat bos - seg * 2 ^ 21"

lemma in_segment_drop:
  assumes "2 ^ 21 dvd unat bos" and "in_segment bos seg sp"
  shows "drop_bit 21 sp + 1 = of_nat (unat bos div 2 ^ 21 - seg)"
proof -
  obtain q where q: "unat bos = 2 ^ 21 * q" using assms(1) by (rule dvdE)
  then have s: "seg + 1 \<le> q" "(q - (seg + 1)) * 2 ^ 21 \<le> unat sp" "unat sp < (q - seg) * 2 ^ 21"
    using assms(2) by (simp_all add: in_segment_def algebra_simps)
  have "unat sp div 2 ^ 21 = q - (seg + 1)"
    by (rule div_nat_eqI) (use s in \<open>simp_all add: algebra_simps\<close>)
  then have "unat (drop_bit 21 sp) = q - (seg + 1)" 
    by (simp only: unat_drop_bit_eq) (simp only: drop_bit_eq_div)
  then have "drop_bit 21 sp = of_nat (q - (seg + 1))" by (metis of_nat_unat ucast_id)
  then have "drop_bit 21 sp + 1 = of_nat (Suc (q - (seg + 1)))" by simp
  also have "Suc (q - (seg + 1)) = q - seg" using s(1) by simp
  also have "q = unat bos div 2 ^ 21" using q by simp
  finally show ?thesis .
qed

lemma segment_end:
  assumes "2 ^ 21 dvd unat bos" and "in_segment bos seg sp"
  shows "(sp OR (stack_size - 1)) + 1 = bos - of_nat seg * stack_size"
proof -
  obtain q where q: "unat bos = 2 ^ 21 * q" using assms(1) by (rule dvdE)
  then have qs: "unat bos div 2 ^ 21 = q" "seg \<le> q" using assms(2) by (simp_all add: in_segment_def)
  have "(sp OR (stack_size - 1)) + 1 = 2 ^ 21 * of_nat (q - seg)"
    unfolding stack_size_mask or_mask_plus_one in_segment_drop [OF assms] qs(1) ..
  also have "\<dots> = 2 ^ 21 * of_nat q - 2 ^ 21 * of_nat seg" using qs(2) by (simp add: of_nat_diff algebra_simps)
  also have "2 ^ 21 * of_nat q = bos" using q by (metis of_nat_mult of_nat_numeral of_nat_power of_nat_unat ucast_id)
  finally show ?thesis by (simp add: stack_size_def mult.commute)
qed

section \<open>The search for a segment\<close>

text \<open>The table has as many entries as the counter says.\<close>

definition segs_wf :: "st \<Rightarrow> bool" where
  "segs_wf s \<longleftrightarrow> length (stack_segments s) = num_stack_segments s"

text \<open>Segments beyond the table count as free.\<close>

definition seg_used :: "st \<Rightarrow> nat \<Rightarrow> bool" where
  "seg_used s i \<longleftrightarrow> i < num_stack_segments s \<and> stack_segments s ! i"

lemma grow_effect:
  assumes "segs_wf s" and "pthread_grow_stack_segments K s = (r, s1)" and "r \<noteq> - 1"
  shows "segs_wf s1" and "num_stack_segments s < num_stack_segments s1"
    and "seg_used s1 i = seg_used s i" and "initial_thread_bos s1 = initial_thread_bos s"
    and "descr s1 = descr s"
  using assms
  by (auto simp: pthread_grow_stack_segments_def segs_wf_def seg_used_def nth_append Let_def split: if_splits)

text \<open>Whether the stack of segment \<open>j\<close> can be mapped.\<close>

definition seg_mappable :: "kern \<Rightarrow> addr \<Rightarrow> nat \<Rightarrow> st \<Rightarrow> bool" where
  "seg_mappable K bos j s = mmap_ok K (THREAD_SEG K bos j + sizeof_descr K - of_nat (INITIAL_STACK_SIZE K)) s"

text \<open>One pass of the search, with a table that has been grown if necessary.\<close>

lemma alloc_pass:
  assumes "segs_wf s" and "sseg \<le> num_stack_segments s" and "\<And>n s. malloc_ok K n s"
  obtains s1 where "segs_wf s1" and "sseg < num_stack_segments s1" and "\<And>i. seg_used s1 i = seg_used s i"
    and "initial_thread_bos s1 = initial_thread_bos s"
    and "alloc_segment K sseg s =
      (if seg_used s sseg then alloc_segment K (sseg + 1) s1
       else let s2 = s1\<lparr>stack_segments := (stack_segments s1)[sseg := True]\<rparr>
            in if seg_mappable K (initial_thread_bos s) sseg s2 then Some (Some sseg, s2)
               else alloc_segment K (sseg + 1) s2)"
proof -
  obtain r s1 where g: "(if sseg \<ge> num_stack_segments s then pthread_grow_stack_segments K s else (0, s)) = (r, s1)"
    by (cases "if sseg \<ge> num_stack_segments s then pthread_grow_stack_segments K s else (0, s)")
  have r: "r \<noteq> - 1" using g assms(3) by (auto simp: pthread_grow_stack_segments_def Let_def split: if_splits)
  have s1: "segs_wf s1" "sseg < num_stack_segments s1" "\<And>i. seg_used s1 i = seg_used s i"
    "initial_thread_bos s1 = initial_thread_bos s"
    using g r assms(1,2) grow_effect [OF assms(1), of K r s1] by (auto split: if_splits)
  then have "stack_segments s1 ! sseg = seg_used s1 sseg" by (simp add: seg_used_def)
  then have "stack_segments s1 ! sseg = seg_used s sseg" by (simp only: s1(3))
  then have "alloc_segment K sseg s =
      (if seg_used s sseg then alloc_segment K (sseg + 1) s1
       else let s2 = s1\<lparr>stack_segments := (stack_segments s1)[sseg := True]\<rparr>
            in if seg_mappable K (initial_thread_bos s) sseg s2 then Some (Some sseg, s2)
               else alloc_segment K (sseg + 1) s2)"
    using g r s1(4) by (subst alloc_segment.simps) (simp add: seg_mappable_def)
  with s1 show thesis by (rule that)
qed

lemma seg_used_mark:
  assumes "segs_wf s" and "j < num_stack_segments s"
  shows "seg_used (s\<lparr>stack_segments := (stack_segments s)[j := True]\<rparr>) i = (i = j \<or> seg_used s i)"
    and "segs_wf (s\<lparr>stack_segments := (stack_segments s)[j := True]\<rparr>)"
  using assms by (auto simp: seg_used_def segs_wf_def nth_list_update)

text \<open>
  What a search that started at \<open>sseg\<close> and found \<open>j\<close> has done: \<open>j\<close> was free, can be mapped and is now
  marked, and the segments it passed were in use or are now marked.
\<close>

definition seg_found :: "kern \<Rightarrow> nat \<Rightarrow> st \<Rightarrow> nat \<Rightarrow> st \<Rightarrow> bool" where
  "seg_found K sseg s j s' \<longleftrightarrow>
     sseg \<le> j \<and> \<not> seg_used s j \<and> segs_wf s' \<and> j < num_stack_segments s' \<and>
     seg_mappable K (initial_thread_bos s) j s' \<and>
     (\<forall>i. seg_used s' i = (seg_used s i \<or> (sseg \<le> i \<and> i \<le> j)))"

lemma seg_found_pass:
  assumes "seg_found K (sseg + 1) s1 j s'" and "\<And>i. seg_used s1 i = (i = sseg \<or> seg_used s i)"
    and "initial_thread_bos s1 = initial_thread_bos s"
  shows "seg_found K sseg s j s'"
proof -
  from assms(1) have j: "sseg + 1 \<le> j" "\<not> seg_used s1 j" "segs_wf s'" "j < num_stack_segments s'"
    "seg_mappable K (initial_thread_bos s1) j s'"
    and u: "\<And>i. seg_used s' i = (seg_used s1 i \<or> (sseg + 1 \<le> i \<and> i \<le> j))"
    unfolding seg_found_def by blast+
  have "seg_used s' i = (seg_used s i \<or> (sseg \<le> i \<and> i \<le> j))" for i
    unfolding u assms(2) using j(1) by auto
  moreover have "\<not> seg_used s j" using j(2) unfolding assms(2) by blast
  ultimately show ?thesis using j unfolding seg_found_def assms(3) by simp
qed

text \<open>
  If some segment \<open>k\<close> is free and can be mapped, and memory does not run out, the search ends at a
  segment no later than \<open>k\<close>.
\<close>

lemma alloc_segment_finds:
  assumes "segs_wf s" and "sseg \<le> num_stack_segments s" and "sseg \<le> k" and "\<not> seg_used s k"
    and "\<And>n s. malloc_ok K n s" and "\<And>t. seg_mappable K (initial_thread_bos s) k t"
  shows "\<exists>j s'. alloc_segment K sseg s = Some (Some j, s') \<and> j \<le> k \<and> seg_found K sseg s j s'"
  using assms(1-4,6)
proof (induction "k - sseg" arbitrary: sseg s rule: less_induct)
  case less
  obtain s1 where s1: "segs_wf s1" "sseg < num_stack_segments s1" "\<And>i. seg_used s1 i = seg_used s i"
    "initial_thread_bos s1 = initial_thread_bos s"
    and eq: "alloc_segment K sseg s =
      (if seg_used s sseg then alloc_segment K (sseg + 1) s1
       else let s2 = s1\<lparr>stack_segments := (stack_segments s1)[sseg := True]\<rparr>
            in if seg_mappable K (initial_thread_bos s) sseg s2 then Some (Some sseg, s2)
               else alloc_segment K (sseg + 1) s2)"
    using alloc_pass [OF less.prems(1,2) assms(5)] by blast
  define s2 where "s2 = (if seg_used s sseg then s1
    else s1\<lparr>stack_segments := (stack_segments s1)[sseg := True]\<rparr>)"
  have s2: "segs_wf s2" "sseg < num_stack_segments s2" "initial_thread_bos s2 = initial_thread_bos s"
    "\<And>i. seg_used s2 i = (i = sseg \<or> seg_used s i)"
    using s1 seg_used_mark [OF s1(1,2)] by (auto simp: s2_def)
  show ?case
  proof (cases "\<not> seg_used s sseg \<and> seg_mappable K (initial_thread_bos s) sseg s2")
    case True
    then have "alloc_segment K sseg s = Some (Some sseg, s2)" using eq by (auto simp: s2_def Let_def)
    moreover have "seg_used s2 i = (seg_used s i \<or> (sseg \<le> i \<and> i \<le> sseg))" for i
      unfolding s2(4) by auto
    then have "seg_found K sseg s sseg s2" using True s2(1-3) unfolding seg_found_def by blast
    ultimately show ?thesis using less.prems(3) by blast
  next
    case False
    then have k: "sseg + 1 \<le> k" using less.prems(3-5) by (cases "sseg = k") auto
    have a: "alloc_segment K sseg s = alloc_segment K (sseg + 1) s2"
    proof (cases "seg_used s sseg")
      case True
      then show ?thesis unfolding eq s2_def by simp
    next
      case unused: False
      then show ?thesis using False unfolding eq s2_def Let_def by simp
    qed
    have "\<exists>j s'. alloc_segment K (sseg + 1) s2 = Some (Some j, s') \<and> j \<le> k \<and> seg_found K (sseg + 1) s2 j s'"
      by (rule less.hyps) (use k less.prems(4,5) s2 in simp_all)
    then obtain j s' where j: "alloc_segment K (sseg + 1) s2 = Some (Some j, s')" "j \<le> k"
      "seg_found K (sseg + 1) s2 j s'" by blast
    from seg_found_pass [OF j(3) s2(4,3)] a j(1,2) show ?thesis by simp
  qed
qed

text \<open>The search changes nothing but the table.\<close>

definition table_only :: "st \<Rightarrow> st \<Rightarrow> bool" where
  "table_only s s' \<longleftrightarrow> (\<exists>l n. s' = s\<lparr>stack_segments := l, num_stack_segments := n\<rparr>)"

lemma table_only_refl: "table_only s s"
  unfolding table_only_def by (intro exI [of _ "stack_segments s"] exI [of _ "num_stack_segments s"]) simp

lemma table_only_trans: "table_only s t \<Longrightarrow> table_only t u \<Longrightarrow> table_only s u"
  unfolding table_only_def by fastforce

lemma table_only_mark:
  assumes "table_only s t"
  shows "table_only s (t\<lparr>stack_segments := l\<rparr>)"
proof -
  from assms obtain k n where "t = s\<lparr>stack_segments := k, num_stack_segments := n\<rparr>"
    by (auto simp: table_only_def)
  then have "t\<lparr>stack_segments := l\<rparr> = s\<lparr>stack_segments := l, num_stack_segments := n\<rparr>" by simp
  then show ?thesis unfolding table_only_def by blast
qed

lemma table_only_fields:
  assumes "table_only s s'"
  shows "descr s' = descr s" "initial_thread_bos s' = initial_thread_bos s" "klog s' = klog s"
    "main_thread s' = main_thread s" "initial_thread s' = initial_thread s" "reqs s' = reqs s"
    "main_thread_exiting s' = main_thread_exiting s" "manager_thread s' = manager_thread s"
    "manager_request s' = manager_request s" "sigmask s' = sigmask s" "cleanup_bufs s' = cleanup_bufs s"
  using assms by (auto simp: table_only_def)

lemma table_only_grow: "table_only s (snd (pthread_grow_stack_segments K s))"
  using table_only_refl [of s] by (auto simp: pthread_grow_stack_segments_def Let_def table_only_def)

lemma alloc_segment_frame:
  assumes "alloc_segment K sseg s = Some (r, s')"
  shows "table_only s s'"
proof -
  have "table_only s (snd (r, s'))"
  proof (rule alloc_segment.raw_induct [where P = "\<lambda>K sseg s x. table_only s (snd x)", OF _ assms])
    fix f :: "kern \<Rightarrow> nat \<Rightarrow> st \<Rightarrow> (nat option \<times> st) option" and K sseg s x
    let ?g = "if sseg \<ge> num_stack_segments s then pthread_grow_stack_segments K s else (0, s)"
    let ?mark = "\<lambda>s. s\<lparr>stack_segments := (stack_segments s)[sseg := True]\<rparr>"
    assume IH: "\<And>K sseg s x. f K sseg s = Some x \<Longrightarrow> table_only s (snd x)"
      and eq: "(let (r, s1) = ?g in if r = - 1 then Some (None, s1)
         else if stack_segments s1 ! sseg then f K (sseg + 1) s1
         else let s2 = ?mark s1; new_thread = THREAD_SEG K (initial_thread_bos s2) sseg
           in if mmap_ok K (new_thread + sizeof_descr K - of_nat (INITIAL_STACK_SIZE K)) s2
              then Some (Some sseg, s2) else f K (sseg + 1) s2) = Some x"
    have t1: "table_only s (snd ?g)" using table_only_grow table_only_refl by simp
    then have t2: "table_only s (?mark (snd ?g))" by (rule table_only_mark)
    obtain r s1 where g: "?g = (r, s1)" by (cases ?g)
    have "snd x = s1 \<or> snd x = ?mark s1 \<or> f K (sseg + 1) s1 = Some x \<or> f K (sseg + 1) (?mark s1) = Some x"
      using eq unfolding g Let_def prod.case by (auto simp only: snd_conv option.inject split: if_splits)
    then show "table_only s (snd x)"
      using t1 t2 table_only_trans [OF t1 IH] table_only_trans [OF t2 IH] unfolding g snd_conv by metis
  qed
  then show ?thesis by simp
qed

text \<open>When every segment of the table is used and the table cannot grow, the search fails.\<close>

lemma alloc_segment_full:
  assumes "\<And>i. sseg \<le> i \<Longrightarrow> i < num_stack_segments s \<Longrightarrow> stack_segments s ! i" and "\<And>n. \<not> malloc_ok K n s"
  shows "alloc_segment K sseg s = Some (None, s)"
  using assms(1)
proof (induction "num_stack_segments s - sseg" arbitrary: sseg)
  case 0
  then show ?case using assms(2)
    by (subst alloc_segment.simps) (simp add: pthread_grow_stack_segments_def Let_def)
next
  case (Suc x)
  then have "alloc_segment K (Suc sseg) s = Some (None, s)" "sseg < num_stack_segments s" by simp_all
  then show ?case using Suc.prems by (subst alloc_segment.simps) simp
qed

section \<open>Properties\<close>

text \<open>
  C26. Stack segments and descriptors. With the limit of the initial stack computed by
  \<open>__pthread_initialize\<close>, for every segment that fits below it: \<open>thread_self\<close> of any stack pointer in the
  segment (outside the stack of the manager) is the descriptor of the segment, and \<open>SEG_THREAD\<close> maps
  that descriptor back to the number of the segment. Segments have different descriptors.
\<close>

theorem thread_self_finds_descriptor:
  assumes "initial_thread_bos s = initial_bos frame" and "in_segment (initial_thread_bos s) seg sp"
    and "\<not> (manager_thread_bos s \<le> sp \<and> sp < manager_thread_tos s)"
  shows "thread_self K s sp = THREAD_SEG K (initial_thread_bos s) seg \<and>
    SEG_THREAD K (initial_thread_bos s) (THREAD_SEG K (initial_thread_bos s) seg) = seg"
proof -
  let ?bos = "initial_thread_bos s"
  have al: "2 ^ 21 dvd unat ?bos" using initial_bos_aligned [of frame] assms(1) by simp
  have "unat sp < unat ?bos" using assms(2) unfolding in_segment_def by linarith
  then have "\<not> sp \<ge> ?bos" by (simp add: word_le_nat_alt)
  then have self: "thread_self K s sp = THREAD_SEG K ?bos seg"
    using assms(3) segment_end [OF al assms(2)] by (auto simp: thread_self_def THREAD_SEG_def)
  have "(seg + 1) * 2 ^ 21 \<le> unat ?bos" using assms(2) by (simp add: in_segment_def)
  moreover have "unat ?bos < 2 ^ 32" by (rule order.strict_trans2 [OF unsigned_less]) simp
  ultimately have "seg < 2048" by simp
  with self show ?thesis by (simp add: SEG_THREAD_THREAD_SEG)
qed

theorem thread_self_finds_descriptor_witness:
  "thread_self easy_kern (zero_st\<lparr>initial_thread_bos := initial_bos 0xbffff000\<rparr>) 0xbf812345 =
     THREAD_SEG easy_kern (initial_bos 0xbffff000) 0"
proof -
  let ?s = "zero_st\<lparr>initial_thread_bos := initial_bos 0xbffff000\<rparr>"
  have b: "initial_bos 0xbffff000 = 0xbfa00000"
    by (simp add: initial_bos_def stack_size_def)
  then have "in_segment (initial_thread_bos ?s) 0 0xbf812345" by (simp add: in_segment_def)
  moreover have "\<not> (manager_thread_bos ?s \<le> 0xbf812345 \<and> 0xbf812345 < manager_thread_tos ?s)"
    by (simp add: zero_st_def)
  ultimately show ?thesis
    using thread_self_finds_descriptor [of ?s "0xbffff000" 0 "0xbf812345" easy_kern] by simp
qed

text \<open>
  C27. The search for a stack segment at the start of thread creation terminates whenever there is a
  free segment that can be mapped and memory for the table: it marks and returns a segment that was
  free and can be mapped, not later than that one, and marks besides only free segments it has found
  unmappable on the way.
\<close>

theorem alloc_segment_terminates:
  assumes "segs_wf s" and "\<not> seg_used s k" and "\<And>n s. malloc_ok K n s"
    and "\<And>t. seg_mappable K (initial_thread_bos s) k t"
  shows "\<exists>j s'. alloc_segment K 0 s = Some (Some j, s') \<and> j \<le> k \<and> \<not> seg_used s j \<and>
    segs_wf s' \<and> seg_mappable K (initial_thread_bos s) j s' \<and>
    (\<forall>i. seg_used s' i = (seg_used s i \<or> i \<le> j))"
  using alloc_segment_finds [OF assms(1) _ _ assms(2,3,4), of 0] by (auto simp: seg_found_def)

theorem alloc_segment_terminates_witness:
  "\<exists>j s'. alloc_segment easy_kern 0 zero_st = Some (Some j, s') \<and> j \<le> 0 \<and> seg_used s' 0"
proof -
  have "segs_wf zero_st" "\<not> seg_used zero_st 0" by (simp_all add: segs_wf_def seg_used_def zero_st_def)
  moreover have "malloc_ok easy_kern n s" "seg_mappable easy_kern b 0 t" for n s b t
    by (simp_all add: easy_kern_def seg_mappable_def)
  ultimately show ?thesis using alloc_segment_terminates [of zero_st 0 easy_kern] by fastforce
qed

end
