(* ===== verification/Ring.thy ===== *)
theory Ring
  imports Restart
begin

text \<open>
  The doubly linked ring of live threads (\<open>p_nextlive\<close>, \<open>p_prevlive\<close>), which starts and ends at the
  main thread and belongs to the thread manager (\<open>manager.c\<close>): insertion behind the main thread, removal,
  the search for a process id, and the loop that sends a signal to every thread of the ring.
\<close>

text \<open>The insertion in \<open>pthread_handle_create\<close>; \<open>m\<close> is \<open>__pthread_main_thread\<close>.\<close>

definition insert_live :: "pthread_t \<Rightarrow> pthread_t \<Rightarrow> st \<Rightarrow> st" where
  "insert_live m new_thread s =
     (let s = upd_th new_thread (p_prevlive_update (\<lambda>_. m)) s;
          s = upd_th new_thread (p_nextlive_update (\<lambda>_. p_nextlive (descr s m))) s;
          s = upd_th (p_nextlive (descr s m)) (p_prevlive_update (\<lambda>_. new_thread)) s
      in upd_th m (p_nextlive_update (\<lambda>_. new_thread)) s)"

text \<open>The removal in \<open>pthread_exited\<close>.\<close>

definition unlink_live :: "pthread_t \<Rightarrow> st \<Rightarrow> st" where
  "unlink_live th s =
     (let s = upd_th (p_nextlive (descr s th)) (p_prevlive_update (\<lambda>_. p_prevlive (descr s th))) s
      in upd_th (p_prevlive (descr s th)) (p_nextlive_update (\<lambda>_. p_nextlive (descr s th))) s)"

text \<open>
  The loops \<open>for (th = m->p_nextlive; th != m; th = th->p_nextlive)\<close>: the search for a process id in
  \<open>pthread_exited\<close>, and the signals of \<open>pthread_kill_all_threads\<close> and \<open>pthread_handle_exit\<close>.
\<close>

partial_function (option) find_pid :: "int \<Rightarrow> pthread_t \<Rightarrow> pthread_t \<Rightarrow> st \<Rightarrow> pthread_t option option" where
  "find_pid pid m th s =
     (if th = m then Some None
      else if p_pid (descr s th) = pid then Some (Some th)
      else find_pid pid m (p_nextlive (descr s th)) s)"

partial_function (option) kill_each :: "nat \<Rightarrow> pthread_t \<Rightarrow> pthread_t \<Rightarrow> st \<Rightarrow> st option" where
  "kill_each sig m th s =
     (if th = m then Some s
      else kill_each sig m (p_nextlive (descr s th)) (kill (p_pid (descr s th)) sig s))"

section \<open>The shape of the ring\<close>

abbreviation nextlive :: "heap \<Rightarrow> pthread_t \<Rightarrow> pthread_t" where
  "nextlive h \<equiv> \<lambda>t. p_nextlive (h t)"

primrec prevs :: "heap \<Rightarrow> pthread_t \<Rightarrow> pthread_t list \<Rightarrow> bool" where
  "prevs h p [] \<longleftrightarrow> True"
| "prevs h p (x # xs) \<longleftrightarrow> p_prevlive (h x) = p \<and> prevs h x xs"

text \<open>
  \<open>is_ring h m ths\<close>: forwards from the main thread \<open>m\<close> come the threads \<open>ths\<close> and then \<open>m\<close> again, and
  the back links lead the same way backwards. When the main thread is alone its back link is never
  read, and nothing is said about it.
\<close>

definition is_ring :: "heap \<Rightarrow> pthread_t \<Rightarrow> pthread_t list \<Rightarrow> bool" where
  "is_ring h m ths \<longleftrightarrow> chain (nextlive h) m (p_nextlive (h m)) ths \<and> (ths \<noteq> [] \<longrightarrow> prevs h m (ths @ [m]))"

text \<open>A descriptor without its links: what insertion and removal leave as it is.\<close>

definition links_off :: "pthread_descr \<Rightarrow> pthread_descr" where
  "links_off d = d\<lparr>p_nextlive := NULL, p_prevlive := NULL\<rparr>"

lemma links_off_simps [simp]:
  "links_off (p_nextlive_update f d) = links_off d" "links_off (p_prevlive_update f d) = links_off d"
  by (simp_all add: links_off_def)

lemma links_off_fields:
  assumes "links_off d = links_off e"
  shows "p_pid d = p_pid e" "p_spinlock d = p_spinlock e" "p_detached d = p_detached e"
    "p_exited d = p_exited e" "p_retval d = p_retval e" "p_terminated d = p_terminated e"
    "p_joining d = p_joining e" "p_initial_fn d = p_initial_fn e" "p_initial_fn_arg d = p_initial_fn_arg e"
    "p_initial_mask d = p_initial_mask e" "p_signal d = p_signal e" "p_specific d = p_specific e"
    "p_cleanup d = p_cleanup e" "p_cancelstate d = p_cancelstate e" "p_canceltype d = p_canceltype e"
    "p_canceled d = p_canceled e" "p_signal_jmp d = p_signal_jmp e" "p_cancel_jmp d = p_cancel_jmp e"
  using assms by (cases d; cases e; simp add: links_off_def)+

lemma insert_live_links_off [simp]: "links_off (descr (insert_live m n s) t) = links_off (descr s t)"
  by (simp add: insert_live_def Let_def)

lemma unlink_live_links_off [simp]: "links_off (descr (unlink_live th s) t) = links_off (descr s t)"
  by (simp add: unlink_live_def Let_def)

lemma insert_live_frame: "\<exists>h. insert_live m n s = s\<lparr>descr := h\<rparr>"
  by (auto simp: insert_live_def Let_def upd_th_def)

lemma unlink_live_frame: "\<exists>h. unlink_live th s = s\<lparr>descr := h\<rparr>"
  by (auto simp: unlink_live_def Let_def upd_th_def)

lemma prevs_cong: "(\<And>x. x \<in> set xs \<Longrightarrow> p_prevlive (g x) = p_prevlive (h x)) \<Longrightarrow> prevs g p xs = prevs h p xs"
  by (induction xs arbitrary: p) auto

lemma prevs_append: "prevs h p (xs @ ys) \<longleftrightarrow> prevs h p xs \<and> prevs h (last (p # xs)) ys"
  by (induction xs arbitrary: p) auto

lemma is_ring_distinct: "is_ring h m ths \<Longrightarrow> distinct (m # ths)"
  by (auto simp: is_ring_def dest: chain_distinct chain_not_mem_stop)

lemma is_ring_cong:
  assumes "\<And>x. x \<in> insert m (set ths) \<Longrightarrow> p_nextlive (g x) = p_nextlive (h x)"
    and "\<And>x. x \<in> insert m (set ths) \<Longrightarrow> p_prevlive (g x) = p_prevlive (h x)"
  shows "is_ring g m ths = is_ring h m ths"
proof -
  have "chain (nextlive g) m (p_nextlive (g m)) ths = chain (nextlive h) m (p_nextlive (h m)) ths"
    using assms(1) by (simp add: chain_cong [of ths "nextlive g" "nextlive h"])
  moreover have "prevs g m (ths @ [m]) = prevs h m (ths @ [m])"
    by (rule prevs_cong) (use assms(2) in auto)
  ultimately show ?thesis by (simp add: is_ring_def)
qed

section \<open>Insertion and removal\<close>

lemma insert_live_links:
  assumes "n \<noteq> m" and "n \<noteq> p_nextlive (descr s m)"
  shows "p_nextlive (descr (insert_live m n s) t) =
      (if t = m then n else if t = n then p_nextlive (descr s m) else p_nextlive (descr s t))"
    and "p_prevlive (descr (insert_live m n s) t) =
      (if t = p_nextlive (descr s m) then n else if t = n then m else p_prevlive (descr s t))"
  using assms by (auto simp: insert_live_def Let_def)

lemma insert_live_ring:
  assumes r: "is_ring (descr s) m ths" and n: "n \<notin> set (m # ths)"
  shows "is_ring (descr (insert_live m n s)) m (n # ths)"
proof -
  let ?h = "descr s" and ?g = "descr (insert_live m n s)"
  from r have c: "chain (nextlive ?h) m (p_nextlive (?h m)) ths" by (simp add: is_ring_def)
  then have f: "p_nextlive (?h m) = hd (ths @ [m])" by (cases ths) auto
  then have nn: "n \<noteq> p_nextlive (?h m)" using n by (cases ths) auto
  note l = insert_live_links [of n m s, OF _ nn]
  have nm: "n \<noteq> m" using n by auto
  have mt: "m \<notin> set ths" using is_ring_distinct [OF r] by simp
  have "chain (nextlive ?g) m (p_nextlive (?h m)) ths = chain (nextlive ?h) m (p_nextlive (?h m)) ths"
    by (rule chain_cong) (use n mt l(1) [OF nm] in auto)
  then have "chain (nextlive ?g) m (p_nextlive (?g m)) (n # ths)" using c nm l(1) [OF nm] by simp
  moreover have "prevs ?g m (n # ths @ [m])"
  proof (cases ths)
    case Nil
    then show ?thesis using l(2) [OF nm] f nm by simp
  next
    case (Cons t ts)
    from r Cons have p: "prevs ?h t (ts @ [m])" by (simp add: is_ring_def)
    have "prevs ?g t (ts @ [m]) = prevs ?h t (ts @ [m])"
      by (rule prevs_cong) (use is_ring_distinct [OF r] n Cons f l(2) [OF nm] in auto)
    then show ?thesis using p Cons f n l(2) [OF nm] by auto
  qed
  ultimately show ?thesis by (simp add: is_ring_def)
qed

text \<open>The neighbours of a thread of the ring.\<close>

lemma is_ring_next:
  "is_ring h m (xs @ t # ys) \<Longrightarrow> p_nextlive (h t) = hd (ys @ [m])"
  by (cases ys) (auto simp: is_ring_def dest: chain_suffix)

lemma is_ring_prev:
  "is_ring h m (xs @ t # ys) \<Longrightarrow> p_prevlive (h t) = last (m # xs)"
  by (auto simp: is_ring_def prevs_append)

lemma unlink_live_links:
  assumes "p_nextlive (descr s th) \<noteq> th"
  shows "p_nextlive (descr (unlink_live th s) t) =
      (if t = p_prevlive (descr s th) then p_nextlive (descr s th) else p_nextlive (descr s t))"
    and "p_prevlive (descr (unlink_live th s) t) =
      (if t = p_nextlive (descr s th) then p_prevlive (descr s th) else p_prevlive (descr s t))"
  using assms by (auto simp: unlink_live_def Let_def)

lemma unlink_live_ring:
  assumes r: "is_ring (descr s) m (xs @ t # ys)"
  shows "is_ring (descr (unlink_live t s)) m (xs @ ys)"
proof -
  let ?h = "descr s" and ?g = "descr (unlink_live t s)" and ?p = "last (m # xs)" and ?q = "hd (ys @ [m])"
  have d: "distinct (m # xs @ t # ys)" by (rule is_ring_distinct [OF r])
  have nt: "p_nextlive (?h t) = ?q" "p_prevlive (?h t) = ?p"
    using is_ring_next [OF r] is_ring_prev [OF r] by simp_all
  have "?q \<noteq> t" using d by (cases ys) auto
  then have l: "p_nextlive (?g u) = (if u = ?p then ?q else p_nextlive (?h u))"
    "p_prevlive (?g u) = (if u = ?q then ?p else p_prevlive (?h u))" for u
    using unlink_live_links [of s t u] nt by simp_all
  have c: "chain (nextlive ?h) m (p_nextlive (?h m)) (xs @ t # ys)" using r by (simp add: is_ring_def)
  have "chain (nextlive ?g) m (p_nextlive (?g m)) (xs @ ys)"
  proof (cases xs rule: rev_exhaust)
    case Nil
    have "chain (nextlive ?g) m ?q ys = chain (nextlive ?h) m ?q ys"
      by (rule chain_cong) (use d l(1) Nil in auto)
    then show ?thesis using c Nil l(1) nt by simp
  next
    case (snoc zs z)
    then have "?p = z" "m \<noteq> z" using d by auto
    with snoc have "chain (nextlive ?g) m (p_nextlive (?h m)) (zs @ z # ys)"
      by (intro chain_unlink [of "nextlive ?h" m "p_nextlive (?h m)" zs z t ys])
        (use c d nt in \<open>auto simp: l\<close>)
    with snoc \<open>?p = z\<close> \<open>m \<noteq> z\<close> show ?thesis by (simp add: l)
  qed
  moreover have "prevs ?g m (xs @ ys @ [m])"
  proof -
    have p: "prevs ?h m xs" "prevs ?h t (ys @ [m])" using r by (auto simp: is_ring_def prevs_append)
    have "prevs ?g m xs = prevs ?h m xs"
      by (rule prevs_cong) (use d l(2) in \<open>cases ys; auto\<close>)
    moreover have "prevs ?g ?p (ys @ [m])"
    proof (cases ys)
      case (Cons y zs)
      have "prevs ?g y (zs @ [m]) = prevs ?h y (zs @ [m])"
        by (rule prevs_cong) (use d l(2) Cons in auto)
      then show ?thesis using p(2) Cons l(2) by simp
    qed (use l(2) in simp)
    ultimately show ?thesis using p(1) by (simp add: prevs_append)
  qed
  ultimately show ?thesis by (simp add: is_ring_def)
qed

section \<open>The loops over the ring\<close>

lemma find_pid_chain:
  "chain (nextlive (descr s)) m th ths \<Longrightarrow> find_pid pid m th s = Some (find (\<lambda>t. p_pid (descr s t) = pid) ths)"
  by (induction ths arbitrary: th) (subst find_pid.simps; auto)+

lemma find_pid_ring:
  "is_ring (descr s) m ths \<Longrightarrow>
     find_pid pid m (p_nextlive (descr s m)) s = Some (find (\<lambda>t. p_pid (descr s t) = pid) ths)"
  by (simp add: is_ring_def find_pid_chain)

lemma kill_frame: "kill pid sig s = s\<lparr>klog := klog s @ [Kill pid sig]\<rparr>"
  by (simp add: kill_def log_def)

lemma kill_each_chain:
  "chain (nextlive (descr s)) m th ths \<Longrightarrow>
     kill_each sig m th s = Some (s\<lparr>klog := klog s @ map (\<lambda>t. Kill (p_pid (descr s t)) sig) ths\<rparr>)"
proof (induction ths arbitrary: th s)
  case Nil
  then show ?case by (subst kill_each.simps) simp
next
  case (Cons t ts)
  then have "kill_each sig m (p_nextlive (descr s t)) (kill (p_pid (descr s t)) sig s) =
    Some (s\<lparr>klog := klog s @ map (\<lambda>t. Kill (p_pid (descr s t)) sig) (t # ts)\<rparr>)"
    using Cons.IH [of "kill (p_pid (descr s t)) sig s" "p_nextlive (descr s t)"] by (simp add: kill_frame)
  then show ?case using Cons.prems by (subst kill_each.simps) simp
qed

text \<open>The ring seen from another of its threads.\<close>

lemma chain_join:
  "chain f m p ys \<Longrightarrow> chain f t (f m) xs \<Longrightarrow> m \<noteq> t \<Longrightarrow> t \<notin> set ys \<Longrightarrow> chain f t p (ys @ m # xs)"
  by (induction ys arbitrary: p) auto

lemma chain_prefix:
  "chain f m p (xs @ t # ys) \<Longrightarrow> chain f t p xs"
proof (induction xs arbitrary: p)
  case (Cons x xs)
  from chain_distinct [OF Cons.prems] have "x \<noteq> t" by auto
  with Cons show ?case by simp
qed simp

lemma ring_rotate:
  assumes "is_ring h m (xs @ t # ys)"
  shows "chain (nextlive h) t (p_nextlive (h t)) (ys @ m # xs)"
proof -
  have c: "chain (nextlive h) m (p_nextlive (h m)) (xs @ t # ys)" using assms by (simp add: is_ring_def)
  from is_ring_distinct [OF assms] have "m \<noteq> t" "t \<notin> set ys" by auto
  with chain_suffix [OF c] chain_prefix [OF c] show ?thesis by (rule chain_join)
qed

lemma ring_alone: "is_ring h m ths \<Longrightarrow> p_nextlive (h m) = m \<longleftrightarrow> ths = []"
  by (cases ths) (auto simp: is_ring_def)

lemma ring_from_member:
  assumes r: "is_ring h m ths" and t: "t \<in> set (m # ths)"
  obtains us where "chain (nextlive h) t (p_nextlive (h t)) us" and "distinct us" and "set us = set (m # ths) - {t}"
proof (cases "t = m")
  case True
  then show ?thesis using that [of ths] r is_ring_distinct [OF r] by (simp add: is_ring_def)
next
  case False
  then have "t \<in> set ths" using t by simp
  then obtain xs ys where ths: "ths = xs @ t # ys" by (auto simp: in_set_conv_decomp)
  with that [of "ys @ m # xs"] is_ring_distinct [OF r] ring_rotate [of h m xs t ys] r False
  show ?thesis by auto
qed

end
