(* ===== verification/Manager.thy ===== *)
theory Manager
  imports Join Segments Ring
begin

text \<open>
  The thread manager (\<open>manager.c\<close>): a thread of its own that creates threads, releases the stacks of
  those that are gone, and takes part in the exit of the process. It is driven by the requests in the
  pipe \<open>reqs\<close> and by the termination of its children, the processes of the threads.

  \<open>mgr_wf\<close> is the invariant of its data: the ring of live threads is well formed, and the descriptors of
  live threads and of threads that have exited but are not yet freed lie in different stack segments,
  all of them marked as used.
\<close>

section \<open>The start of a thread\<close>

definition pthread_start_thread :: "env \<Rightarrow> kern \<Rightarrow> pthread_t \<Rightarrow> st \<Rightarrow> unit res" where
  "pthread_start_thread E K self s =
     (let s = upd_th self (p_pid_update (\<lambda>_. getpid_env K self)) s;
          s = s\<lparr>sigmask := (sigmask s)(self := p_initial_mask (descr s self))\<rparr>;
          (outcome, s) = call_env E (p_initial_fn (descr s self)) (p_initial_fn_arg (descr s self)) s
      in pthread_exit E self outcome s)"

section \<open>Thread creation\<close>

definition init_new_thread ::
  "pthread_attr_t option \<Rightarrow> addr \<Rightarrow> addr \<Rightarrow> sigset \<Rightarrow> pthread_descr \<Rightarrow> pthread_descr" where
  "init_new_thread attr start_routine arg msk d = d\<lparr>
     p_nextwaiting := NULL, p_spinlock := 0, p_signal := 0, p_signal_jmp := False,
     p_cancel_jmp := False, p_terminated := False,
     p_detached := (case attr of None \<Rightarrow> 0 | Some a \<Rightarrow> detachstate a),
     p_exited := False, p_retval := NULL, p_joining := NULL, p_cleanup := NULL,
     p_cancelstate := PTHREAD_CANCEL_ENABLE, p_canceltype := PTHREAD_CANCEL_DEFERRED,
     p_canceled := False, p_errno := 0, p_h_errno := 0, p_initial_fn := start_routine,
     p_initial_fn_arg := arg, p_initial_mask := msk,
     p_specific := replicate PTHREAD_KEYS_MAX NULL\<rparr>"

text \<open>The results of the scheduling calls are ignored.\<close>

definition set_new_sched :: "kern \<Rightarrow> pthread_attr_t option \<Rightarrow> int \<Rightarrow> int \<Rightarrow> st \<Rightarrow> st" where
  "set_new_sched K attr pid father_pid s =
     (case attr of None \<Rightarrow> s
      | Some a \<Rightarrow>
        if schedpolicy a \<noteq> SCHED_OTHER then
          if inheritsched a = PTHREAD_EXPLICIT_SCHED
            then log (Setscheduler pid (schedpolicy a) (sched_priority a)) s
          else if inheritsched a = PTHREAD_INHERIT_SCHED
            then log (Setscheduler pid (sched_getscheduler_env K father_pid) (sched_getparam_env K father_pid)) s
          else s
        else s)"

text \<open>
  The first parameter of the C function is the address of the field \<open>p_retval\<close> of the requesting
  thread; here \<open>thread\<close> is that thread. The new process runs \<open>pthread_start_thread\<close>.
\<close>

definition pthread_handle_create ::
  "kern \<Rightarrow> pthread_t \<Rightarrow> pthread_attr_t option \<Rightarrow> addr \<Rightarrow> addr \<Rightarrow> sigset \<Rightarrow> int \<Rightarrow> st \<Rightarrow> (int \<times> st) option" where
  "pthread_handle_create K thread attr start_routine arg msk father_pid s = do {
     (found, s) \<leftarrow> alloc_segment K 0 s;
     (case found of None \<Rightarrow> Some (EAGAIN, s)
      | Some sseg \<Rightarrow> do {
        let new_thread = THREAD_SEG K (initial_thread_bos s) sseg;
        let s = upd_th new_thread (init_new_thread attr start_routine arg msk) s;
        let pid = clone_env K new_thread s;
        if pid = - 1 then do {
          let s = log (Munmap (new_thread + sizeof_descr K - of_nat (INITIAL_STACK_SIZE K)) (INITIAL_STACK_SIZE K)) s;
          Some (EAGAIN, s\<lparr>stack_segments := (stack_segments s)[sseg := False]\<rparr>) }
        else do {
          let s = set_new_sched K attr pid father_pid s;
          let s = insert_live (main_thread s) new_thread s;
          let s = upd_th new_thread (p_pid_update (\<lambda>_. pid)) s;
          Some (0, upd_th thread (p_retval_update (\<lambda>_. new_thread)) s) } }) }"

section \<open>Release of threads\<close>

definition pthread_free :: "kern \<Rightarrow> pthread_t \<Rightarrow> st \<Rightarrow> st" where
  "pthread_free K th s =
     (if th = initial_thread s then s
      else
        let sseg = SEG_THREAD K (initial_thread_bos s) th;
            s = log (Munmap (th + sizeof_descr K - stack_size) STACK_SIZE) s
        in s\<lparr>stack_segments := (stack_segments s)[sseg := False]\<rparr>)"

definition pthread_exited :: "kern \<Rightarrow> int \<Rightarrow> st \<Rightarrow> unit res" where
  "pthread_exited K pid s = do {
     found \<leftarrow> find_pid pid (main_thread s) (p_nextlive (descr s (main_thread s))) s;
     s \<leftarrow> (case found of None \<Rightarrow> Some s
       | Some th \<Rightarrow> do {
         let s = unlink_live th s;
         s \<leftarrow> acquire_th th s;
         let s = upd_th th (p_exited_update (\<lambda>_. True)) s;
         let detached = p_detached (descr s th);
         let s = release_th th s;
         Some (if detached \<noteq> 0 then pthread_free K th s else s) });
     if main_thread_exiting s \<and> p_nextlive (descr s (main_thread s)) = main_thread s
     then Some (Exit 0, restart (main_thread s) s)
     else Some (Ret (), s) }"

definition pthread_kill_all_threads :: "nat \<Rightarrow> bool \<Rightarrow> st \<Rightarrow> st option" where
  "pthread_kill_all_threads sig main_thread_also s = do {
     s \<leftarrow> kill_each sig (main_thread s) (p_nextlive (descr s (main_thread s))) s;
     Some (if main_thread_also then kill (p_pid (descr s (main_thread s))) sig s else s) }"

text \<open>
  The status of a child: it has exited, or a signal has terminated it. The argument of
  \<open>pthread_reap_children\<close> are the successive results of \<open>__libc_waitpid\<close>.
\<close>

datatype wstatus = WExited int | WSignaled nat

fun pthread_reap_children :: "kern \<Rightarrow> (int \<times> wstatus) list \<Rightarrow> st \<Rightarrow> unit res" where
  "pthread_reap_children K [] s = Some (Ret (), s)"
| "pthread_reap_children K ((pid, status) # children) s =
     and_then (pthread_exited K pid s) (\<lambda>_ s.
       case status of
         WSignaled sig \<Rightarrow> do { s \<leftarrow> pthread_kill_all_threads sig True s; Some (Exit 0, s) }
       | WExited _ \<Rightarrow> pthread_reap_children K children s)"

text \<open>
  \<open>pthread_free\<close> unmaps the whole segment, the descriptor at its upper end included, and clears the entry
  of the table: besides the descriptor of the initial thread, only those whose segment is in use can be
  accessed. The request to free a thread starts by taking the lock of the descriptor. If the descriptor is
  in no mapped segment, that access faults and the manager does not go on (\<open>None\<close>).
\<close>

definition mapped :: "kern \<Rightarrow> st \<Rightarrow> pthread_t \<Rightarrow> bool" where
  "mapped K s th \<longleftrightarrow> th = initial_thread s \<or>
     (let sseg = SEG_THREAD K (initial_thread_bos s) th
      in th = THREAD_SEG K (initial_thread_bos s) sseg \<and> seg_used s sseg)"

definition pthread_handle_free :: "kern \<Rightarrow> pthread_t \<Rightarrow> st \<Rightarrow> st option" where
  "pthread_handle_free K th s =
     (if \<not> mapped K s th then None
      else do {
        s \<leftarrow> acquire_th th s;
        Some (if p_exited (descr s th) then pthread_free K th s
              else release_th th (upd_th th (p_detached_update (\<lambda>_. 1)) s)) })"

definition pthread_handle_exit :: "pthread_t \<Rightarrow> int \<Rightarrow> st \<Rightarrow> unit res" where
  "pthread_handle_exit issuing_thread exitcode s = do {
     let s = s\<lparr>exit_requested := True, exit_code := exitcode\<rparr>;
     s \<leftarrow> kill_each PTHREAD_SIG_CANCEL issuing_thread (p_nextlive (descr s issuing_thread)) s;
     Some (Exit 0, restart issuing_thread s) }"

section \<open>The server loop\<close>

definition handle_request :: "kern \<Rightarrow> pthread_request \<Rightarrow> st \<Rightarrow> unit res" where
  "handle_request K request s =
     (case req_kind request of
        REQ_CREATE attr fn arg msk \<Rightarrow> do {
          (retcode, s) \<leftarrow> pthread_handle_create K (req_thread request) attr fn arg msk
            (p_pid (descr s (req_thread request))) s;
          let s = upd_th (req_thread request) (p_retcode_update (\<lambda>_. retcode)) s;
          Some (Ret (), restart (req_thread request) s) }
      | REQ_FREE th \<Rightarrow> do { s \<leftarrow> pthread_handle_free K th s; Some (Ret (), s) }
      | REQ_PROCESS_EXIT code \<Rightarrow> pthread_handle_exit (req_thread request) code s
      | REQ_MAIN_THREAD_EXIT \<Rightarrow>
          let s = s\<lparr>main_thread_exiting := True\<rparr>
          in if p_nextlive (descr s (main_thread s)) = main_thread s
             then Some (Exit 0, restart (main_thread s) s) else Some (Ret (), s))"

text \<open>
  What one pass of the loop meets: the changes of the other threads while the manager waits in
  \<open>__select\<close>, the result of that call, the parent process, and the children that have terminated.
  A pass that reads from an empty pipe never returns.
\<close>

record manager_input =
  i_others :: "st \<Rightarrow> st"
  i_select :: int
  i_ppid :: int
  i_children :: "(int \<times> wstatus) list"

definition manager_pass :: "kern \<Rightarrow> manager_input \<Rightarrow> st \<Rightarrow> unit res" where
  "manager_pass K i s =
     (let s = i_others i s in
      if i_ppid i = 1 then do {
        s \<leftarrow> pthread_kill_all_threads SIGKILL False s;
        Some (Exit 0, s) }
      else
        and_then
          (if terminated_children s
           then pthread_reap_children K (i_children i) (s\<lparr>terminated_children := False\<rparr>)
           else Some (Ret (), s))
          (\<lambda>_ s. if i_select i = 1 then
               (case reqs s of [] \<Rightarrow> None
                | request # rest \<Rightarrow> handle_request K request (s\<lparr>reqs := rest\<rparr>))
             else Some (Ret (), s)))"

fun manager_loop :: "kern \<Rightarrow> manager_input list \<Rightarrow> st \<Rightarrow> unit res" where
  "manager_loop K [] s = Some (Ret (), s)"
| "manager_loop K (i # rest) s = and_then (manager_pass K i s) (\<lambda>_. manager_loop K rest)"

definition pthread_manager :: "kern \<Rightarrow> manager_input list \<Rightarrow> st \<Rightarrow> unit res" where
  "pthread_manager K inputs s =
     manager_loop K inputs (s\<lparr>sigmask := (sigmask s)(manager_thread s := - {PTHREAD_SIG_RESTART})\<rparr>)"

section \<open>The invariant\<close>

definition slot :: "kern \<Rightarrow> st \<Rightarrow> pthread_t \<Rightarrow> bool" where
  "slot K s t \<longleftrightarrow> (\<exists>seg < 2048. t = THREAD_SEG K (initial_thread_bos s) seg \<and> seg_used s seg)"

definition mgr_wf :: "kern \<Rightarrow> st \<Rightarrow> pthread_t list \<Rightarrow> pthread_t list \<Rightarrow> bool" where
  "mgr_wf K s ths zs \<longleftrightarrow>
     segs_wf s \<and> is_ring (descr s) (main_thread s) ths \<and> distinct (main_thread s # ths @ zs) \<and>
     (\<forall>t \<in> set (ths @ zs). slot K s t \<and> t \<noteq> initial_thread s) \<and>
     (main_thread s = initial_thread s \<or> slot K s (main_thread s)) \<and>
     (\<forall>seg < 2048. THREAD_SEG K (initial_thread_bos s) seg \<noteq> initial_thread s) \<and>
     (\<forall>t \<in> set ths. \<not> p_exited (descr s t)) \<and> \<not> p_exited (descr s (main_thread s)) \<and>
     (\<forall>t \<in> set zs. p_exited (descr s t))"

text \<open>Memory for the table, and a free segment that the kernel can map.\<close>

definition room :: "kern \<Rightarrow> st \<Rightarrow> bool" where
  "room K s \<longleftrightarrow> (\<forall>n t. malloc_ok K n t) \<and>
     (\<exists>k < 2048. \<not> seg_used s k \<and> (\<forall>t. seg_mappable K (initial_thread_bos s) k t))"

section \<open>What keeps the invariant\<close>

lemma THREAD_SEG_inj:
  "a < 2048 \<Longrightarrow> b < 2048 \<Longrightarrow> THREAD_SEG K bos a = THREAD_SEG K bos b \<longleftrightarrow> a = b"
  by (metis SEG_THREAD_THREAD_SEG)

lemma SEG_THREAD_less: "SEG_THREAD K bos th < 2048"
proof -
  have "unat (bos - (th + sizeof_descr K)) < 2 ^ 32" using unsigned_less [of "bos - (th + sizeof_descr K)"] by simp
  then have "unat (bos - (th + sizeof_descr K)) div unat stack_size < 2048" by (simp add: unat_stack_size)
  then show ?thesis by (simp only: SEG_THREAD_def unat_div)
qed

lemma mapped_slot: "mapped K s th \<longleftrightarrow> th = initial_thread s \<or> slot K s th"
  using SEG_THREAD_less [of K "initial_thread_bos s" th]
  by (auto simp: mapped_def slot_def Let_def SEG_THREAD_THREAD_SEG)

text \<open>The table and the place of the segments, which the invariant speaks about besides the descriptors.\<close>

definition seg_part :: "st \<Rightarrow> bool list \<times> nat \<times> addr \<times> pthread_t \<times> pthread_t" where
  "seg_part s = (stack_segments s, num_stack_segments s, initial_thread_bos s, initial_thread s, main_thread s)"

lemma seg_part_simps [simp]:
  "seg_part (upd_th t f s) = seg_part s" "seg_part (log e s) = seg_part s"
  "seg_part (release_th t s) = seg_part s" "seg_part (restart t s) = seg_part s"
  "seg_part (s\<lparr>klog := l\<rparr>) = seg_part s" "seg_part (s\<lparr>descr := h\<rparr>) = seg_part s"
  "seg_part (s\<lparr>reqs := r\<rparr>) = seg_part s" "seg_part (s\<lparr>main_thread_exiting := b\<rparr>) = seg_part s"
  "seg_part (s\<lparr>terminated_children := b\<rparr>) = seg_part s"
  by (simp_all add: seg_part_def release_th_def)

lemma seg_part_live [simp]:
  "seg_part (insert_live m n s) = seg_part s" "seg_part (unlink_live t s) = seg_part s"
  by (simp_all add: insert_live_def unlink_live_def Let_def)

lemma seg_part_sched [simp]: "seg_part (set_new_sched K attr pid fp s) = seg_part s"
  by (simp add: set_new_sched_def split: option.split)

lemma seg_part_cong:
  assumes "seg_part s' = seg_part s"
  shows "seg_used s' = seg_used s" "segs_wf s' = segs_wf s" "slot K s' = slot K s"
    "main_thread s' = main_thread s" "initial_thread s' = initial_thread s"
    "initial_thread_bos s' = initial_thread_bos s"
  using assms by (auto simp: seg_part_def seg_used_def segs_wf_def slot_def fun_eq_iff)

lemma mgr_wf_cong:
  assumes "seg_part s' = seg_part s"
    and "\<And>t. t \<in> insert (main_thread s) (set (ths @ zs)) \<Longrightarrow> p_nextlive (descr s' t) = p_nextlive (descr s t) \<and>
      p_prevlive (descr s' t) = p_prevlive (descr s t) \<and> p_exited (descr s' t) = p_exited (descr s t)"
  shows "mgr_wf K s' ths zs = mgr_wf K s ths zs"
proof -
  have "is_ring (descr s') (main_thread s) ths = is_ring (descr s) (main_thread s) ths"
    by (rule is_ring_cong) (use assms(2) in auto)
  then show ?thesis unfolding mgr_wf_def seg_part_cong [OF assms(1)] using assms(2) by auto
qed

lemma mgr_wf_ring: "mgr_wf K s ths zs \<Longrightarrow> is_ring (descr s) (main_thread s) ths"
  by (simp add: mgr_wf_def)

text \<open>A segment found by the search is not the one of any thread there is.\<close>

lemma mgr_wf_alloc:
  assumes wf: "mgr_wf K s ths zs" and f: "seg_found K 0 s j s1" "table_only s s1" "j < 2048"
  defines "n \<equiv> THREAD_SEG K (initial_thread_bos s) j"
  shows "mgr_wf K s1 ths zs" and "slot K s1 n" and "n \<notin> set (main_thread s # ths @ zs)"
    and "n \<noteq> initial_thread s"
proof -
  note t = table_only_fields [OF f(2)]
  have u: "\<not> seg_used s j" "segs_wf s1" "\<And>i. seg_used s1 i = (seg_used s i \<or> i \<le> j)"
    using f(1) by (simp_all add: seg_found_def)
  have mono: "slot K s x \<Longrightarrow> slot K s1 x" for x unfolding slot_def t u(3) by auto
  show "mgr_wf K s1 ths zs" using wf u(2) mono by (auto simp: mgr_wf_def t)
  show "slot K s1 n" unfolding slot_def u(3) t n_def using f(3) by auto
  show ni: "n \<noteq> initial_thread s" using wf f(3) by (auto simp: mgr_wf_def n_def)
  have "\<not> slot K s n" unfolding slot_def n_def using u(1) f(3) by (auto simp: THREAD_SEG_inj)
  then show "n \<notin> set (main_thread s # ths @ zs)" using wf ni by (auto simp: mgr_wf_def)
qed

lemma mgr_wf_insert:
  assumes wf: "mgr_wf K s ths zs" and n: "slot K s n" "n \<notin> set (main_thread s # ths @ zs)"
    "n \<noteq> initial_thread s" "\<not> p_exited (descr s n)"
  shows "mgr_wf K (insert_live (main_thread s) n s) (n # ths) zs"
proof -
  let ?s = "insert_live (main_thread s) n s"
  have "is_ring (descr ?s) (main_thread s) (n # ths)"
    by (rule insert_live_ring) (use wf n(2) in \<open>auto simp: mgr_wf_def\<close>)
  moreover have "p_exited (descr ?s t) = p_exited (descr s t)" for t
    by (rule links_off_fields) simp
  ultimately show ?thesis using wf n
    unfolding mgr_wf_def seg_part_cong [OF seg_part_live(1) [of "main_thread s" n s]] by auto
qed

lemma mgr_wf_unlink:
  assumes wf: "mgr_wf K s (xs @ t # ys) zs"
  shows "mgr_wf K (upd_th t (p_exited_update (\<lambda>_. True)) (unlink_live t s)) (xs @ ys) (t # zs)"
proof -
  let ?u = "unlink_live t s"
  let ?s = "upd_th t (p_exited_update (\<lambda>_. True)) ?u"
  have r: "is_ring (descr ?u) (main_thread s) (xs @ ys)"
    by (rule unlink_live_ring) (rule mgr_wf_ring [OF wf])
  have "is_ring (descr ?s) (main_thread s) (xs @ ys) = is_ring (descr ?u) (main_thread s) (xs @ ys)"
    by (rule is_ring_cong) auto
  moreover have "p_exited (descr ?u x) = p_exited (descr s x)" for x
    by (rule links_off_fields) simp
  moreover have sp: "seg_part ?s = seg_part s" by simp
  ultimately show ?thesis using wf r unfolding mgr_wf_def seg_part_cong [OF sp] by auto
qed

section \<open>Release\<close>

text \<open>The event by which the stack and the descriptor of a thread disappear.\<close>

definition unmap_of :: "kern \<Rightarrow> pthread_t \<Rightarrow> kevent" where
  "unmap_of K t = Munmap (t + sizeof_descr K - stack_size) STACK_SIZE"

lemma pthread_free_effect:
  assumes "slot K s t" and "t \<noteq> initial_thread s" and "segs_wf s"
  shows "klog (pthread_free K t s) = klog s @ [unmap_of K t]" and "descr (pthread_free K t s) = descr s"
    and "main_thread (pthread_free K t s) = main_thread s"
    and "main_thread_exiting (pthread_free K t s) = main_thread_exiting s"
    and "initial_thread (pthread_free K t s) = initial_thread s"
    and "initial_thread_bos (pthread_free K t s) = initial_thread_bos s"
    and "segs_wf (pthread_free K t s)"
    and "slot K (pthread_free K t s) u \<longleftrightarrow> slot K s u \<and> u \<noteq> t"
proof -
  from assms(1) obtain k where k: "k < 2048" "t = THREAD_SEG K (initial_thread_bos s) k" "seg_used s k"
    by (auto simp: slot_def)
  have e: "pthread_free K t s = (log (unmap_of K t) s)\<lparr>stack_segments := (stack_segments s)[k := False]\<rparr>"
    using assms(2) k by (simp add: pthread_free_def unmap_of_def Let_def SEG_THREAD_THREAD_SEG)
  show "klog (pthread_free K t s) = klog s @ [unmap_of K t]" "descr (pthread_free K t s) = descr s"
    "main_thread (pthread_free K t s) = main_thread s"
    "main_thread_exiting (pthread_free K t s) = main_thread_exiting s"
    "initial_thread (pthread_free K t s) = initial_thread s"
    "initial_thread_bos (pthread_free K t s) = initial_thread_bos s"
    by (simp_all add: e)
  show "segs_wf (pthread_free K t s)" using assms(3) by (simp add: e segs_wf_def)
  have su: "seg_used (pthread_free K t s) i = (seg_used s i \<and> i \<noteq> k)" for i
    using assms(3) k(3) by (auto simp: e seg_used_def segs_wf_def nth_list_update)
  have b: "initial_thread_bos (pthread_free K t s) = initial_thread_bos s" by (simp add: e)
  have "THREAD_SEG K (initial_thread_bos s) seg = t \<longleftrightarrow> seg = k" if "seg < 2048" for seg
    using that k(1) by (simp add: k(2) THREAD_SEG_inj)
  then show "slot K (pthread_free K t s) u \<longleftrightarrow> slot K s u \<and> u \<noteq> t"
    unfolding slot_def su b by blast
qed

lemma pthread_free_frame:
  "reqs (pthread_free K t s) = reqs s" "initial_thread (pthread_free K t s) = initial_thread s"
  "manager_thread (pthread_free K t s) = manager_thread s" "manager_request (pthread_free K t s) = manager_request s"
  "initial_thread_bos (pthread_free K t s) = initial_thread_bos s"
  by (simp_all add: pthread_free_def Let_def)

lemma mgr_wf_free:
  assumes "mgr_wf K s ths (as @ t # bs)"
  shows "mgr_wf K (pthread_free K t s) ths (as @ bs)" and "\<not> slot K (pthread_free K t s) t"
    and "klog (pthread_free K t s) = klog s @ [unmap_of K t]" and "descr (pthread_free K t s) = descr s"
    and "main_thread (pthread_free K t s) = main_thread s"
    and "main_thread_exiting (pthread_free K t s) = main_thread_exiting s"
proof -
  have t: "slot K s t" "t \<noteq> initial_thread s" "segs_wf s" using assms by (auto simp: mgr_wf_def)
  note e = pthread_free_effect [OF t]
  show "\<not> slot K (pthread_free K t s) t" "klog (pthread_free K t s) = klog s @ [unmap_of K t]"
    "descr (pthread_free K t s) = descr s" "main_thread (pthread_free K t s) = main_thread s"
    "main_thread_exiting (pthread_free K t s) = main_thread_exiting s"
    by (simp_all add: e)
  show "mgr_wf K (pthread_free K t s) ths (as @ bs)"
    using assms e(7) unfolding mgr_wf_def e by auto
qed

lemma mgr_wf_lock: "mgr_wf K (upd_th t (p_spinlock_update f) s) ths zs = mgr_wf K s ths zs"
  by (rule mgr_wf_cong) auto

lemma mgr_wf_release [simp]: "mgr_wf K (release_th t s) ths zs = mgr_wf K s ths zs"
  by (rule mgr_wf_cong) auto

text \<open>The request to free a thread that has exited, and one that still runs.\<close>

lemma handle_free_exited:
  assumes "mgr_wf K s ths (as @ t # bs)" and "p_spinlock (descr s t) = 0"
  shows "\<exists>s'. pthread_handle_free K t s = Some s' \<and> mgr_wf K s' ths (as @ bs) \<and> \<not> slot K s' t \<and>
    klog s' = klog s @ [unmap_of K t] \<and> main_thread s' = main_thread s \<and>
    main_thread_exiting s' = main_thread_exiting s \<and> (\<forall>u. u \<noteq> t \<longrightarrow> descr s' u = descr s u) \<and>
    reqs s' = reqs s \<and> manager_request s' = manager_request s \<and> initial_thread_bos s' = initial_thread_bos s"
proof -
  let ?s = "upd_th t (p_spinlock_update (\<lambda>_. 1)) s"
  have "mgr_wf K ?s ths (as @ t # bs)" using assms(1) by (simp add: mgr_wf_lock)
  note f = mgr_wf_free [OF this]
  have "p_exited (descr s t)" using assms(1) by (simp add: mgr_wf_def)
  then have "pthread_handle_free K t s = Some (pthread_free K t ?s)"
    using assms by (simp add: pthread_handle_free_def acquire_th_eq mapped_slot mgr_wf_def)
  then show ?thesis using f by (simp add: pthread_free_frame)
qed

lemma handle_free_running:
  assumes "slot K s t" and "\<not> p_exited (descr s t)" and "p_spinlock (descr s t) = 0"
  shows "pthread_handle_free K t s = Some (upd_th t (p_detached_update (\<lambda>_. 1)) s)"
proof -
  have "(descr s t)\<lparr>p_detached := 1, p_spinlock := 0\<rparr> = (descr s t)\<lparr>p_detached := 1\<rparr>"
    using assms(3) by (cases "descr s t") simp
  then have "release_th t (upd_th t (p_detached_update (\<lambda>_. 1)) (upd_th t (p_spinlock_update (\<lambda>_. 1)) s)) =
    upd_th t (p_detached_update (\<lambda>_. 1)) s"
    unfolding release_th_def upd_th_comp by (simp add: upd_th_def)
  then show ?thesis using assms by (simp add: pthread_handle_free_def acquire_th_eq mapped_slot)
qed

text \<open>
  The exit of a process: its thread leaves the ring; a detached thread is freed, another one stays
  until a request to free it comes. If that was the last thread and the main thread waits for all
  others, the main thread is restarted and the manager ends.
\<close>

lemma links_off_exited: "links_off (d\<lparr>p_exited := b\<rparr>) = (links_off d)\<lparr>p_exited := b\<rparr>"
  by (cases d) (simp add: links_off_def)

lemma exited_effect:
  assumes wf: "mgr_wf K s (xs @ t # ys) zs" and pid: "p_pid (descr s t) = pid"
    "\<forall>u \<in> set xs. p_pid (descr s u) \<noteq> pid" and l: "p_spinlock (descr s t) = 0"
  shows "\<exists>s1. pthread_exited K pid s = (if main_thread_exiting s \<and> xs @ ys = []
      then Some (Exit 0, restart (main_thread s) s1) else Some (Ret (), s1)) \<and>
    main_thread s1 = main_thread s \<and> main_thread_exiting s1 = main_thread_exiting s \<and>
    reqs s1 = reqs s \<and> initial_thread s1 = initial_thread s \<and> manager_request s1 = manager_request s \<and>
    initial_thread_bos s1 = initial_thread_bos s \<and>
    (\<forall>u. links_off (descr s1 u) = (if u = t then (links_off (descr s t))\<lparr>p_exited := True\<rparr> else links_off (descr s u))) \<and>
    (if p_detached (descr s t) = 0 then mgr_wf K s1 (xs @ ys) (t # zs) \<and> klog s1 = klog s
     else mgr_wf K s1 (xs @ ys) zs \<and> klog s1 = klog s @ [unmap_of K t] \<and> \<not> slot K s1 t)"
proof -
  let ?m = "main_thread s"
  define s1 where "s1 = upd_th t (p_exited_update (\<lambda>_. True)) (unlink_live t s)"
  define s2 where "s2 = (if p_detached (descr s t) \<noteq> 0 then pthread_free K t s1 else s1)"
  have "find (\<lambda>u. p_pid (descr s u) = pid) (xs @ t # ys) = Some t"
    using pid by (induction xs) auto
  then have f: "find_pid pid ?m (p_nextlive (descr s ?m)) s = Some (Some t)"
    using find_pid_ring [OF mgr_wf_ring [OF wf]] by simp
  have lo: "links_off (descr (unlink_live t s) t) = links_off (descr s t)" by simp
  note same = links_off_fields [OF lo]
  have fr: "main_thread s1 = ?m" "main_thread_exiting s1 = main_thread_exiting s" "klog s1 = klog s"
    using unlink_live_frame [of t s] by (auto simp: s1_def)
  have d1: "(descr (unlink_live t s) t)\<lparr>p_exited := True, p_spinlock := 0\<rparr> =
      (descr (unlink_live t s) t)\<lparr>p_exited := True\<rparr>"
    using l same(2) by (cases "descr (unlink_live t s) t") simp
  then have rel: "release_th t (upd_th t (p_exited_update (\<lambda>_. True)) (upd_th t (p_spinlock_update (\<lambda>_. 1)) (unlink_live t s))) = s1"
    unfolding release_th_def upd_th_comp s1_def by (simp add: upd_th_def)
  have wf1: "mgr_wf K s1 (xs @ ys) (t # zs)" unfolding s1_def by (rule mgr_wf_unlink [OF wf])
  note fr1 = mgr_wf_free [of K s1 "xs @ ys" "[]" t zs, simplified, OF wf1]
  have fr2: "main_thread s2 = ?m" "main_thread_exiting s2 = main_thread_exiting s" "descr s2 = descr s1"
    using fr fr1 by (simp_all add: s2_def)
  have "is_ring (descr s2) (main_thread s2) (xs @ ys)"
    using mgr_wf_ring [OF wf1] fr fr2 by simp
  then have alone: "p_nextlive (descr s2 ?m) = ?m \<longleftrightarrow> xs @ ys = []"
    using ring_alone fr2(1) by fastforce
  have "pthread_exited K pid s = (if main_thread_exiting s \<and> xs @ ys = []
      then Some (Exit 0, restart ?m s2) else Some (Ret (), s2))"
    using f same l rel alone fr2
    by (simp add: pthread_exited_def acquire_th_eq s2_def [symmetric])
  moreover have "links_off (descr s2 u) = (if u = t then (links_off (descr s t))\<lparr>p_exited := True\<rparr> else links_off (descr s u))" for u
    using lo by (simp add: fr2(3) s1_def links_off_exited)
  moreover have "if p_detached (descr s t) = 0 then mgr_wf K s2 (xs @ ys) (t # zs) \<and> klog s2 = klog s
     else mgr_wf K s2 (xs @ ys) zs \<and> klog s2 = klog s @ [unmap_of K t] \<and> \<not> slot K s2 t"
    using wf1 fr1 fr by (simp add: s2_def)
  moreover have "reqs s2 = reqs s" "initial_thread s2 = initial_thread s" "manager_request s2 = manager_request s"
    "initial_thread_bos s2 = initial_thread_bos s"
    using unlink_live_frame [of t s] by (auto simp: s2_def s1_def pthread_free_frame)
  ultimately show ?thesis using fr2 by blast
qed

section \<open>Creation\<close>

lemma set_new_sched_frame:
  "descr (set_new_sched K attr pid fp s) = descr s" "main_thread (set_new_sched K attr pid fp s) = main_thread s"
  "reqs (set_new_sched K attr pid fp s) = reqs s"
  "main_thread_exiting (set_new_sched K attr pid fp s) = main_thread_exiting s"
  "manager_thread (set_new_sched K attr pid fp s) = manager_thread s"
  "manager_request (set_new_sched K attr pid fp s) = manager_request s"
  by (simp_all add: set_new_sched_def split: option.split)

text \<open>The segment a creation gets when there is room.\<close>

lemma room_alloc:
  assumes "mgr_wf K s ths zs" and "room K s"
  obtains j s1 where "alloc_segment K 0 s = Some (Some j, s1)" and "j < 2048" and "seg_found K 0 s j s1"
    and "table_only s s1"
proof -
  from assms(2) obtain k where k: "k < 2048" "\<not> seg_used s k" "\<forall>t. seg_mappable K (initial_thread_bos s) k t"
    and m: "\<And>n t. malloc_ok K n t" unfolding room_def by blast
  have "segs_wf s" using assms(1) by (simp add: mgr_wf_def)
  then obtain j s1 where "alloc_segment K 0 s = Some (Some j, s1)" "j \<le> k" "seg_found K 0 s j s1"
    using alloc_segment_finds [of s 0 k K] k m by auto
  then show thesis using that k(1) alloc_segment_frame by (metis order.strict_trans1)
qed

lemma init_new_thread_idem:
  "init_new_thread attr fn arg msk (init_new_thread attr fn arg msk d) = init_new_thread attr fn arg msk d"
  by (simp add: init_new_thread_def)

lemma init_new_thread_links:
  "links_off (init_new_thread attr fn arg msk d) = init_new_thread attr fn arg msk (links_off d)"
  by (cases d) (simp add: links_off_def init_new_thread_def)

lemma create_ok:
  assumes wf: "mgr_wf K s ths zs" and j: "alloc_segment K 0 s = Some (Some j, s1)" "j < 2048"
      "seg_found K 0 s j s1" "table_only s s1"
    and n: "n = THREAD_SEG K (initial_thread_bos s) j" and s2: "s2 = upd_th n (init_new_thread attr fn arg msk) s1"
    and cl: "clone_env K n s2 \<noteq> - 1" and th: "thread \<in> set (main_thread s # ths)"
  shows "\<exists>s'. pthread_handle_create K thread attr fn arg msk fp s = Some (0, s') \<and>
    mgr_wf K s' (n # ths) zs \<and> n \<notin> set (main_thread s # ths @ zs) \<and> n \<noteq> initial_thread s \<and>
    links_off (descr s' n) = (init_new_thread attr fn arg msk (links_off (descr s n)))\<lparr>p_pid := p_pid (descr s' n)\<rparr> \<and>
    (\<forall>u. u \<noteq> n \<longrightarrow> links_off (descr s' u) =
       (if u = thread then (links_off (descr s u))\<lparr>p_retval := n\<rparr> else links_off (descr s u))) \<and>
    main_thread s' = main_thread s \<and> main_thread_exiting s' = main_thread_exiting s \<and> reqs s' = reqs s \<and>
    manager_thread s' = manager_thread s \<and> manager_request s' = manager_request s \<and>
    p_pid (descr s' n) = clone_env K n s2 \<and> initial_thread_bos s' = initial_thread_bos s"
proof -
  note t = table_only_fields [OF j(4)]
  note w1 = mgr_wf_alloc [OF wf j(3,4,2), folded n]
  define pid where "pid = clone_env K n s2"
  define s3 where "s3 = set_new_sched K attr pid fp s2"
  define s4 where "s4 = insert_live (main_thread s) n s3"
  define s5 where "s5 = upd_th n (p_pid_update (\<lambda>_. pid)) s4"
  define s6 where "s6 = upd_th thread (p_retval_update (\<lambda>_. n)) s5"
  have sp: "seg_part s3 = seg_part s1" "seg_part s6 = seg_part s4" by (simp_all add: s3_def s2 s6_def s5_def)
  have d3: "descr s3 = (descr s)(n := init_new_thread attr fn arg msk (descr s n))" "main_thread s3 = main_thread s"
    by (simp_all add: s3_def s2 set_new_sched_frame t)
  have "mgr_wf K s3 ths zs = mgr_wf K s1 ths zs"
    by (rule mgr_wf_cong [OF sp(1)]) (use w1(3) t d3 in auto)
  then have w3: "mgr_wf K s3 ths zs" using w1(1) by simp
  have w4: "mgr_wf K s4 (n # ths) zs"
    unfolding s4_def d3(2) [symmetric]
    by (rule mgr_wf_insert [OF w3])
      (use w1 t d3 seg_part_cong [OF sp(1)] in \<open>auto simp: init_new_thread_def\<close>)
  have "mgr_wf K s6 (n # ths) zs = mgr_wf K s4 (n # ths) zs"
    by (rule mgr_wf_cong [OF sp(2)]) (auto simp: s6_def s5_def)
  then have w6: "mgr_wf K s6 (n # ths) zs" using w4 by simp
  have nt: "thread \<noteq> n" using th w1(3) by auto
  have "pthread_handle_create K thread attr fn arg msk fp s = Some (0, s6)"
    using cl t
    by (simp add: pthread_handle_create_def j(1) n [symmetric] s2 [symmetric] pid_def [symmetric]
      s3_def [symmetric] d3(2) s4_def [symmetric] s5_def [symmetric] s6_def [symmetric] set_new_sched_frame)
  moreover have "links_off (descr s6 n) = (init_new_thread attr fn arg msk (links_off (descr s n)))\<lparr>p_pid := p_pid (descr s6 n)\<rparr>"
  proof -
    have "links_off (d\<lparr>p_pid := x\<rparr>) = (links_off d)\<lparr>p_pid := x\<rparr>" for d x by (cases d) (simp add: links_off_def)
    then show ?thesis using nt by (simp add: s6_def s5_def s4_def d3 init_new_thread_links)
  qed
  moreover have "links_off (descr s6 u) =
      (if u = thread then (links_off (descr s u))\<lparr>p_retval := n\<rparr> else links_off (descr s u))" if "u \<noteq> n" for u
  proof -
    have "links_off (d\<lparr>p_retval := x\<rparr>) = (links_off d)\<lparr>p_retval := x\<rparr>" for d x by (cases d) (simp add: links_off_def)
    then show ?thesis using that by (simp add: s6_def s5_def s4_def d3)
  qed
  moreover have "main_thread s6 = main_thread s" "main_thread_exiting s6 = main_thread_exiting s"
    "reqs s6 = reqs s" "manager_thread s6 = manager_thread s" "manager_request s6 = manager_request s"
    using insert_live_frame [of "main_thread s" n s3] t
    by (auto simp: s6_def s5_def s4_def s3_def s2 set_new_sched_frame)
  moreover have "initial_thread_bos s6 = initial_thread_bos s"
    using seg_part_cong(6) [OF sp(2)] seg_part_cong(6) [OF sp(1)] seg_part_cong(6) [of s4 s3] t by (simp add: s4_def)
  moreover have "p_pid (descr s6 n) = clone_env K n s2" using nt by (simp add: s6_def s5_def pid_def)
  ultimately show ?thesis using w6 w1(3,4) by blast
qed

lemma create_no_clone:
  assumes wf: "mgr_wf K s ths zs" and j: "alloc_segment K 0 s = Some (Some j, s1)" "j < 2048"
      "seg_found K 0 s j s1" "table_only s s1"
    and n: "n = THREAD_SEG K (initial_thread_bos s) j" and s2: "s2 = upd_th n (init_new_thread attr fn arg msk) s1"
    and cl: "clone_env K n s2 = - 1"
  shows "\<exists>s'. pthread_handle_create K thread attr fn arg msk fp s = Some (EAGAIN, s') \<and>
    mgr_wf K s' ths zs \<and> \<not> slot K s' n \<and> (\<forall>u. u \<noteq> n \<longrightarrow> descr s' u = descr s u) \<and>
    n \<notin> set (main_thread s # ths @ zs) \<and> main_thread s' = main_thread s \<and>
    klog s' = klog s @ [Munmap (n + sizeof_descr K - of_nat (INITIAL_STACK_SIZE K)) (INITIAL_STACK_SIZE K)] \<and>
    main_thread_exiting s' = main_thread_exiting s \<and> reqs s' = reqs s \<and> manager_request s' = manager_request s \<and>
    initial_thread_bos s' = initial_thread_bos s"
proof -
  note t = table_only_fields [OF j(4)]
  note w1 = mgr_wf_alloc [OF wf j(3,4,2), folded n]
  define s3 where "s3 = log (Munmap (n + sizeof_descr K - of_nat (INITIAL_STACK_SIZE K)) (INITIAL_STACK_SIZE K)) s2"
  define s4 where "s4 = s3\<lparr>stack_segments := (stack_segments s3)[j := False]\<rparr>"
  have e: "pthread_handle_create K thread attr fn arg msk fp s = Some (EAGAIN, s4)"
    using cl t
    by (simp add: pthread_handle_create_def j(1) n [symmetric] s2 [symmetric] s3_def [symmetric])
      (simp add: s4_def s3_def s2)
  have u1: "seg_used s1 i = (seg_used s i \<or> i \<le> j)" "segs_wf s1" "j < num_stack_segments s1" for i
    using j(3) by (simp_all add: seg_found_def)
  have "seg_used s4 i = (seg_used s1 i \<and> i \<noteq> j)" for i
    using u1(2,3) by (auto simp: s4_def s3_def s2 seg_used_def segs_wf_def nth_list_update)
  then have u: "seg_used s4 i = ((seg_used s i \<or> i \<le> j) \<and> i \<noteq> j)" for i unfolding u1(1) .
  have fr: "initial_thread_bos s4 = initial_thread_bos s" "initial_thread s4 = initial_thread s"
    "main_thread s4 = main_thread s" "segs_wf s4"
    using t u1(2) by (simp_all add: s4_def s3_def s2 segs_wf_def)
  have nj: "\<not> seg_used s j" using j(3) by (simp add: seg_found_def)
  have ns: "\<not> slot K s4 n" unfolding slot_def u fr n using j(2) by (auto simp: THREAD_SEG_inj)
  have mono: "slot K s x \<Longrightarrow> slot K s4 x" for x unfolding slot_def u fr using nj by blast
  have d: "descr s4 u = (if u = n then init_new_thread attr fn arg msk (descr s n) else descr s u)" for u
    using t by (simp add: s4_def s3_def s2)
  have "is_ring (descr s4) (main_thread s) ths = is_ring (descr s) (main_thread s) ths"
    by (rule is_ring_cong) (use w1(3) in \<open>auto simp: d\<close>)
  then have "mgr_wf K s4 ths zs"
    using wf w1(3) fr(4) mono unfolding mgr_wf_def fr(1-3) d by auto
  then show ?thesis using e ns d w1(3) fr t
    by (intro exI [of _ s4]) (simp add: s4_def s3_def s2)
qed

lemma create_effect:
  assumes wf: "mgr_wf K s ths zs" and rm: "room K s" and cl: "\<And>t u. clone_env K t u \<noteq> - 1"
    and th: "thread \<in> set (main_thread s # ths)"
  shows "\<exists>n s'. pthread_handle_create K thread attr fn arg msk fp s = Some (0, s') \<and>
    mgr_wf K s' (n # ths) zs \<and> n \<notin> set (main_thread s # ths @ zs) \<and> n \<noteq> initial_thread s \<and>
    links_off (descr s' n) = (init_new_thread attr fn arg msk (links_off (descr s n)))\<lparr>p_pid := p_pid (descr s' n)\<rparr> \<and>
    (\<forall>u. u \<noteq> n \<longrightarrow> links_off (descr s' u) =
       (if u = thread then (links_off (descr s u))\<lparr>p_retval := n\<rparr> else links_off (descr s u))) \<and>
    main_thread s' = main_thread s \<and> main_thread_exiting s' = main_thread_exiting s \<and> reqs s' = reqs s \<and>
    manager_thread s' = manager_thread s \<and> manager_request s' = manager_request s"
proof -
  from room_alloc [OF wf rm] obtain j s1 where j: "alloc_segment K 0 s = Some (Some j, s1)" "j < 2048"
    "seg_found K 0 s j s1" "table_only s s1" .
  from create_ok [OF wf j refl refl cl th] show ?thesis by blast
qed

lemma create_clone_fails:
  assumes wf: "mgr_wf K s ths zs" and rm: "room K s" and cl: "\<And>t u. clone_env K t u = - 1"
  shows "\<exists>n s'. pthread_handle_create K thread attr fn arg msk fp s = Some (EAGAIN, s') \<and>
    mgr_wf K s' ths zs \<and> \<not> slot K s' n \<and> (\<forall>u. u \<noteq> n \<longrightarrow> descr s' u = descr s u) \<and>
    n \<notin> set (main_thread s # ths @ zs) \<and> main_thread s' = main_thread s \<and>
    klog s' = klog s @ [Munmap (n + sizeof_descr K - of_nat (INITIAL_STACK_SIZE K)) (INITIAL_STACK_SIZE K)]"
proof -
  from room_alloc [OF wf rm] obtain j s1 where j: "alloc_segment K 0 s = Some (Some j, s1)" "j < 2048"
    "seg_found K 0 s j s1" "table_only s s1" .
  from create_no_clone [OF wf j refl refl cl] show ?thesis by blast
qed

section \<open>A thread from its start to its end\<close>

text \<open>The state in which the start routine of a thread is called.\<close>

definition started :: "kern \<Rightarrow> pthread_t \<Rightarrow> st \<Rightarrow> st" where
  "started K t s = (upd_th t (p_pid_update (\<lambda>_. getpid_env K t)) s)\<lparr>sigmask :=
     (sigmask s)(t := p_initial_mask (descr s t))\<rparr>"

lemma start_thread_effect:
  assumes E: "well_behaved E" and t: "p_cleanup (descr s t) = NULL" "p_spinlock (descr s t) = 0" "t \<noteq> main_thread s"
  shows "\<exists>s'. pthread_start_thread E K t s = Some (Exit 0, s') \<and>
    descr s' = (descr s)(t := (descr s t)\<lparr>p_pid := getpid_env K t, p_canceled := False,
      p_retval := fst (call_env E (p_initial_fn (descr s t)) (p_initial_fn_arg (descr s t)) (started K t s)),
      p_terminated := True\<rparr>) \<and>
    reqs s' = reqs s \<and> manager_request s' = manager_request s \<and> lib_rest s' = lib_rest s"
proof -
  obtain v s2 where c: "call_env E (p_initial_fn (descr s t)) (p_initial_fn_arg (descr s t)) (started K t s) = (v, s2)"
    by (cases "call_env E (p_initial_fn (descr s t)) (p_initial_fn_arg (descr s t)) (started K t s)")
  have "lib_part s2 = lib_part (started K t s)" using well_behaved_call [OF E] c by (metis snd_conv)
  then have s2: "descr s2 = (descr s)(t := (descr s t)\<lparr>p_pid := getpid_env K t\<rparr>)" "reqs s2 = reqs s"
    "manager_request s2 = manager_request s" "lib_rest s2 = lib_rest s"
    by (simp_all add: lib_part_def started_def lib_rest_def)
  have "cleanup_stack t [] s2" "p_spinlock (descr s2 t) = 0" "t \<noteq> main_thread s2"
    using t s2(1) lib_rest_main [OF s2(4)] by (simp_all add: cleanup_stack_def)
  from exit_effect [OF E this(1,2) disjI1 [OF this(3)], of v] obtain s' where
    x: "pthread_exit E t v s2 = Some (Exit 0, s')" "reqs s' = reqs s2" "manager_request s' = manager_request s2"
      "lib_rest s' = lib_rest s2"
      "descr s' = (descr s2)(t := (descr s2 t)\<lparr>p_canceled := False, p_retval := v, p_terminated := True\<rparr>)" by blast
  have "pthread_start_thread E K t s = pthread_exit E t v s2"
    using c by (simp add: pthread_start_thread_def Let_def started_def split: prod.split)
  with x s2 c show ?thesis by simp
qed

text \<open>The exit of a joinable thread and the request to free it, in either order.\<close>

lemma joined_release:
  assumes "mgr_wf K s (xs @ t # ys) zs" and "p_pid (descr s t) = pid" and "\<forall>u \<in> set xs. p_pid (descr s u) \<noteq> pid"
    and "p_spinlock (descr s t) = 0" and "p_detached (descr s t) = 0" and "\<not> main_thread_exiting s"
  shows "\<exists>s1 s2. pthread_exited K pid s = Some (Ret (), s1) \<and> klog s1 = klog s \<and>
      pthread_handle_free K t s1 = Some s2 \<and> klog s2 = klog s @ [unmap_of K t] \<and>
      mgr_wf K s2 (xs @ ys) zs \<and> \<not> slot K s2 t"
proof -
  from exited_effect [OF assms(1-4)] assms(5,6) obtain s1 where
    e: "pthread_exited K pid s = Some (Ret (), s1)" and w: "mgr_wf K s1 (xs @ ys) (t # zs)" "klog s1 = klog s"
    and l: "links_off (descr s1 t) = (links_off (descr s t))\<lparr>p_exited := True\<rparr>" by auto
  have "p_spinlock (descr s1 t) = 0"
    using l assms(4) by (cases "descr s1 t"; cases "descr s t"; simp add: links_off_def)
  with handle_free_exited [of K s1 "xs @ ys" "[]" t zs] w
  obtain s2 where "pthread_handle_free K t s1 = Some s2" "klog s2 = klog s @ [unmap_of K t]"
    "mgr_wf K s2 (xs @ ys) zs" "\<not> slot K s2 t" by auto
  with e w(2) show ?thesis by blast
qed

lemma release_joined:
  assumes "mgr_wf K s (xs @ t # ys) zs" and "p_pid (descr s t) = pid" and "\<forall>u \<in> set xs. p_pid (descr s u) \<noteq> pid"
    and "p_spinlock (descr s t) = 0" and "p_detached (descr s t) = 0" and "\<not> main_thread_exiting s"
  shows "\<exists>s1 s2. pthread_handle_free K t s = Some s1 \<and> klog s1 = klog s \<and>
      pthread_exited K pid s1 = Some (Ret (), s2) \<and> klog s2 = klog s @ [unmap_of K t] \<and>
      mgr_wf K s2 (xs @ ys) zs \<and> \<not> slot K s2 t"
proof -
  define s1 where "s1 = upd_th t (p_detached_update (\<lambda>_. 1)) s"
  have "slot K s t" "\<not> p_exited (descr s t)" using assms(1) by (simp_all add: mgr_wf_def)
  then have f: "pthread_handle_free K t s = Some s1" using assms(4) by (simp add: handle_free_running s1_def)
  have "mgr_wf K s1 (xs @ t # ys) zs = mgr_wf K s (xs @ t # ys) zs"
    by (rule mgr_wf_cong) (auto simp: s1_def)
  then have "mgr_wf K s1 (xs @ t # ys) zs" using assms(1) by simp
  moreover have "p_pid (descr s1 t) = pid" "\<forall>u \<in> set xs. p_pid (descr s1 u) \<noteq> pid" "p_spinlock (descr s1 t) = 0"
    using assms(2-4) by (auto simp: s1_def)
  moreover have "p_detached (descr s1 t) \<noteq> 0" "klog s1 = klog s" "\<not> main_thread_exiting s1"
    using assms(6) by (simp_all add: s1_def)
  ultimately obtain s2 where "pthread_exited K pid s1 = Some (Ret (), s2)" "klog s2 = klog s @ [unmap_of K t]"
    "mgr_wf K s2 (xs @ ys) zs" "\<not> slot K s2 t"
    using exited_effect [of K s1 xs t ys zs pid] by auto
  with f \<open>klog s1 = klog s\<close> show ?thesis by blast
qed

section \<open>Signals to all threads\<close>

lemma kill_all_effect:
  assumes "is_ring (descr s) (main_thread s) ths"
  shows "pthread_kill_all_threads sig b s = Some (s\<lparr>klog := klog s @ map (\<lambda>t. Kill (p_pid (descr s t)) sig)
    (ths @ (if b then [main_thread s] else []))\<rparr>)"
proof -
  have "chain (nextlive (descr s)) (main_thread s) (p_nextlive (descr s (main_thread s))) ths"
    using assms by (simp add: is_ring_def)
  from kill_each_chain [OF this] show ?thesis
    by (simp add: pthread_kill_all_threads_def kill_frame)
qed

lemma handle_exit_effect:
  assumes "chain (nextlive (descr s)) t (p_nextlive (descr s t)) us"
  shows "\<exists>s'. pthread_handle_exit t code s = Some (Exit 0, s') \<and> exit_requested s' \<and> exit_code s' = code \<and>
    klog s' = klog s @ map (\<lambda>u. Kill (p_pid (descr s u)) PTHREAD_SIG_CANCEL) us @
      [Kill (p_pid (descr s t)) PTHREAD_SIG_RESTART] \<and> descr s' = descr s \<and> manager_thread s' = manager_thread s"
  using kill_each_chain [of "s\<lparr>exit_requested := True, exit_code := code\<rparr>" t "p_nextlive (descr s t)" us] assms
  by (simp add: pthread_handle_exit_def)

section \<open>A process with one thread besides the main thread\<close>

definition one_thread :: st where
  "one_thread = zero_st\<lparr>initial_thread := 0x8000, main_thread := 0x8000, manager_thread := 0x9000,
     initial_thread_bos := 0xbfa00000, stack_segments := [True], num_stack_segments := 1,
     descr := (\<lambda>_. zero_descr)
       (0x8000 := zero_descr\<lparr>p_nextlive := 0xbf9ffd80, p_prevlive := 0xbf9ffd80, p_pid := 100\<rparr>,
        0xbf9ffd80 := zero_descr\<lparr>p_nextlive := 0x8000, p_prevlive := 0x8000, p_pid := 200\<rparr>)\<rparr>"

lemma static_not_segment: "THREAD_SEG easy_kern 0xbfa00000 seg \<noteq> 0x8000"
proof
  assume "THREAD_SEG easy_kern 0xbfa00000 seg = 0x8000"
  then have "of_nat seg * stack_size = 0xbfa00000 - 0x8000 - 640"
    by (simp add: THREAD_SEG_def sizeof_descr_def easy_kern_def algebra_simps)
  then have "push_bit 21 (of_nat seg :: addr) = 0xbf9f7d80"
    by (simp add: stack_size_def push_bit_eq_mult)
  then have "take_bit 21 (push_bit 21 (of_nat seg :: addr)) = take_bit 21 0xbf9f7d80" by simp
  then show False by (simp add: take_bit_push_bit)
qed

lemma one_thread_slot: "slot easy_kern one_thread 0xbf9ffd80"
  unfolding slot_def
  by (rule exI [of _ 0]) (simp add: one_thread_def seg_used_def THREAD_SEG_def sizeof_descr_def easy_kern_def)

lemma one_thread_wf: "mgr_wf easy_kern one_thread [0xbf9ffd80] []"
  unfolding mgr_wf_def
  using one_thread_slot static_not_segment
  by (simp add: is_ring_def) (simp add: one_thread_def segs_wf_def zero_descr_def)

lemma one_thread_room: "room easy_kern one_thread"
proof -
  have "\<not> seg_used one_thread 1" by (simp add: one_thread_def seg_used_def)
  moreover have "malloc_ok easy_kern n t" "seg_mappable easy_kern b k t" for n t b k
    by (simp_all add: easy_kern_def seg_mappable_def)
  ultimately show ?thesis unfolding room_def by (intro conjI allI exI [of _ 1]) simp_all
qed

lemma new_thread_fields:
  assumes "links_off d = (init_new_thread attr fn arg msk (links_off d0))\<lparr>p_pid := p\<rparr>"
  shows "p_initial_fn d = fn" "p_initial_fn_arg d = arg" "p_initial_mask d = msk"
    "p_detached d = (case attr of None \<Rightarrow> PTHREAD_CREATE_JOINABLE | Some a \<Rightarrow> detachstate a)"
    "\<not> p_terminated d" "\<not> p_exited d" "p_retval d = NULL" "p_joining d = NULL" "p_spinlock d = 0" "p_nextwaiting d = NULL"
    "p_signal d = 0" "\<not> p_signal_jmp d" "\<not> p_cancel_jmp d" "\<not> p_canceled d" "p_cancelstate d = PTHREAD_CANCEL_ENABLE"
    "p_canceltype d = PTHREAD_CANCEL_DEFERRED" "p_cleanup d = NULL" "p_errno d = 0" "p_h_errno d = 0"
    "p_specific d = replicate PTHREAD_KEYS_MAX NULL"
proof -
  have f: "g (links_off d) = g ((init_new_thread attr fn arg msk (links_off d0))\<lparr>p_pid := p\<rparr>)" for g :: "pthread_descr \<Rightarrow> 'a"
    by (simp only: assms)
  show "p_initial_fn d = fn" "p_initial_fn_arg d = arg" "p_initial_mask d = msk"
    "p_detached d = (case attr of None \<Rightarrow> PTHREAD_CREATE_JOINABLE | Some a \<Rightarrow> detachstate a)"
    "\<not> p_terminated d" "\<not> p_exited d" "p_retval d = NULL" "p_joining d = NULL" "p_spinlock d = 0" "p_nextwaiting d = NULL"
    "p_signal d = 0" "\<not> p_signal_jmp d" "\<not> p_cancel_jmp d" "\<not> p_canceled d" "p_cancelstate d = PTHREAD_CANCEL_ENABLE"
    "p_canceltype d = PTHREAD_CANCEL_DEFERRED" "p_cleanup d = NULL" "p_errno d = 0" "p_h_errno d = 0"
    "p_specific d = replicate PTHREAD_KEYS_MAX NULL"
    using f [of p_initial_fn] f [of p_initial_fn_arg] f [of p_initial_mask] f [of p_detached] f [of p_terminated]
      f [of p_exited] f [of p_retval] f [of p_joining] f [of p_spinlock] f [of p_nextwaiting] f [of p_signal]
      f [of p_signal_jmp] f [of p_cancel_jmp] f [of p_canceled] f [of p_cancelstate] f [of p_canceltype]
      f [of p_cleanup] f [of p_errno] f [of p_h_errno] f [of p_specific]
    by (simp_all add: links_off_def init_new_thread_def split: option.split del: PTHREAD_KEYS_MAX_def)
qed

section \<open>Properties\<close>

text \<open>
  C13. Thread creation. When there is room for another stack and the clone succeeds, a creation request
  of a live thread is answered: the ring of live threads gains one new thread at its head whose
  descriptor lies in a segment that no other thread uses, that has the start routine, the argument, the
  signal mask and the detach state of the request (joinable without attributes), and that has neither run nor been
  joined, cancelled or signalled: cancellation is enabled and deferred, it has no cleanup handlers, and its value under
  every key is NULL; the requesting thread finds the return code 0 and the new thread in its own descriptor, the
  last signal sent is its restart, and no other descriptor changes except for the links of the ring.
\<close>

theorem create_request_served:
  assumes "mgr_wf K s ths zs" and "room K s" and "\<And>t u. clone_env K t u \<noteq> - 1"
    and "thread \<in> set (main_thread s # ths)"
  shows "\<exists>n s'. handle_request K \<lparr>req_thread = thread, req_kind = REQ_CREATE attr fn arg msk\<rparr> s = Some (Ret (), s') \<and>
    mgr_wf K s' (n # ths) zs \<and> n \<notin> set (main_thread s # ths @ zs) \<and>
    (let d = descr s' n in p_initial_fn d = fn \<and> p_initial_fn_arg d = arg \<and> p_initial_mask d = msk \<and>
      p_detached d = (case attr of None \<Rightarrow> PTHREAD_CREATE_JOINABLE | Some a \<Rightarrow> detachstate a) \<and>
      \<not> p_terminated d \<and> \<not> p_exited d \<and> p_retval d = NULL \<and> p_joining d = NULL \<and> p_spinlock d = 0 \<and> p_nextwaiting d = NULL \<and>
      p_signal d = 0 \<and> \<not> p_signal_jmp d \<and> \<not> p_cancel_jmp d \<and> \<not> p_canceled d \<and> p_cancelstate d = PTHREAD_CANCEL_ENABLE \<and>
      p_canceltype d = PTHREAD_CANCEL_DEFERRED \<and> p_cleanup d = NULL \<and> p_errno d = 0 \<and> p_h_errno d = 0 \<and>
      (\<forall>k < PTHREAD_KEYS_MAX. p_specific d ! k = NULL)) \<and>
    p_retcode (descr s' thread) = 0 \<and> p_retval (descr s' thread) = n \<and>
    last (klog s') = Kill (p_pid (descr s thread)) PTHREAD_SIG_RESTART \<and>
    (\<forall>u. u \<noteq> n \<and> u \<noteq> thread \<longrightarrow> links_off (descr s' u) = links_off (descr s u))"
proof -
  let ?fp = "p_pid (descr s thread)"
  from create_effect [OF assms, of attr fn arg msk ?fp] obtain n s' where
    e: "pthread_handle_create K thread attr fn arg msk ?fp s = Some (0, s')"
    and w: "mgr_wf K s' (n # ths) zs" and n: "n \<notin> set (main_thread s # ths @ zs)"
    and dn: "links_off (descr s' n) = (init_new_thread attr fn arg msk (links_off (descr s n)))\<lparr>p_pid := p_pid (descr s' n)\<rparr>"
    and du: "\<And>u. u \<noteq> n \<Longrightarrow> links_off (descr s' u) =
       (if u = thread then (links_off (descr s u))\<lparr>p_retval := n\<rparr> else links_off (descr s u))" by blast
  have nt: "thread \<noteq> n" using assms(4) n by auto
  define s'' where "s'' = restart thread (upd_th thread (p_retcode_update (\<lambda>_. 0)) s')"
  have r: "p_retval (descr s' thread) = n" "p_pid (descr s' thread) = ?fp"
    using du [OF nt] by (cases "descr s' thread"; cases "descr s thread"; simp add: links_off_def)+
  have "handle_request K \<lparr>req_thread = thread, req_kind = REQ_CREATE attr fn arg msk\<rparr> s = Some (Ret (), s'')"
    using e by (simp add: handle_request_def s''_def)
  moreover have "mgr_wf K s'' (n # ths) zs = mgr_wf K s' (n # ths) zs"
    by (rule mgr_wf_cong) (auto simp: s''_def)
  moreover have "links_off (descr s'' u) = links_off (descr s' u)" if "u \<noteq> thread" for u
    using that by (simp add: s''_def)
  moreover have "descr s'' n = descr s' n" using nt by (simp add: s''_def)
  ultimately show ?thesis using w n new_thread_fields [OF dn] du r nt
    by (intro exI [of _ n] exI [of _ s'']) (simp add: s''_def Let_def)
qed

theorem create_request_served_witness:
  "\<exists>n s'. handle_request easy_kern \<lparr>req_thread = 0x8000, req_kind = REQ_CREATE None 0x400 7 {}\<rparr> one_thread = Some (Ret (), s') \<and>
    mgr_wf easy_kern s' [n, 0xbf9ffd80] [] \<and> p_retval (descr s' 0x8000) = n"
proof -
  have "clone_env easy_kern t u \<noteq> - 1" for t u by (simp add: easy_kern_def)
  moreover have "0x8000 \<in> set (main_thread one_thread # [0xbf9ffd80])" by (simp add: one_thread_def)
  ultimately show ?thesis
    using create_request_served [OF one_thread_wf one_thread_room, of "0x8000" None "0x400" 7 "{}"] by blast
qed

text \<open>
  Failed creations leave no trace. If the clone fails, the request is answered with EAGAIN: the ring
  and the exited threads are as before, the stack is unmapped again and its segment is free, and no
  descriptor changes but that of the segment and the return code. If the table of segments is full and
  cannot grow, the answer is EAGAIN as well and nothing else changes.
\<close>

theorem create_failure_leaves_threads:
  assumes "mgr_wf K s ths zs" and "r = \<lparr>req_thread = thread, req_kind = REQ_CREATE attr fn arg msk\<rparr>"
  shows "(room K s \<and> (\<forall>t u. clone_env K t u = - 1) \<and> thread \<in> set (main_thread s # ths) \<longrightarrow>
      (\<exists>n s'. handle_request K r s = Some (Ret (), s') \<and> p_retcode (descr s' thread) = EAGAIN \<and>
        mgr_wf K s' ths zs \<and> \<not> slot K s' n \<and> (\<forall>u. u \<noteq> n \<and> u \<noteq> thread \<longrightarrow> descr s' u = descr s u) \<and>
        klog s' = klog s @ [Munmap (n + sizeof_descr K - of_nat (INITIAL_STACK_SIZE K)) (INITIAL_STACK_SIZE K),
          Kill (p_pid (descr s thread)) PTHREAD_SIG_RESTART])) \<and>
    (list_all id (stack_segments s) \<and> (\<forall>n t. \<not> malloc_ok K n t) \<longrightarrow>
      handle_request K r s = Some (Ret (), restart thread (upd_th thread (p_retcode_update (\<lambda>_. EAGAIN)) s)))"
    (is "(_ \<longrightarrow> ?A) \<and> (_ \<longrightarrow> ?B)")
proof (intro conjI impI; elim conjE)
  assume a: "room K s" "\<forall>t u. clone_env K t u = - 1" "thread \<in> set (main_thread s # ths)"
  from create_clone_fails [OF assms(1) a(1), of thread attr fn arg msk "p_pid (descr s thread)"] a(2)
  obtain n s' where e: "pthread_handle_create K thread attr fn arg msk (p_pid (descr s thread)) s = Some (EAGAIN, s')"
    and w: "mgr_wf K s' ths zs" "\<not> slot K s' n" "\<And>u. u \<noteq> n \<Longrightarrow> descr s' u = descr s u"
      "n \<notin> set (main_thread s # ths @ zs)"
    and k: "klog s' = klog s @ [Munmap (n + sizeof_descr K - of_nat (INITIAL_STACK_SIZE K)) (INITIAL_STACK_SIZE K)]"
    by blast
  define s'' where "s'' = restart thread (upd_th thread (p_retcode_update (\<lambda>_. EAGAIN)) s')"
  have sp: "seg_part s'' = seg_part s'" by (simp add: s''_def)
  have "mgr_wf K s'' ths zs = mgr_wf K s' ths zs" by (rule mgr_wf_cong [OF sp]) (auto simp: s''_def)
  moreover have "handle_request K r s = Some (Ret (), s'')"
    using e by (simp add: handle_request_def assms(2) s''_def)
  moreover have "thread \<noteq> n" using a(3) w(4) by auto
  ultimately show ?A
    using w k seg_part_cong(3) [OF sp, of K]
    by (intro exI [of _ n] exI [of _ s'']) (simp add: s''_def)
next
  assume f: "list_all id (stack_segments s)" "\<forall>n t. \<not> malloc_ok K n t"
  have "segs_wf s" using assms(1) by (simp add: mgr_wf_def)
  then have "alloc_segment K 0 s = Some (None, s)"
    using f by (intro alloc_segment_full) (auto simp: segs_wf_def list_all_length)
  then show ?B by (simp add: handle_request_def assms(2) pthread_handle_create_def)
qed

theorem create_failure_leaves_threads_witness:
  "(let K = easy_kern\<lparr>clone_env := \<lambda>_ _. - 1\<rparr> in
      \<exists>s'. handle_request K \<lparr>req_thread = 0x8000, req_kind = REQ_CREATE None 0x400 7 {}\<rparr> one_thread = Some (Ret (), s') \<and>
        p_retcode (descr s' 0x8000) = EAGAIN \<and> mgr_wf K s' [0xbf9ffd80] [])"
proof -
  let ?K = "easy_kern\<lparr>clone_env := \<lambda>_ _. - 1\<rparr>"
  have T: "THREAD_SEG ?K = THREAD_SEG easy_kern" "seg_mappable ?K = seg_mappable easy_kern"
    "malloc_ok ?K = malloc_ok easy_kern"
    by (simp_all add: THREAD_SEG_def sizeof_descr_def seg_mappable_def INITIAL_STACK_SIZE_def fun_eq_iff)
  have "mgr_wf ?K one_thread [0xbf9ffd80] []"
    using one_thread_wf unfolding mgr_wf_def slot_def T .
  moreover have "room ?K one_thread" using one_thread_room unfolding room_def T .
  moreover have "0x8000 \<in> set (main_thread one_thread # [0xbf9ffd80])" by (simp add: one_thread_def)
  ultimately show ?thesis
    using create_failure_leaves_threads [of ?K one_thread "[0xbf9ffd80]" "[]"
      "\<lparr>req_thread = 0x8000, req_kind = REQ_CREATE None 0x400 7 {}\<rparr>" "0x8000" None "0x400" 7 "{}"]
    unfolding Let_def by (simp del: EAGAIN_def) blast
qed

text \<open>
  A joinable thread is freed exactly once. Two things have to happen before the stack of such a thread
  can go: its process exits, and some thread joins it, which sends a request to free it. In either order,
  the first of the two leaves the stack mapped and the second one unmaps it, once; afterwards the thread
  is in no list, its segment is free, and the manager's data is well formed.
\<close>

theorem joined_thread_freed_once:
  assumes "mgr_wf K s (xs @ t # ys) zs" and "p_pid (descr s t) = pid" and "\<forall>u \<in> set xs. p_pid (descr s u) \<noteq> pid"
    and "p_spinlock (descr s t) = 0" and "p_detached (descr s t) = 0" and "\<not> main_thread_exiting s"
  shows "(\<exists>s1 s2. pthread_exited K pid s = Some (Ret (), s1) \<and> klog s1 = klog s \<and>
      pthread_handle_free K t s1 = Some s2 \<and> klog s2 = klog s @ [unmap_of K t] \<and>
      mgr_wf K s2 (xs @ ys) zs \<and> \<not> slot K s2 t) \<and>
    (\<exists>s1 s2. pthread_handle_free K t s = Some s1 \<and> klog s1 = klog s \<and>
      pthread_exited K pid s1 = Some (Ret (), s2) \<and> klog s2 = klog s @ [unmap_of K t] \<and>
      mgr_wf K s2 (xs @ ys) zs \<and> \<not> slot K s2 t)"
  using joined_release [OF assms] release_joined [OF assms] by blast

theorem joined_thread_freed_once_witness:
  "(\<exists>s1 s2. pthread_exited easy_kern 200 one_thread = Some (Ret (), s1) \<and>
      pthread_handle_free easy_kern 0xbf9ffd80 s1 = Some s2 \<and> mgr_wf easy_kern s2 [] [] \<and>
      klog s2 = [Munmap 0xbf800000 STACK_SIZE])"
proof -
  have "unmap_of easy_kern 0xbf9ffd80 = Munmap 0xbf800000 STACK_SIZE"
    by (simp add: unmap_of_def sizeof_descr_def easy_kern_def stack_size_def)
  moreover have "p_pid (descr one_thread 0xbf9ffd80) = 200" "p_spinlock (descr one_thread 0xbf9ffd80) = 0"
    "p_detached (descr one_thread 0xbf9ffd80) = 0" "\<not> main_thread_exiting one_thread" "klog one_thread = []"
    by (simp_all add: one_thread_def zero_descr_def zero_st_def)
  ultimately show ?thesis
    using joined_thread_freed_once [of easy_kern one_thread "[]" "0xbf9ffd80" "[]" "[]" 200] one_thread_wf by force
qed

text \<open>
  C37. The manager accesses a thread it has already freed. \<open>pthread_detach\<close> of a thread that has terminated
  marks it as detached and sends a request to free it. If the process of the thread is gone by the time
  the manager wakes up, the manager first reaps it: it unmaps the stack and the descriptor, because the
  thread is detached, while the request is still in the pipe. Serving the request in the same pass, it
  takes the lock of the descriptor, which was free when it was unmapped: the access is to memory that is
  no longer mapped, and the pass does not complete.
\<close>

theorem detach_races_with_reaping:
  assumes "mgr_wf K s (xs @ t # ys) zs" and "p_pid (descr s t) = pid" and "\<forall>u \<in> set xs. p_pid (descr s u) \<noteq> pid"
    and "p_spinlock (descr s t) = 0" and "p_detached (descr s t) = 0" and "\<not> main_thread_exiting s"
    and "p_terminated (descr s t)" and "p_joining (descr s t) = NULL" and "manager_request s \<ge> 0" and "reqs s = []"
    and "i_others i = (\<lambda>s. s\<lparr>terminated_children := True\<rparr>)" and "i_select i = 1" and "i_ppid i \<noteq> 1"
    and "i_children i = [(pid, WExited 0)]"
  shows "\<exists>s1 s2. pthread_detach self t s = Some (0, s1) \<and>
    pthread_reap_children K (i_children i) (s1\<lparr>terminated_children := False\<rparr>) = Some (Ret (), s2) \<and>
    klog s2 = klog s @ [unmap_of K t] \<and> \<not> mapped K s2 t \<and>
    reqs s2 = [\<lparr>req_thread = self, req_kind = REQ_FREE t\<rparr>] \<and> p_spinlock (descr s2 t) = 0 \<and>
    pthread_handle_free K t (s2\<lparr>reqs := []\<rparr>) = None \<and> manager_pass K i s1 = None"
proof -
  define s1 where "s1 = send_request self (REQ_FREE t) (upd_th t (p_detached_update (\<lambda>_. 1)) s)"
  have "(descr s t)\<lparr>p_detached := 1, p_spinlock := 0\<rparr> = (descr s t)\<lparr>p_detached := 1\<rparr>"
    using assms(4) by (cases "descr s t") simp
  then have "release_th t (upd_th t (p_detached_update (\<lambda>_. 1)) (upd_th t (p_spinlock_update (\<lambda>_. 1)) s)) =
    upd_th t (p_detached_update (\<lambda>_. 1)) s"
    unfolding release_th_def upd_th_comp by (simp add: upd_th_def)
  then have d: "pthread_detach self t s = Some (0, s1)"
    using assms(4,5,7-9) by (simp add: pthread_detach_def acquire_th_eq s1_def)
  define s2 where "s2 = s1\<lparr>terminated_children := False\<rparr>"
  have sp: "seg_part s2 = seg_part s" by (simp add: s2_def s1_def send_request_def)
  have "mgr_wf K s2 (xs @ t # ys) zs = mgr_wf K s (xs @ t # ys) zs"
    by (rule mgr_wf_cong [OF sp]) (auto simp: s2_def s1_def)
  then have w2: "mgr_wf K s2 (xs @ t # ys) zs" using assms(1) by simp
  have f2: "p_pid (descr s2 t) = pid" "\<forall>u \<in> set xs. p_pid (descr s2 u) \<noteq> pid" "p_spinlock (descr s2 t) = 0"
    "p_detached (descr s2 t) = 1" "\<not> main_thread_exiting s2" "klog s2 = klog s"
    "reqs s2 = [\<lparr>req_thread = self, req_kind = REQ_FREE t\<rparr>]"
    using assms(2-4,6,10) by (auto simp: s2_def s1_def send_request_def)
  from exited_effect [OF w2 f2(1-3)] f2(4-6) obtain s3 where e: "pthread_exited K pid s2 = Some (Ret (), s3)"
    and l3: "links_off (descr s3 t) = (links_off (descr s2 t))\<lparr>p_exited := True\<rparr>"
    and k3: "klog s3 = klog s @ [unmap_of K t]" and n3: "\<not> slot K s3 t"
    and r: "reqs s3 = reqs s2" "initial_thread s3 = initial_thread s2"
    by auto
  have d3: "p_spinlock (descr s3 t) = 0"
    using l3 f2(3) by (cases "descr s3 t"; cases "descr s2 t"; simp add: links_off_def)
  have u: "\<not> mapped K s3 t" using w2 r(2) n3 by (auto simp: mgr_wf_def mapped_slot)
  then have f: "pthread_handle_free K t (s3\<lparr>reqs := []\<rparr>) = None"
    by (simp add: pthread_handle_free_def mapped_slot slot_def seg_used_def)
  have "pthread_reap_children K (i_children i) s2 = Some (Ret (), s3)" using e assms(14) by simp
  moreover from this have "manager_pass K i s1 = None"
    using f r(1) f2(7) assms(11-13) by (simp add: manager_pass_def s2_def [symmetric] handle_request_def)
  ultimately show ?thesis using d u f k3 r(1) f2(7) d3 unfolding s2_def by auto
qed

theorem detach_races_with_reaping_witness:
  "\<exists>s1 s2. pthread_detach 0x8000 0xbf9ffd80
      (upd_th 0xbf9ffd80 (p_terminated_update (\<lambda>_. True)) one_thread) = Some (0, s1) \<and>
    pthread_reap_children easy_kern [(200, WExited 0)] (s1\<lparr>terminated_children := False\<rparr>) = Some (Ret (), s2) \<and>
    klog s2 = [Munmap 0xbf800000 STACK_SIZE] \<and> \<not> mapped easy_kern s2 0xbf9ffd80 \<and>
    manager_pass easy_kern \<lparr>i_others = (\<lambda>s. s\<lparr>terminated_children := True\<rparr>), i_select = 1, i_ppid = 100,
      i_children = [(200, WExited 0)]\<rparr> s1 = None"
proof -
  let ?s = "upd_th 0xbf9ffd80 (p_terminated_update (\<lambda>_. True)) one_thread"
  have "unmap_of easy_kern 0xbf9ffd80 = Munmap 0xbf800000 STACK_SIZE"
    by (simp add: unmap_of_def sizeof_descr_def easy_kern_def stack_size_def)
  moreover have "mgr_wf easy_kern ?s [0xbf9ffd80] [] = mgr_wf easy_kern one_thread [0xbf9ffd80] []"
    by (rule mgr_wf_cong) auto
  then have "mgr_wf easy_kern ?s ([] @ 0xbf9ffd80 # []) []" using one_thread_wf by simp
  moreover have "p_pid (descr ?s 0xbf9ffd80) = 200" "p_spinlock (descr ?s 0xbf9ffd80) = 0"
    "p_detached (descr ?s 0xbf9ffd80) = 0" "\<not> main_thread_exiting ?s" "p_terminated (descr ?s 0xbf9ffd80)"
    "p_joining (descr ?s 0xbf9ffd80) = NULL" "manager_request ?s \<ge> 0" "reqs ?s = []" "klog ?s = []"
    by (simp_all add: one_thread_def zero_descr_def zero_st_def)
  ultimately show ?thesis
    using detach_races_with_reaping [of easy_kern ?s "[]" "0xbf9ffd80" "[]" "[]" 200
      "\<lparr>i_others = (\<lambda>s. s\<lparr>terminated_children := True\<rparr>), i_select = 1, i_ppid = 100,
        i_children = [(200, WExited 0)]\<rparr>" "0x8000"] by (simp del: pthread_reap_children.simps) blast
qed

text \<open>
  C15. Process-wide exit. Served for any thread of the process, the request of \<open>exit\<close> sends the cancel signal
  exactly once to every other live thread, the main thread included, then restarts the requesting thread
  and ends the manager; and the handler of the cancel signal ends each of those threads with the exit code
  of the request.
\<close>

theorem process_exit_reaches_all_threads:
  assumes "mgr_wf K s ths zs" and "t \<in> set (main_thread s # ths)"
  shows "\<exists>s' us. handle_request K \<lparr>req_thread = t, req_kind = REQ_PROCESS_EXIT code\<rparr> s = Some (Exit 0, s') \<and>
    distinct us \<and> set us = set (main_thread s # ths) - {t} \<and>
    klog s' = klog s @ map (\<lambda>u. Kill (p_pid (descr s u)) PTHREAD_SIG_CANCEL) us @
      [Kill (p_pid (descr s t)) PTHREAD_SIG_RESTART] \<and>
    (\<forall>u. deliver u PTHREAD_SIG_CANCEL s' = (H_exit code, s'))"
proof -
  obtain us where us: "chain (nextlive (descr s)) t (p_nextlive (descr s t)) us" "distinct us"
    "set us = set (main_thread s # ths) - {t}"
    by (rule ring_from_member [OF mgr_wf_ring [OF assms(1)] assms(2)])
  from handle_exit_effect [OF us(1), of code] obtain s' where "pthread_handle_exit t code s = Some (Exit 0, s')"
    "exit_requested s'" "exit_code s' = code" "klog s' = klog s @
      map (\<lambda>u. Kill (p_pid (descr s u)) PTHREAD_SIG_CANCEL) us @ [Kill (p_pid (descr s t)) PTHREAD_SIG_RESTART]"
    by blast
  with us(2,3) show ?thesis
    by (intro exI [of _ s'] exI [of _ us]) (simp add: handle_request_def deliver_def pthread_handle_sigcancel_def)
qed

theorem process_exit_reaches_all_threads_witness:
  "\<exists>s'. handle_request easy_kern \<lparr>req_thread = 0xbf9ffd80, req_kind = REQ_PROCESS_EXIT 3\<rparr> one_thread = Some (Exit 0, s') \<and>
    klog s' = [Kill 100 PTHREAD_SIG_CANCEL, Kill 200 PTHREAD_SIG_RESTART]"
proof -
  have m: "main_thread one_thread = 0x8000" "klog one_thread = []" "p_pid (descr one_thread 0x8000) = 100"
    "p_pid (descr one_thread 0xbf9ffd80) = 200"
    by (simp_all add: one_thread_def zero_st_def)
  have "0xbf9ffd80 \<in> set (main_thread one_thread # [0xbf9ffd80])" by simp
  from process_exit_reaches_all_threads [OF one_thread_wf this, of 3] obtain s' us where
    h: "handle_request easy_kern \<lparr>req_thread = 0xbf9ffd80, req_kind = REQ_PROCESS_EXIT 3\<rparr> one_thread = Some (Exit 0, s')"
    "distinct us" "set us = set (main_thread one_thread # [0xbf9ffd80]) - {0xbf9ffd80}"
    "klog s' = klog one_thread @ map (\<lambda>u. Kill (p_pid (descr one_thread u)) PTHREAD_SIG_CANCEL) us @
      [Kill (p_pid (descr one_thread 0xbf9ffd80)) PTHREAD_SIG_RESTART]"
    by blast
  have "set us = {0x8000}" unfolding h(3) m(1) by auto
  then have "us = [0x8000]" using h(2) by (cases us; cases "tl us") auto
  with h(1,4) m show ?thesis by simp
qed

text \<open>One exit after the other.\<close>

lemma reap_exits:
  assumes "mgr_wf K s ths zs" and "distinct us" and "set us \<subseteq> set ths" and "inj_on (\<lambda>t. p_pid (descr s t)) (set ths)"
    and "\<forall>t \<in> set ths. p_spinlock (descr s t) = 0"
  shows "\<exists>s' zs'. pthread_reap_children K (map (\<lambda>t. (p_pid (descr s t), WExited 0)) us) s =
      (if main_thread_exiting s \<and> us \<noteq> [] \<and> set us = set ths then Some (Exit 0, restart (main_thread s) s')
       else Some (Ret (), s')) \<and>
    mgr_wf K s' (filter (\<lambda>t. t \<notin> set us) ths) zs' \<and> p_pid (descr s' (main_thread s)) = p_pid (descr s (main_thread s)) \<and>
    klog s' = klog s @ map (unmap_of K) (filter (\<lambda>t. p_detached (descr s t) \<noteq> 0) us)"
  using assms
proof (induction us arbitrary: s ths zs)
  case Nil
  then show ?case by auto
next
  case (Cons u us)
  then obtain xs ys where ths: "ths = xs @ u # ys" by (auto simp: in_set_conv_decomp)
  have d: "distinct ths" "main_thread s \<noteq> u" using Cons.prems(1) ths by (auto simp: mgr_wf_def)
  have px: "\<forall>v \<in> set xs. p_pid (descr s v) \<noteq> p_pid (descr s u)"
    using Cons.prems(4) d unfolding ths inj_on_def by auto
  have lu: "p_spinlock (descr s u) = 0" using Cons.prems(5) ths by simp
  from exited_effect [OF Cons.prems(1) [unfolded ths] refl px lu] obtain s1 where
    e: "pthread_exited K (p_pid (descr s u)) s = (if main_thread_exiting s \<and> xs @ ys = []
      then Some (Exit 0, restart (main_thread s) s1) else Some (Ret (), s1))"
    and m: "main_thread s1 = main_thread s" "main_thread_exiting s1 = main_thread_exiting s"
    and l: "\<And>v. links_off (descr s1 v) = (if v = u then (links_off (descr s u))\<lparr>p_exited := True\<rparr> else links_off (descr s v))"
    and c: "if p_detached (descr s u) = 0 then mgr_wf K s1 (xs @ ys) (u # zs) \<and> klog s1 = klog s
      else mgr_wf K s1 (xs @ ys) zs \<and> klog s1 = klog s @ [unmap_of K u] \<and> \<not> slot K s1 u"
    by blast
  have k: "klog s1 = klog s @ map (unmap_of K) (filter (\<lambda>t. p_detached (descr s t) \<noteq> 0) [u])"
    using c by (simp split: if_splits)
  obtain zs1 where w1: "mgr_wf K s1 (xs @ ys) zs1" using c by (metis (full_types))
  have same: "p_pid (descr s1 v) = p_pid (descr s v) \<and> p_spinlock (descr s1 v) = p_spinlock (descr s v) \<and>
    p_detached (descr s1 v) = p_detached (descr s v)" if "v \<noteq> u" for v
    using links_off_fields [of "descr s1 v" "descr s v"] l [of v] that by simp
  have fu: "filter (\<lambda>t. t \<notin> set (u # us)) ths = filter (\<lambda>t. t \<notin> set us) (xs @ ys)"
    using d ths by (auto intro!: arg_cong2 [where f = append] filter_cong)
  have su: "set us \<subseteq> set (xs @ ys)" "u \<notin> set us" "u \<notin> set (xs @ ys)" using Cons.prems(2,3) d ths by auto
  have "inj_on (\<lambda>t. p_pid (descr s t)) (set (xs @ ys))"
    by (rule inj_on_subset [OF Cons.prems(4)]) (auto simp: ths)
  then have "inj_on (\<lambda>t. p_pid (descr s1 t)) (set (xs @ ys))"
    using inj_on_cong [of "set (xs @ ys)" "\<lambda>t. p_pid (descr s1 t)" "\<lambda>t. p_pid (descr s t)"] same su(3) by metis
  moreover have "\<forall>t \<in> set (xs @ ys). p_spinlock (descr s t) = 0" using Cons.prems(5) ths by simp
  then have "\<forall>t \<in> set (xs @ ys). p_spinlock (descr s1 t) = 0" using same su(3) by metis
  moreover have "distinct us" using Cons.prems(2) by simp
  ultimately obtain s' zs' where r: "pthread_reap_children K (map (\<lambda>t. (p_pid (descr s1 t), WExited 0)) us) s1 =
      (if main_thread_exiting s1 \<and> us \<noteq> [] \<and> set us = set (xs @ ys) then Some (Exit 0, restart (main_thread s1) s')
       else Some (Ret (), s'))" "mgr_wf K s' (filter (\<lambda>t. t \<notin> set us) (xs @ ys)) zs'"
    "p_pid (descr s' (main_thread s1)) = p_pid (descr s1 (main_thread s1))"
    "klog s' = klog s1 @ map (unmap_of K) (filter (\<lambda>t. p_detached (descr s1 t) \<noteq> 0) us)"
    using Cons.IH [OF w1 _ su(1)] by blast
  have mp: "map (\<lambda>t. (p_pid (descr s1 t), WExited 0)) us = map (\<lambda>t. (p_pid (descr s t), WExited 0)) us"
    by (rule map_cong) (use su(2) same in metis)+
  have fp: "filter (\<lambda>t. p_detached (descr s1 t) \<noteq> 0) us = filter (\<lambda>t. p_detached (descr s t) \<noteq> 0) us"
    by (rule filter_cong) (use su(2) same in metis)+
  have all: "set (u # us) = set ths \<longleftrightarrow> set us = set (xs @ ys)" using d su ths by auto
  have pm: "p_pid (descr s1 (main_thread s)) = p_pid (descr s (main_thread s))" using same [OF d(2)] by simp
  let ?us = "u # us"
  show ?case
  proof (cases "main_thread_exiting s \<and> xs @ ys = []")
    case True
    then have "us = []" using su(1) by auto
    moreover have "filter (\<lambda>t. t \<notin> set ?us) ths = xs @ ys" unfolding fu using \<open>us = []\<close> by simp
    ultimately show ?thesis using e True w1 k pm ths by (intro exI [of _ s1] exI [of _ zs1]) simp
  next
    case False
    then have ne: "main_thread_exiting s \<and> us \<noteq> [] \<and> set us = set (xs @ ys) \<longleftrightarrow>
      main_thread_exiting s \<and> ?us \<noteq> [] \<and> set ?us = set ths" unfolding all by auto
    have "pthread_exited K (p_pid (descr s u)) s = Some (Ret (), s1)" using e False by (simp only: if_False)
    then have step: "pthread_reap_children K (map (\<lambda>t. (p_pid (descr s t), WExited 0)) ?us) s =
      pthread_reap_children K (map (\<lambda>t. (p_pid (descr s t), WExited 0)) us) s1" by simp
    have "pthread_reap_children K (map (\<lambda>t. (p_pid (descr s t), WExited 0)) ?us) s =
      (if main_thread_exiting s \<and> ?us \<noteq> [] \<and> set ?us = set ths then Some (Exit 0, restart (main_thread s) s')
       else Some (Ret (), s'))"
      unfolding step using r(1) unfolding mp m ne .
    moreover have "klog s' = klog s @ map (unmap_of K) (filter (\<lambda>t. p_detached (descr s t) \<noteq> 0) ?us)"
      unfolding r(4) k fp by simp
    moreover have "mgr_wf K s' (filter (\<lambda>t. t \<notin> set ?us) ths) zs'" unfolding fu by (rule r(2))
    moreover have "p_pid (descr s' (main_thread s)) = p_pid (descr s (main_thread s))" using r(3) pm unfolding m by simp
    ultimately show ?thesis by blast
  qed
qed

text \<open>
  C14. The main thread's \<open>pthread_exit\<close> waits for all other threads. Once the main thread has asked for it, and
  processes of live threads end in any order: as long as some live thread remains, the manager goes on and
  the main thread is not restarted; when the last one has gone, the main thread is restarted, and the manager
  ends. Meanwhile exactly the detached threads among them are freed.
\<close>

theorem main_exit_waits_for_all:
  assumes "mgr_wf K s ths zs" and "distinct us" and "set us \<subseteq> set ths" and "us \<noteq> []"
    and "inj_on (\<lambda>t. p_pid (descr s t)) (set ths)" and "\<forall>t \<in> set ths. p_spinlock (descr s t) = 0"
    and "handle_request K \<lparr>req_thread = main_thread s, req_kind = REQ_MAIN_THREAD_EXIT\<rparr> s = Some (Ret (), s1)"
  shows "\<exists>s2. pthread_reap_children K (map (\<lambda>t. (p_pid (descr s t), WExited 0)) us) s1 =
      Some (if set us = set ths then Exit 0 else Ret (), s2) \<and>
    klog s2 = klog s @ map (unmap_of K) (filter (\<lambda>t. p_detached (descr s t) \<noteq> 0) us) @
      (if set us = set ths then [Kill (p_pid (descr s (main_thread s))) PTHREAD_SIG_RESTART] else [])"
proof -
  have s1: "s1 = s\<lparr>main_thread_exiting := True\<rparr>"
    using assms(7) by (auto simp: handle_request_def Let_def split: if_splits)
  have "mgr_wf K s1 ths zs = mgr_wf K s ths zs" by (rule mgr_wf_cong) (auto simp: s1)
  then have "mgr_wf K s1 ths zs" using assms(1) by simp
  moreover have f: "main_thread s1 = main_thread s" "descr s1 = descr s" "klog s1 = klog s" "main_thread_exiting s1"
    by (simp_all add: s1)
  ultimately obtain s' where
    "pthread_reap_children K (map (\<lambda>t. (p_pid (descr s t), WExited 0)) us) s1 =
      (if set us = set ths then Some (Exit 0, restart (main_thread s) s') else Some (Ret (), s'))"
    "p_pid (descr s' (main_thread s)) = p_pid (descr s (main_thread s))"
    "klog s' = klog s @ map (unmap_of K) (filter (\<lambda>t. p_detached (descr s t) \<noteq> 0) us)"
    using reap_exits [of K s1 ths zs us] assms(2-6) unfolding f by auto
  then show ?thesis by (cases "set us = set ths") simp_all
qed

theorem main_exit_waits_for_all_witness:
  "\<exists>s1 s2. handle_request easy_kern \<lparr>req_thread = 0x8000, req_kind = REQ_MAIN_THREAD_EXIT\<rparr> one_thread = Some (Ret (), s1) \<and>
    pthread_reap_children easy_kern [(200, WExited 0)] s1 = Some (Exit 0, s2) \<and>
    klog s2 = [Kill 100 PTHREAD_SIG_RESTART]"
proof -
  have m: "main_thread one_thread = 0x8000" "klog one_thread = []" "p_pid (descr one_thread 0x8000) = 100"
    "p_pid (descr one_thread 0xbf9ffd80) = 200" "p_detached (descr one_thread 0xbf9ffd80) = 0"
    "p_spinlock (descr one_thread 0xbf9ffd80) = 0"
    by (simp_all add: one_thread_def zero_st_def zero_descr_def)
  obtain s1 where h: "handle_request easy_kern \<lparr>req_thread = 0x8000, req_kind = REQ_MAIN_THREAD_EXIT\<rparr> one_thread = Some (Ret (), s1)"
    by (simp add: handle_request_def one_thread_def)
  have "distinct [0xbf9ffd80 :: addr]" "set [0xbf9ffd80 :: addr] \<subseteq> set [0xbf9ffd80]" "[0xbf9ffd80 :: addr] \<noteq> []"
    "inj_on (\<lambda>t. p_pid (descr one_thread t)) (set [0xbf9ffd80])" "\<forall>t \<in> set [0xbf9ffd80]. p_spinlock (descr one_thread t) = 0"
    using m by simp_all
  from main_exit_waits_for_all [OF one_thread_wf this, unfolded m, OF h] obtain s2 where
    "pthread_reap_children easy_kern (map (\<lambda>t. (p_pid (descr one_thread t), WExited 0)) [0xbf9ffd80]) s1 = Some (Exit 0, s2)"
    "klog s2 = [] @ map (unmap_of easy_kern) (filter (\<lambda>t. p_detached (descr one_thread t) \<noteq> 0) [0xbf9ffd80]) @ [Kill 100 PTHREAD_SIG_RESTART]"
    by auto
  with h m show ?thesis by simp
qed

text \<open>
  A thread killed by a signal takes the process with it: when the process of a thread was terminated by a
  signal, the same signal goes to every remaining live thread and to the main thread, and the manager ends.
\<close>

theorem killed_thread_kills_all:
  assumes "mgr_wf K s (xs @ t # ys) zs" and "\<forall>u \<in> set xs. p_pid (descr s u) \<noteq> p_pid (descr s t)"
    and "p_spinlock (descr s t) = 0" and "\<not> main_thread_exiting s"
  shows "\<exists>s'. pthread_reap_children K ((p_pid (descr s t), WSignaled sig) # others) s = Some (Exit 0, s') \<and>
    klog s' = klog s @ (if p_detached (descr s t) \<noteq> 0 then [unmap_of K t] else []) @
      map (\<lambda>u. Kill (p_pid (descr s u)) sig) (xs @ ys @ [main_thread s])"
proof -
  from exited_effect [OF assms(1) refl assms(2,3)] obtain s1 where
    e': "pthread_exited K (p_pid (descr s t)) s = (if main_thread_exiting s \<and> xs @ ys = []
      then Some (Exit 0, restart (main_thread s) s1) else Some (Ret (), s1))" and m: "main_thread s1 = main_thread s"
    and l: "\<And>u. links_off (descr s1 u) = (if u = t then (links_off (descr s t))\<lparr>p_exited := True\<rparr> else links_off (descr s u))"
    and c: "if p_detached (descr s t) = 0 then mgr_wf K s1 (xs @ ys) (t # zs) \<and> klog s1 = klog s
      else mgr_wf K s1 (xs @ ys) zs \<and> klog s1 = klog s @ [unmap_of K t] \<and> \<not> slot K s1 t"
    by blast
  have e: "pthread_exited K (p_pid (descr s t)) s = Some (Ret (), s1)" using e' assms(4) by simp
  have k: "klog s1 = klog s @ (if p_detached (descr s t) \<noteq> 0 then [unmap_of K t] else [])"
    using c by (simp split: if_splits)
  have w: "\<exists>zs'. mgr_wf K s1 (xs @ ys) zs'" using c by (metis (full_types))
  have "p_pid (descr s1 u) = p_pid (descr s u)" if "u \<noteq> t" for u
    using links_off_fields(1) [of "descr s1 u" "descr s u"] l [of u] that by simp
  moreover have "t \<notin> set (xs @ ys @ [main_thread s])" using assms(1) by (auto simp: mgr_wf_def)
  ultimately have p: "map (\<lambda>u. Kill (p_pid (descr s1 u)) sig) (xs @ ys @ [main_thread s]) =
      map (\<lambda>u. Kill (p_pid (descr s u)) sig) (xs @ ys @ [main_thread s])"
    by (intro map_cong refl) metis
  obtain zs' where "mgr_wf K s1 (xs @ ys) zs'" using w by blast
  from kill_all_effect [OF mgr_wf_ring [OF this], of sig True] p k show ?thesis
    by (simp add: e m)
qed

theorem killed_thread_kills_all_witness:
  "\<exists>s'. pthread_reap_children easy_kern [(200, WSignaled 11)] one_thread = Some (Exit 0, s') \<and>
    klog s' = [Kill 100 11]"
proof -
  have "p_pid (descr one_thread 0xbf9ffd80) = 200" "p_spinlock (descr one_thread 0xbf9ffd80) = 0"
    "\<not> main_thread_exiting one_thread" "klog one_thread = []" "p_detached (descr one_thread 0xbf9ffd80) = 0"
    "main_thread one_thread = 0x8000" "p_pid (descr one_thread 0x8000) = 100"
    by (simp_all add: one_thread_def zero_descr_def zero_st_def)
  then show ?thesis
    using killed_thread_kills_all [of easy_kern one_thread "[]" "0xbf9ffd80" "[]" "[]" 11 "[]"] one_thread_wf by simp
qed

end
