(* ===== verification/Pthread_Main.thy ===== *)
theory Pthread_Main
  imports Manager
begin

unbundle bit_operations_syntax

text \<open>
  Initialisation of the library, thread creation as seen by the program, scheduling parameters, exit of
  the process, and what happens after \<open>fork\<close> and before \<open>exec\<close> (\<open>pthread.c\<close>).
\<close>

section \<open>Static data\<close>

definition pthread_initial_thread :: "pthread_t \<Rightarrow> pthread_descr" where
  "pthread_initial_thread self =
     \<lparr>p_nextlive = self, p_prevlive = self, p_nextwaiting = NULL, p_pid = 0, p_spinlock = 0, p_signal = 0,
      p_signal_jmp = False, p_cancel_jmp = False, p_terminated = False, p_detached = 0, p_exited = False,
      p_retval = NULL, p_retcode = 0, p_joining = NULL, p_cleanup = NULL, p_cancelstate = 0,
      p_canceltype = 0, p_canceled = False, p_errno = 0, p_h_errno = 0, p_initial_fn = NULL,
      p_initial_fn_arg = NULL, p_initial_mask = {}, p_specific = replicate PTHREAD_KEYS_MAX NULL\<rparr>"

definition pthread_manager_thread :: pthread_descr where
  "pthread_manager_thread =
     \<lparr>p_nextlive = NULL, p_prevlive = NULL, p_nextwaiting = NULL, p_pid = 0, p_spinlock = 0, p_signal = 0,
      p_signal_jmp = False, p_cancel_jmp = False, p_terminated = False, p_detached = 0, p_exited = False,
      p_retval = NULL, p_retcode = 0, p_joining = NULL, p_cleanup = NULL, p_cancelstate = 0,
      p_canceltype = 0, p_canceled = False, p_errno = 0, p_h_errno = 0, p_initial_fn = NULL,
      p_initial_fn_arg = NULL, p_initial_mask = {}, p_specific = replicate PTHREAD_KEYS_MAX NULL\<rparr>"

text \<open>
  The variables of \<open>pthread.c\<close> when the program starts, with \<open>init\<close> and \<open>mgr\<close> the addresses of the two
  static descriptors.
\<close>

definition pthread_statics :: "pthread_t \<Rightarrow> pthread_t \<Rightarrow> st \<Rightarrow> st" where
  "pthread_statics init mgr s = s\<lparr>
     descr := (descr s)(init := pthread_initial_thread init, mgr := pthread_manager_thread),
     initial_thread := init, manager_thread := mgr, main_thread := init, initial_thread_bos := NULL,
     manager_request := - 1, manager_reader := 0, manager_thread_bos := NULL, manager_thread_tos := NULL,
     exit_requested := False, exit_code := 0\<rparr>"

section \<open>Initialisation\<close>

text \<open>\<open>frame\<close> is the address \<open>CURRENT_STACK_FRAME\<close>, in the stack of the initial thread.\<close>

definition pthread_initialize :: "kern \<Rightarrow> addr \<Rightarrow> st \<Rightarrow> st" where
  "pthread_initialize K frame s =
     (if initial_thread_bos s \<noteq> NULL then s
      else
        let s = s\<lparr>initial_thread_bos := initial_bos frame\<rparr>;
            s = upd_th (initial_thread s) (p_pid_update (\<lambda>_. getpid_env K (initial_thread s))) s;
            s = s\<lparr>sighandlers := (sighandlers s)(PTHREAD_SIG_RESTART := SA_sighandler)\<rparr>;
            s = s\<lparr>sighandlers := (sighandlers s)(PTHREAD_SIG_CANCEL := SA_sigcancel)\<rparr>;
            s = s\<lparr>sigmask := (sigmask s)(initial_thread s := insert PTHREAD_SIG_RESTART (sigmask s (initial_thread s)))\<rparr>
        in log On_exit s)"

definition THREAD_MANAGER_STACK_SIZE :: "kern \<Rightarrow> nat" where
  "THREAD_MANAGER_STACK_SIZE K = 2 * page_size K - 32"

text \<open>The new process runs \<open>__pthread_manager\<close>.\<close>

definition pthread_initialize_manager :: "kern \<Rightarrow> st \<Rightarrow> int \<times> st" where
  "pthread_initialize_manager K s =
     (let size = THREAD_MANAGER_STACK_SIZE K in
      if \<not> malloc_ok K size s then (- 1, s\<lparr>manager_thread_bos := NULL\<rparr>)
      else
        let s = s\<lparr>manager_thread_bos := malloc_addr K size s\<rparr>;
            s = s\<lparr>manager_thread_tos := manager_thread_bos s + of_nat size\<rparr>
        in (case pipe_env K s of
              None \<Rightarrow> (- 1, log (Free (manager_thread_bos s)) s)
            | Some (fd0, fd1) \<Rightarrow>
                let s = s\<lparr>manager_request := fd1, manager_reader := fd0\<rparr>
                in if clone_env K (manager_thread_tos s) s = - 1 then
                     let s = log (Free (manager_thread_bos s)) s;
                         s = log (Close fd0) s;
                         s = log (Close fd1) s
                     in (- 1, s\<lparr>manager_request := - 1\<rparr>)
                   else (0, s)))"

section \<open>Threads as the program sees them\<close>

text \<open>The result carries the new thread where the code stores it through its first argument.\<close>

definition pthread_create ::
  "env \<Rightarrow> kern \<Rightarrow> pthread_t \<Rightarrow> pthread_attr_t option \<Rightarrow> addr \<Rightarrow> addr \<Rightarrow> st \<Rightarrow> (int \<times> pthread_t option) res" where
  "pthread_create E K self attr start_routine arg s =
     (let (r, s) = (if manager_request s < 0 then pthread_initialize_manager K s else (0, s))
      in if r < 0 then Some (Ret (EAGAIN, None), s)
         else and_then
           (suspend E self (send_request self (REQ_CREATE attr start_routine arg (sigmask s self)) s))
           (\<lambda>_ s. Some (Ret (p_retcode (descr s self),
              if p_retcode (descr s self) = 0 then Some (p_retval (descr s self)) else None), s)))"

definition pthread_self :: "kern \<Rightarrow> st \<Rightarrow> addr \<Rightarrow> pthread_t" where
  "pthread_self K s sp = thread_self K s sp"

definition pthread_equal :: "pthread_t \<Rightarrow> pthread_t \<Rightarrow> int" where
  "pthread_equal thread1 thread2 = (if thread1 = thread2 then 1 else 0)"

definition pthread_setschedparam :: "kern \<Rightarrow> pthread_t \<Rightarrow> int \<Rightarrow> int \<Rightarrow> st \<Rightarrow> int \<times> st" where
  "pthread_setschedparam K target_thread policy priority s =
     (let pid = p_pid (descr s target_thread) in
      if sched_setscheduler_env K pid policy priority = - 1 then (sched_errno K, s)
      else (0, log (Setscheduler pid policy priority) s))"

definition pthread_getschedparam :: "kern \<Rightarrow> pthread_t \<Rightarrow> st \<Rightarrow> int \<times> (int \<times> int) option" where
  "pthread_getschedparam K target_thread s =
     (let pid = p_pid (descr s target_thread);
          p = sched_getscheduler_env K pid
      in if p = - 1 then (sched_errno K, None)
         else if \<not> sched_getparam_ok K pid then (sched_errno K, None)
         else (0, Some (p, sched_getparam_env K pid)))"

section \<open>Process-wide requests\<close>

definition pthread_exit_process :: "env \<Rightarrow> pthread_t \<Rightarrow> int \<Rightarrow> st \<Rightarrow> unit res" where
  "pthread_exit_process E self retcode s =
     (if manager_request s \<ge> 0 then suspend E self (send_request self (REQ_PROCESS_EXIT retcode) s)
      else Some (Ret (), s))"

definition pthread_reset_main_thread :: "kern \<Rightarrow> pthread_t \<Rightarrow> st \<Rightarrow> st" where
  "pthread_reset_main_thread K self s =
     (let s = log (Free (manager_thread_bos s)) s;
          s = s\<lparr>manager_thread_bos := NULL, manager_thread_tos := NULL\<rparr>;
          s = log (Close (manager_request s)) s;
          s = log (Close (manager_reader s)) s;
          s = s\<lparr>manager_request := - 1, manager_reader := - 1\<rparr>;
          s = upd_th self (p_pid_update (\<lambda>_. getpid_env K self)) s;
          s = s\<lparr>main_thread := self\<rparr>;
          s = upd_th self (p_nextlive_update (\<lambda>_. self)) s
      in upd_th self (p_nextlive_update (\<lambda>_. self)) s)"

definition pthread_kill_other_threads_np :: "env \<Rightarrow> kern \<Rightarrow> pthread_t \<Rightarrow> st \<Rightarrow> unit res" where
  "pthread_kill_other_threads_np E K self s =
     and_then (pthread_exit_process E self 0 s) (\<lambda>_ s. Some (Ret (), pthread_reset_main_thread K self s))"

section \<open>The manager at work while a thread sleeps\<close>

text \<open>
  A thread that has sent a request sleeps in \<open>sigsuspend\<close>; meanwhile the manager wakes up with the input
  \<open>i\<close>, and its pass ends with the restart signal to that thread.
\<close>

definition manager_env :: "env \<Rightarrow> kern \<Rightarrow> manager_input \<Rightarrow> env" where
  "manager_env E K i = E\<lparr>sigsuspend_env := \<lambda>self msk s.
     (case manager_pass K i s of
        Some (Ret _, s') \<Rightarrow> Some (PTHREAD_SIG_RESTART, s')
      | Some (Exit _, s') \<Rightarrow> Some (PTHREAD_SIG_RESTART, s')
      | _ \<Rightarrow> None)\<rparr>"

text \<open>The manager is woken by a request, and no child has terminated.\<close>

definition by_request :: "manager_input \<Rightarrow> bool" where
  "by_request i \<longleftrightarrow> i_others i = id \<and> i_select i = 1 \<and> i_ppid i \<noteq> 1"

lemma manager_pass_request:
  assumes "by_request i" and "\<not> terminated_children s" and "reqs s = r # rs"
  shows "manager_pass K i s = handle_request K r (s\<lparr>reqs := rs\<rparr>)"
  using assms by (simp add: manager_pass_def by_request_def)

lemma suspend_manager:
  assumes "manager_pass K i s = Some (f, s')" and "f = Ret () \<or> f = Exit 0"
    and "self \<noteq> manager_thread s'" and "\<not> p_signal_jmp (descr s' self)"
  shows "suspend (manager_env E K i) self s = Some (Ret (), upd_th self (p_signal_update (\<lambda>_. PTHREAD_SIG_RESTART)) s')"
proof -
  have "sigsuspend_env (manager_env E K i) self msk s = Some (PTHREAD_SIG_RESTART, s')" for msk
    using assms(1,2) by (auto simp: manager_env_def)
  then show ?thesis unfolding suspend_def using assms(3,4)
    by (subst suspend_loop.simps) (simp add: deliver_def pthread_sighandler_def)
qed

lemma mgr_wf_signal: "mgr_wf K (upd_th t (p_signal_update f) s) ths zs = mgr_wf K s ths zs"
  by (rule mgr_wf_cong) auto

lemma mgr_wf_reqs: "mgr_wf K (s\<lparr>reqs := r\<rparr>) ths zs = mgr_wf K s ths zs"
  by (rule mgr_wf_cong) auto

lemma room_reqs: "room K (s\<lparr>reqs := r\<rparr>) = room K s"
  by (simp add: room_def seg_used_def)

text \<open>Creation through the manager.\<close>

lemma create_through_manager:
  assumes wf: "mgr_wf K s ths zs" and rm: "room K s" and cl: "\<And>t u. clone_env K t u \<noteq> - 1"
    and self: "self \<in> set (main_thread s # ths)" "self \<noteq> manager_thread s" "\<not> p_signal_jmp (descr s self)"
    and m: "manager_request s \<ge> 0" "reqs s = []" "\<not> terminated_children s" "by_request i"
  shows "\<exists>n s'. pthread_create (manager_env E K i) K self attr fn arg s = Some (Ret (0, Some n), s') \<and>
    mgr_wf K s' (n # ths) zs \<and> n \<notin> set (main_thread s # ths @ zs) \<and> reqs s' = [] \<and>
    main_thread s' = main_thread s \<and> main_thread_exiting s' = main_thread_exiting s \<and>
    manager_request s' = manager_request s \<and>
    links_off (descr s' n) =
      (init_new_thread attr fn arg (sigmask s self) (links_off (descr s n)))\<lparr>p_pid := p_pid (descr s' n)\<rparr>"
proof -
  define s1 where "s1 = send_request self (REQ_CREATE attr fn arg (sigmask s self)) s"
  have s1: "s1\<lparr>reqs := []\<rparr> = s" "reqs s1 = [\<lparr>req_thread = self, req_kind = REQ_CREATE attr fn arg (sigmask s self)\<rparr>]"
    "\<not> terminated_children s1"
    using m by (simp_all add: s1_def send_request_def)
  let ?fp = "p_pid (descr s self)"
  from create_effect [OF wf rm cl self(1), of attr fn arg "sigmask s self" ?fp] obtain n s2 where
    e: "pthread_handle_create K self attr fn arg (sigmask s self) ?fp s = Some (0, s2)"
    and w: "mgr_wf K s2 (n # ths) zs" and n: "n \<notin> set (main_thread s # ths @ zs)"
    and dn: "links_off (descr s2 n) = (init_new_thread attr fn arg (sigmask s self) (links_off (descr s n)))\<lparr>p_pid := p_pid (descr s2 n)\<rparr>"
    and du: "\<And>u. u \<noteq> n \<Longrightarrow> links_off (descr s2 u) =
       (if u = self then (links_off (descr s u))\<lparr>p_retval := n\<rparr> else links_off (descr s u))"
    and f: "main_thread s2 = main_thread s" "main_thread_exiting s2 = main_thread_exiting s" "reqs s2 = reqs s"
      "manager_thread s2 = manager_thread s" "manager_request s2 = manager_request s" by blast
  define s3 where "s3 = restart self (upd_th self (p_retcode_update (\<lambda>_. 0)) s2)"
  define s4 where "s4 = upd_th self (p_signal_update (\<lambda>_. PTHREAD_SIG_RESTART)) s3"
  have sn: "self \<noteq> n" using self(1) n by auto
  have ds: "p_retval (descr s2 self) = n" "\<not> p_signal_jmp (descr s2 self)"
    using du [OF sn] self(3) by (cases "descr s2 self"; cases "descr s self"; simp add: links_off_def)+
  have "manager_pass K i s1 = Some (Ret (), s3)"
    unfolding manager_pass_request [OF m(4) s1(3,2)] s1(1)
    using e by (simp add: handle_request_def s3_def)
  moreover have "self \<noteq> manager_thread s3" "\<not> p_signal_jmp (descr s3 self)"
    using self(2) ds(2) f by (simp_all add: s3_def)
  ultimately have "suspend (manager_env E K i) self s1 = Some (Ret (), s4)"
    using suspend_manager [of K i s1 "Ret ()" s3 self E] by (simp add: s4_def)
  then have "pthread_create (manager_env E K i) K self attr fn arg s = Some (Ret (0, Some n), s4)"
    using m(1) ds(1) by (simp add: pthread_create_def s1_def [symmetric] s4_def s3_def)
  moreover have "mgr_wf K s4 (n # ths) zs = mgr_wf K s2 (n # ths) zs"
    by (rule mgr_wf_cong) (auto simp: s4_def s3_def)
  moreover have "descr s4 n = descr s2 n" "reqs s4 = []" "main_thread s4 = main_thread s"
    "main_thread_exiting s4 = main_thread_exiting s" "manager_request s4 = manager_request s"
    using sn f m(2) by (simp_all add: s4_def s3_def)
  ultimately show ?thesis using w n dn by (intro exI [of _ n] exI [of _ s4]) simp
qed

lemma exit_through_manager:
  assumes wf: "mgr_wf K s ths zs" and self: "self \<in> set (main_thread s # ths)" "self \<noteq> manager_thread s"
    "\<not> p_signal_jmp (descr s self)"
    and m: "manager_request s \<ge> 0" "reqs s = []" "\<not> terminated_children s" "by_request i"
  shows "\<exists>s' us. pthread_exit_process (manager_env E K i) self code s = Some (Ret (), s') \<and>
    distinct us \<and> set us = set (main_thread s # ths) - {self} \<and>
    klog s' = klog s @ map (\<lambda>u. Kill (p_pid (descr s u)) PTHREAD_SIG_CANCEL) us @
      [Kill (p_pid (descr s self)) PTHREAD_SIG_RESTART] \<and> exit_requested s' \<and> exit_code s' = code"
proof -
  note d = is_ring_distinct [OF mgr_wf_ring [OF wf]]
  obtain us where us: "chain (nextlive (descr s)) self (p_nextlive (descr s self)) us" "distinct us"
    "set us = set (main_thread s # ths) - {self}"
    using ring_from_member [OF mgr_wf_ring [OF wf] self(1)] by blast
  from handle_exit_effect [OF us(1), of code] obtain s2 where
    h: "pthread_handle_exit self code s = Some (Exit 0, s2)" "exit_requested s2" "exit_code s2 = code"
    "klog s2 = klog s @ map (\<lambda>u. Kill (p_pid (descr s u)) PTHREAD_SIG_CANCEL) us @
      [Kill (p_pid (descr s self)) PTHREAD_SIG_RESTART]" "descr s2 = descr s" "manager_thread s2 = manager_thread s"
    by blast
  define s1 where "s1 = send_request self (REQ_PROCESS_EXIT code) s"
  have s1: "s1\<lparr>reqs := []\<rparr> = s" "reqs s1 = [\<lparr>req_thread = self, req_kind = REQ_PROCESS_EXIT code\<rparr>]"
    "\<not> terminated_children s1"
    using m by (simp_all add: s1_def send_request_def)
  have "manager_pass K i s1 = Some (Exit 0, s2)"
    unfolding manager_pass_request [OF m(4) s1(3,2)] s1(1) using h(1) by (simp add: handle_request_def)
  then have "suspend (manager_env E K i) self s1 = Some (Ret (), upd_th self (p_signal_update (\<lambda>_. PTHREAD_SIG_RESTART)) s2)"
    using self h(5,6) by (intro suspend_manager [of K i s1 "Exit 0"]) simp_all
  then have "pthread_exit_process (manager_env E K i) self code s =
      Some (Ret (), upd_th self (p_signal_update (\<lambda>_. PTHREAD_SIG_RESTART)) s2)"
    using m(1) by (simp add: pthread_exit_process_def s1_def)
  then show ?thesis using us(2,3) h(2-4) 
    by (intro exI [of _ "upd_th self (p_signal_update (\<lambda>_. PTHREAD_SIG_RESTART)) s2"] exI [of _ us]) simp
qed

section \<open>After a fork\<close>

text \<open>
  In the child of a \<open>fork\<close> the calling thread becomes the main thread, alone in the ring; the other threads
  of the parent do not run, but their stacks stay reserved.
\<close>

lemma reset_frame:
  "seg_part (pthread_reset_main_thread K self s) =
     (stack_segments s, num_stack_segments s, initial_thread_bos s, initial_thread s, self)"
  "main_thread_exiting (pthread_reset_main_thread K self s) = main_thread_exiting s"
  "manager_request (pthread_reset_main_thread K self s) = - 1"
  "p_exited (descr (pthread_reset_main_thread K self s) t) = p_exited (descr s t)"
  "p_nextlive (descr (pthread_reset_main_thread K self s) self) = self"
  "main_thread (pthread_reset_main_thread K self s) = self"
  by (simp_all add: pthread_reset_main_thread_def Let_def seg_part_def)

lemma reset_wf:
  assumes "mgr_wf K s ths zs" and "self \<in> set (main_thread s # ths)"
  shows "mgr_wf K (pthread_reset_main_thread K self s) [] []"
proof -
  let ?s = "pthread_reset_main_thread K self s"
  have sp: "stack_segments ?s = stack_segments s" "num_stack_segments ?s = num_stack_segments s"
    "initial_thread_bos ?s = initial_thread_bos s" "initial_thread ?s = initial_thread s" "main_thread ?s = self"
    using reset_frame(1) [of K self s] by (simp_all add: seg_part_def)
  have "segs_wf ?s = segs_wf s" "slot K ?s = slot K s"
    by (simp_all add: sp segs_wf_def slot_def seg_used_def fun_eq_iff)
  then show ?thesis
    using assms unfolding mgr_wf_def sp by (auto simp: is_ring_def reset_frame sp)
qed

lemma initialize_effect:
  assumes "stack_segments s = []" and "num_stack_segments s = 0" and "init \<noteq> mgr" and "initial_bos frame \<noteq> NULL"
    and "\<forall>seg < 2048. THREAD_SEG K (initial_bos frame) seg \<noteq> init"
    and "s' = pthread_initialize K frame (pthread_statics init mgr s)"
  shows "mgr_wf K s' [] [] \<and> main_thread s' = init \<and> p_pid (descr s' init) = getpid_env K init \<and>
    PTHREAD_SIG_RESTART \<in> sigmask s' init \<and> sighandlers s' PTHREAD_SIG_RESTART = SA_sighandler \<and>
    sighandlers s' PTHREAD_SIG_CANCEL = SA_sigcancel \<and> manager_request s' < 0 \<and>
    klog s' = klog s @ [On_exit] \<and> pthread_initialize K frame' s' = s'"
proof -
  have e: "s' = log On_exit (let s = pthread_statics init mgr s; s = s\<lparr>initial_thread_bos := initial_bos frame\<rparr>;
      s = upd_th init (p_pid_update (\<lambda>_. getpid_env K init)) s;
      s = s\<lparr>sighandlers := (sighandlers s)(PTHREAD_SIG_RESTART := SA_sighandler)\<rparr>;
      s = s\<lparr>sighandlers := (sighandlers s)(PTHREAD_SIG_CANCEL := SA_sigcancel)\<rparr>
    in s\<lparr>sigmask := (sigmask s)(init := insert PTHREAD_SIG_RESTART (sigmask s init))\<rparr>)"
    by (simp add: assms(6) pthread_initialize_def pthread_statics_def Let_def)
  have d: "p_nextlive (descr s' init) = init" "\<not> p_exited (descr s' init)" "main_thread s' = init"
    "initial_thread s' = init" "initial_thread_bos s' = initial_bos frame" "segs_wf s'"
    using assms(1-3) by (simp_all add: e pthread_statics_def Let_def pthread_initial_thread_def segs_wf_def)
  have "mgr_wf K s' [] []" using d assms(5) by (simp add: mgr_wf_def is_ring_def)
  moreover have "p_pid (descr s' init) = getpid_env K init" "PTHREAD_SIG_RESTART \<in> sigmask s' init"
    "sighandlers s' PTHREAD_SIG_RESTART = SA_sighandler" "sighandlers s' PTHREAD_SIG_CANCEL = SA_sigcancel"
    "manager_request s' < 0" "klog s' = klog s @ [On_exit]"
    by (simp_all add: e pthread_statics_def Let_def)
  moreover have "pthread_initialize K frame' s' = s'" using d(5) assms(4) by (simp add: pthread_initialize_def)
  ultimately show ?thesis using d(3) by blast
qed

section \<open>Properties\<close>

text \<open>
  C30. Initialisation. From the static data of the program, \<open>__pthread_initialize\<close> puts the library into a
  well-formed state: the initial thread is the main thread, alone in the ring, with the restart signal
  blocked and both handlers installed, the exit function registered, and no manager; a second call changes
  nothing.
\<close>

theorem initialize_establishes_invariant:
  assumes "stack_segments s = []" and "num_stack_segments s = 0" and "init \<noteq> mgr" and "initial_bos frame \<noteq> NULL"
    and "\<forall>seg < 2048. THREAD_SEG K (initial_bos frame) seg \<noteq> init"
    and "s' = pthread_initialize K frame (pthread_statics init mgr s)"
  shows "mgr_wf K s' [] [] \<and> main_thread s' = init \<and> p_pid (descr s' init) = getpid_env K init \<and>
    PTHREAD_SIG_RESTART \<in> sigmask s' init \<and> sighandlers s' PTHREAD_SIG_RESTART = SA_sighandler \<and>
    sighandlers s' PTHREAD_SIG_CANCEL = SA_sigcancel \<and> manager_request s' < 0 \<and>
    klog s' = klog s @ [On_exit] \<and> pthread_initialize K frame' s' = s'"
  by (rule initialize_effect [OF assms])

theorem initialize_establishes_invariant_witness:
  "(let s' = pthread_initialize easy_kern 0xbffff000 (pthread_statics 0x8000 0x9000 zero_st) in
     mgr_wf easy_kern s' [] [] \<and> p_pid (descr s' 0x8000) = 100)"
proof -
  have b: "initial_bos 0xbffff000 = 0xbfa00000" by (simp add: initial_bos_def stack_size_def)
  have "stack_segments zero_st = []" "num_stack_segments zero_st = 0" "(0x8000 :: addr) \<noteq> 0x9000"
    "initial_bos 0xbffff000 \<noteq> NULL" "\<forall>seg < 2048. THREAD_SEG easy_kern (initial_bos 0xbffff000) seg \<noteq> 0x8000"
    "getpid_env easy_kern 0x8000 = 100"
    by (simp_all add: zero_st_def b static_not_segment) (simp add: easy_kern_def)
  then show ?thesis
    using initialize_establishes_invariant [of zero_st "0x8000" "0x9000" "0xbffff000" easy_kern _ "0xbffff000"]
    by (simp add: Let_def)
qed

text \<open>
  \<open>pthread_create\<close> through the manager. With the manager running and ready to serve the request, room for
  a stack and a clone that succeeds, the call returns 0 with a thread that did not exist before; that thread
  has joined the ring of live threads, and its descriptor is that of a fresh thread with the given start
  routine and argument, the attributes of the call and the signal mask of the caller; and the pipe is empty
  again.
\<close>

theorem pthread_create_gives_new_thread:
  assumes "mgr_wf K s ths zs" and "room K s" and "\<And>t u. clone_env K t u \<noteq> - 1"
    and "self \<in> set (main_thread s # ths)" and "self \<noteq> manager_thread s" and "\<not> p_signal_jmp (descr s self)"
    and "manager_request s \<ge> 0" and "reqs s = []" and "\<not> terminated_children s" and "by_request i"
  shows "\<exists>n s'. pthread_create (manager_env E K i) K self attr fn arg s = Some (Ret (0, Some n), s') \<and>
    mgr_wf K s' (n # ths) zs \<and> n \<notin> set (main_thread s # ths @ zs) \<and> reqs s' = [] \<and>
    links_off (descr s' n) =
      (init_new_thread attr fn arg (sigmask s self) (links_off (descr s n)))\<lparr>p_pid := p_pid (descr s' n)\<rparr>"
  using create_through_manager [OF assms, of E attr fn arg] by blast

theorem pthread_create_gives_new_thread_witness:
  "\<exists>n s'. pthread_create (manager_env prompt_env easy_kern
        \<lparr>i_others = id, i_select = 1, i_ppid = 100, i_children = []\<rparr>) easy_kern 0x8000 None 0x400 7 one_thread =
      Some (Ret (0, Some n), s') \<and> mgr_wf easy_kern s' [n, 0xbf9ffd80] []"
proof -
  let ?i = "\<lparr>i_others = id, i_select = 1, i_ppid = 100, i_children = []\<rparr>"
  have "clone_env easy_kern t u \<noteq> - 1" for t u by (simp add: easy_kern_def)
  moreover have "0x8000 \<in> set (main_thread one_thread # [0xbf9ffd80])" "0x8000 \<noteq> manager_thread one_thread"
    "\<not> p_signal_jmp (descr one_thread 0x8000)" "manager_request one_thread \<ge> 0" "reqs one_thread = []"
    "\<not> terminated_children one_thread"
    by (simp_all add: one_thread_def zero_st_def zero_descr_def)
  moreover have "by_request ?i" by (simp add: by_request_def)
  ultimately show ?thesis
    using pthread_create_gives_new_thread [OF one_thread_wf one_thread_room, of "0x8000" ?i prompt_env None "0x400" 7]
    by blast
qed

text \<open>
  Replacing the process. Before an \<open>exec\<close>, \<open>pthread_kill_other_threads_np\<close> has the cancel signal sent to
  every other live thread, exactly once, and leaves the calling thread as the main thread, alone in a
  well-formed ring, with the connection to the manager closed.
\<close>

theorem kill_other_threads_leaves_caller_alone:
  assumes "mgr_wf K s ths zs" and "self \<in> set (main_thread s # ths)" and "self \<noteq> manager_thread s"
    and "\<not> p_signal_jmp (descr s self)" and "manager_request s \<ge> 0" and "reqs s = []"
    and "\<not> terminated_children s" and "by_request i"
  shows "\<exists>s' us. pthread_kill_other_threads_np (manager_env E K i) K self s = Some (Ret (), s') \<and>
    distinct us \<and> set us = set (main_thread s # ths) - {self} \<and>
    filter (\<lambda>e. \<exists>pid. e = Kill pid PTHREAD_SIG_CANCEL) (klog s') =
      filter (\<lambda>e. \<exists>pid. e = Kill pid PTHREAD_SIG_CANCEL) (klog s) @
      map (\<lambda>u. Kill (p_pid (descr s u)) PTHREAD_SIG_CANCEL) us \<and>
    is_ring (descr s') self [] \<and> main_thread s' = self \<and> manager_request s' = - 1"
proof -
  from exit_through_manager [OF assms, of E 0] obtain s1 us where
    e: "pthread_exit_process (manager_env E K i) self 0 s = Some (Ret (), s1)"
    and us: "distinct us" "set us = set (main_thread s # ths) - {self}"
    and k: "klog s1 = klog s @ map (\<lambda>u. Kill (p_pid (descr s u)) PTHREAD_SIG_CANCEL) us @
      [Kill (p_pid (descr s self)) PTHREAD_SIG_RESTART]" by blast
  let ?s = "pthread_reset_main_thread K self s1"
  have "klog ?s = klog s1 @ [Free (manager_thread_bos s1), Close (manager_request s1), Close (manager_reader s1)]"
    by (simp add: pthread_reset_main_thread_def Let_def)
  then have "filter (\<lambda>e. \<exists>pid. e = Kill pid PTHREAD_SIG_CANCEL) (klog ?s) =
      filter (\<lambda>e. \<exists>pid. e = Kill pid PTHREAD_SIG_CANCEL) (klog s) @
      map (\<lambda>u. Kill (p_pid (descr s u)) PTHREAD_SIG_CANCEL) us"
    using k by (simp add: filter_map o_def)
  moreover have "pthread_kill_other_threads_np (manager_env E K i) K self s = Some (Ret (), ?s)"
    using e by (simp add: pthread_kill_other_threads_np_def)
  ultimately show ?thesis using us reset_frame [of K self s1]
    by (intro exI [of _ ?s] exI [of _ us]) (simp add: is_ring_def)
qed

theorem kill_other_threads_leaves_caller_alone_witness:
  "\<exists>s'. pthread_kill_other_threads_np (manager_env prompt_env easy_kern
        \<lparr>i_others = id, i_select = 1, i_ppid = 100, i_children = []\<rparr>) easy_kern 0xbf9ffd80 one_thread = Some (Ret (), s') \<and>
    is_ring (descr s') 0xbf9ffd80 [] \<and> main_thread s' = 0xbf9ffd80"
proof -
  let ?i = "\<lparr>i_others = id, i_select = 1, i_ppid = 100, i_children = []\<rparr>"
  have "0xbf9ffd80 \<in> set (main_thread one_thread # [0xbf9ffd80])" "0xbf9ffd80 \<noteq> manager_thread one_thread"
    "\<not> p_signal_jmp (descr one_thread 0xbf9ffd80)" "manager_request one_thread \<ge> 0" "reqs one_thread = []"
    "\<not> terminated_children one_thread" "by_request ?i"
    by (simp_all add: one_thread_def zero_st_def zero_descr_def by_request_def)
  from kill_other_threads_leaves_caller_alone [OF one_thread_wf this, of prompt_env] show ?thesis by blast
qed

end
