(* ===== verification/Thread_System.thy ===== *)
theory Thread_System
  imports Pthread_Main
begin

text \<open>
  The threads of a process and the thread manager together. Any number of threads create threads, run, exit, join and
  detach each other, while the manager serves the requests in its pipe and reaps the processes that have ended, in
  every order. A step is a section of \<open>join.c\<close> under the spin lock of a descriptor, the sending or the delivery of a
  restart signal, the writing of a request, or what the manager does with one request or one child; the steps run the
  definitions of \<open>Join\<close>, \<open>Manager\<close> and \<open>Restart\<close> on the shared state.

  The program names a thread in a call only as long as the thread is there. It may call \<open>pthread_join\<close> and
  \<open>pthread_detach\<close> for the same thread any number of times, from several threads at once, until one of them has got the
  value of the thread or has detached it; that only one thread waits for it is the work of the guards in \<open>join.c\<close>. After
  that, only calls that these guards refuse are made for it. The program does not detach a thread after it has terminated and before
  the manager has reaped it: in that case \<open>Manager\<close> shows that the manager accesses a thread it has freed. It does not
  join its main thread, which does not exit. Nobody is cancelled. The cleanup handlers and the destructors of a thread
  are part of what it does before it exits.
\<close>

section \<open>The sections of exit and join\<close>

definition exit_section :: "pthread_t \<Rightarrow> addr \<Rightarrow> st \<Rightarrow> (pthread_t \<times> st) option" where
  "exit_section self retval s = do {
     s \<leftarrow> acquire_th self s;
     let s = upd_th self (\<lambda>d. d\<lparr>p_retval := retval, p_terminated := True\<rparr>) s;
     let joining = p_joining (descr s self);
     Some (joining, release_th self s) }"

datatype join_result = Join_error int | Join_wait | Join_value addr

definition join_section :: "pthread_t \<Rightarrow> pthread_t \<Rightarrow> st \<Rightarrow> (join_result \<times> st) option" where
  "join_section self th s =
     (if th = self then Some (Join_error EDEADLK, s)
      else do {
        s \<leftarrow> acquire_th th s;
        if p_detached (descr s th) \<noteq> 0 \<or> p_joining (descr s th) \<noteq> NULL then Some (Join_error EINVAL, release_th th s)
        else if \<not> p_terminated (descr s th) then Some (Join_wait, release_th th (upd_th th (p_joining_update (\<lambda>_. self)) s))
        else Some (Join_value (p_retval (descr s th)), release_th th s) })"

definition join_read :: "pthread_t \<Rightarrow> st \<Rightarrow> (addr \<times> st) option" where
  "join_read th s = do {
     s \<leftarrow> acquire_th th s;
     Some (p_retval (descr s th), release_th th s) }"

definition join_notify :: "pthread_t \<Rightarrow> pthread_t \<Rightarrow> st \<Rightarrow> st" where
  "join_notify self th s = (if manager_request s \<ge> 0 then send_request self (REQ_FREE th) s else s)"

text \<open>The functions of \<open>join.c\<close> are made of these sections.\<close>

lemma pthread_exit_sections:
  "pthread_exit E self retval s = do {
     s \<leftarrow> pthread_perform_cleanup E self (upd_th self (p_canceled_update (\<lambda>_. False)) s);
     (joining, s) \<leftarrow> exit_section self retval (pthread_destroy_specifics E self s);
     let s = (if joining \<noteq> NULL then restart joining s else s);
     if self = main_thread s \<and> manager_request s \<ge> 0
     then and_then (suspend E self (send_request self REQ_MAIN_THREAD_EXIT s)) (\<lambda>_ s. Some (Exit 0, s))
     else Some (Exit 0, s) }"
proof -
  have eq: "(do { s \<leftarrow> acquire_th self s; f s }) = (do { (joining, s) \<leftarrow> exit_section self retval s; g joining s })"
    if "\<And>s. f s = (let s = upd_th self (\<lambda>d. d\<lparr>p_retval := retval, p_terminated := True\<rparr>) s
      in g (p_joining (descr s self)) (release_th self s))" for f :: "st \<Rightarrow> unit res" and g s
    by (cases "acquire_th self s") (simp_all add: exit_section_def that Let_def)
  show ?thesis unfolding pthread_exit_def Let_def
  proof (cases "pthread_perform_cleanup E self (upd_th self (p_canceled_update (\<lambda>_. False)) s)", goal_cases)
    case (2 s')
    show ?case unfolding 2 Option.bind.bind_lunit by (rule eq) (simp add: Let_def)
  qed simp
qed

lemma pthread_join_sections:
  "pthread_join E self th True s = do {
     (r, s) \<leftarrow> join_section self th s;
     case r of
       Join_error e \<Rightarrow> Some (Ret (e, None), s)
     | Join_value v \<Rightarrow> Some (Ret (0, Some v), join_notify self th s)
     | Join_wait \<Rightarrow> and_then (suspend_with_cancellation E self s) (\<lambda>_ s. do {
         s' \<leftarrow> acquire_th th s;
         if cancel_pending self s' then Some (PExit PTHREAD_CANCELED, release_th th (upd_th th (p_joining_update (\<lambda>_. NULL)) s'))
         else do { (v, s) \<leftarrow> join_read th s; Some (Ret (0, Some v), join_notify self th s) } }) }"
proof -
  have f: "join_finish self th True s = Some (Ret (0, Some (p_retval (descr s th))), join_notify self th (release_th th s))" for s
    by (simp add: join_finish_def join_notify_def Let_def)
  have g: "do { (v, s) \<leftarrow> join_read th s; Some (Ret (0, Some v), join_notify self th s) } =
    do { s \<leftarrow> acquire_th th s; join_finish self th True s }" for s
    by (cases "acquire_th th s") (simp_all add: join_read_def f)
  have h: "(do { s' \<leftarrow> acquire_th th s; if cancel_pending self s' then k s' else
      do { (v, s) \<leftarrow> join_read th s; Some (Ret (0, Some v), join_notify self th s) } }) =
    (do { s \<leftarrow> acquire_th th s; if cancel_pending self s then k s else join_finish self th True s })" for s k
    unfolding g by (cases "acquire_th th s") simp_all
  show ?thesis unfolding h pthread_join_def Let_def
    by (cases "acquire_th th s") (simp_all add: join_section_def f)
qed

section \<open>The steps\<close>

datatype tpc =
    TNone | TNew | TRun | TCreate | TJoin pthread_t | TJoined pthread_t | TGot pthread_t addr
  | TWake pthread_t | TZombie | TReaped

text \<open>
  \<open>TNone\<close>: there is no such thread. \<open>TCreate\<close>: waits in \<open>pthread_create\<close>. \<open>TJoin\<close>, \<open>TJoined\<close>, \<open>TGot\<close>: waits in
  \<open>pthread_join\<close>, has been restarted there, has the value. \<open>TWake\<close>: has terminated and is about to restart the thread that
  joins it. \<open>TZombie\<close>: the process has ended; \<open>TReaped\<close>: the manager has noticed.

  \<open>t_sig\<close> are the pending restart signals, \<open>t_open\<close> the threads that nobody has detached and whose value nobody
  has got yet, which the program may still join or detach, and \<open>t_val\<close> records the values given to \<open>pthread_exit\<close>.
\<close>

record tsys =
  t_st :: st
  t_ctl :: "pthread_t \<Rightarrow> tpc"
  t_sig :: "pthread_t \<Rightarrow> bool"
  t_open :: "pthread_t set"
  t_val :: "pthread_t \<Rightarrow> addr"

abbreviation tmove :: "pthread_t \<Rightarrow> st \<Rightarrow> tpc \<Rightarrow> tsys \<Rightarrow> tsys" where
  "tmove t s k x \<equiv> x\<lparr>t_st := s, t_ctl := (t_ctl x)(t := k)\<rparr>"

inductive tstep :: "kern \<Rightarrow> tsys \<Rightarrow> tsys \<Rightarrow> bool" for K where
  create_call: "t_ctl x t = TRun \<Longrightarrow> tstep K x (tmove t (send_request t (REQ_CREATE attr fn arg msk) (t_st x)) TCreate x)"
| create_return: "t_ctl x t = TCreate \<Longrightarrow> t_sig x t \<Longrightarrow> deliver t PTHREAD_SIG_RESTART (t_st x) = (H_return, s) \<Longrightarrow>
    tstep K x ((tmove t s TRun x)\<lparr>t_sig := (t_sig x)(t := False)\<rparr>)"
| begin_run: "t_ctl x t = TNew \<Longrightarrow> tstep K x (tmove t (started K t (t_st x)) TRun x)"
| exit: "t_ctl x t = TRun \<Longrightarrow> t \<noteq> main_thread (t_st x) \<Longrightarrow> exit_section t v (t_st x) = Some (joining, s) \<Longrightarrow>
    tstep K x ((tmove t s (if joining \<noteq> NULL then TWake joining else TZombie) x)\<lparr>t_val := (t_val x)(t := v)\<rparr>)"
| exit_restart: "t_ctl x t = TWake u \<Longrightarrow>
    tstep K x ((tmove t (restart u (t_st x)) TZombie x)\<lparr>t_sig := (t_sig x)(u := True)\<rparr>)"
| join_refused: "t_ctl x t = TRun \<Longrightarrow> t_ctl x th \<noteq> TNone \<Longrightarrow> join_section t th (t_st x) = Some (Join_error e, s) \<Longrightarrow>
    tstep K x (tmove t s TRun x)"
| join_sleep: "t_ctl x t = TRun \<Longrightarrow> th \<in> t_open x \<Longrightarrow> join_section t th (t_st x) = Some (Join_wait, s) \<Longrightarrow>
    tstep K x (tmove t s (TJoin th) x)"
| join_at_once: "t_ctl x t = TRun \<Longrightarrow> th \<in> t_open x \<Longrightarrow> join_section t th (t_st x) = Some (Join_value v, s) \<Longrightarrow>
    tstep K x ((tmove t s (TGot th v) x)\<lparr>t_open := t_open x - {th}\<rparr>)"
| join_woken: "t_ctl x t = TJoin th \<Longrightarrow> t_sig x t \<Longrightarrow> deliver t PTHREAD_SIG_RESTART (t_st x) = (H_return, s) \<Longrightarrow>
    tstep K x ((tmove t s (TJoined th) x)\<lparr>t_sig := (t_sig x)(t := False)\<rparr>)"
| join_reads: "t_ctl x t = TJoined th \<Longrightarrow> join_read th (t_st x) = Some (v, s) \<Longrightarrow>
    tstep K x ((tmove t s (TGot th v) x)\<lparr>t_open := t_open x - {th}\<rparr>)"
| join_return: "t_ctl x t = TGot th v \<Longrightarrow> tstep K x (tmove t (join_notify t th (t_st x)) TRun x)"
| detach: "t_ctl x t = TRun \<Longrightarrow> th \<in> t_open x \<Longrightarrow> t_ctl x th \<noteq> TZombie \<Longrightarrow> pthread_detach t th (t_st x) = Some (r, s) \<Longrightarrow>
    tstep K x (x\<lparr>t_st := s, t_open := (if p_detached (descr s th) \<noteq> 0 then t_open x - {th} else t_open x)\<rparr>)"
| detach_refused: "t_ctl x t = TRun \<Longrightarrow> t_ctl x th \<noteq> TNone \<Longrightarrow> pthread_detach t th (t_st x) = Some (EINVAL, s) \<Longrightarrow>
    tstep K x (x\<lparr>t_st := s\<rparr>)"
| serve_free: "reqs (t_st x) = r # rest \<Longrightarrow> req_kind r = REQ_FREE th \<Longrightarrow>
    handle_request K r ((t_st x)\<lparr>reqs := rest\<rparr>) = Some (Ret (), s) \<Longrightarrow>
    tstep K x (tmove th s (if t_ctl x th = TReaped then TNone else t_ctl x th) x)"
| serve_create: "reqs (t_st x) = r # rest \<Longrightarrow> req_kind r = REQ_CREATE attr fn arg msk \<Longrightarrow> room K (t_st x) \<Longrightarrow>
    handle_request K r ((t_st x)\<lparr>reqs := rest\<rparr>) = Some (Ret (), s) \<Longrightarrow> p_retcode (descr s (req_thread r)) = 0 \<Longrightarrow>
    n = p_retval (descr s (req_thread r)) \<Longrightarrow>
    tstep K x ((tmove n s TNew x)\<lparr>t_sig := (t_sig x)(req_thread r := True),
      t_open := (if p_detached (descr s n) = 0 then insert n (t_open x) else t_open x)\<rparr>)"
| serve_create_fails: "reqs (t_st x) = r # rest \<Longrightarrow> req_kind r = REQ_CREATE attr fn arg msk \<Longrightarrow> room K (t_st x) \<Longrightarrow>
    handle_request K r ((t_st x)\<lparr>reqs := rest\<rparr>) = Some (Ret (), s) \<Longrightarrow> p_retcode (descr s (req_thread r)) \<noteq> 0 \<Longrightarrow>
    tstep K x (x\<lparr>t_st := s, t_sig := (t_sig x)(req_thread r := True)\<rparr>)"
| reap: "t_ctl x t = TZombie \<Longrightarrow> pthread_exited K (p_pid (descr (t_st x) t)) (t_st x) = Some (Ret (), s) \<Longrightarrow>
    tstep K x (tmove t s (if p_detached (descr (t_st x) t) \<noteq> 0 then TNone else TReaped) x)"

text \<open>
  At the beginning the main thread runs alone, with the manager ready. No descriptor of a thread can lie at the null
  pointer.
\<close>

definition tstart :: "kern \<Rightarrow> tsys \<Rightarrow> bool" where
  "tstart K x \<longleftrightarrow> mgr_wf K (t_st x) [] [] \<and> manager_request (t_st x) \<ge> 0 \<and> reqs (t_st x) = [] \<and>
     \<not> main_thread_exiting (t_st x) \<and> \<not> p_signal_jmp (descr (t_st x) (main_thread (t_st x))) \<and>
     main_thread (t_st x) \<noteq> NULL \<and> (\<forall>seg < 2048. THREAD_SEG K (initial_thread_bos (t_st x)) seg \<noteq> NULL) \<and>
     t_ctl x = (\<lambda>_. TNone)(main_thread (t_st x) := TRun) \<and> t_sig x = (\<lambda>_. False) \<and> t_open x = {}"

text \<open>The library comes to this state by its initialisation and the start of the manager.\<close>

lemma THREAD_SEG_not_NULL:
  assumes "0 < sizeof_pthread K" and "sizeof_pthread K < 2 ^ 21"
  shows "THREAD_SEG K (initial_bos frame) seg \<noteq> NULL"
proof
  let ?d = "drop_bit 21 (frame - 2 * stack_size)"
  assume "THREAD_SEG K (initial_bos frame) seg = NULL"
  then have "sizeof_descr K = initial_bos frame - of_nat seg * stack_size" by (simp add: THREAD_SEG_def)
  also have "initial_bos frame = push_bit 21 ?d"
    unfolding initial_bos_def stack_size_mask by (rule bit_eqI) (auto simp: bit_simps)
  also have "push_bit 21 ?d - of_nat seg * stack_size = push_bit 21 (?d - of_nat seg)"
    by (simp add: push_bit_eq_mult stack_size_def algebra_simps)
  finally have "take_bit 21 (sizeof_descr K) = 0" by (simp only: take_bit_push_bit) simp
  then have "take_bit 21 (unat (sizeof_descr K)) = 0" by (simp only: unsigned_take_bit_eq [symmetric] unsigned_0)
  moreover have "unat (sizeof_descr K) = sizeof_pthread K"
    using assms(2) by (simp add: sizeof_descr_def unat_of_nat take_bit_nat_eq_self)
  ultimately show False using assms by (simp add: take_bit_nat_eq_self)
qed

lemma initialized_starts:
  assumes s: "stack_segments s = []" "num_stack_segments s = 0" "reqs s = []" "\<not> main_thread_exiting s"
    and i: "init \<noteq> mgr" "init \<noteq> NULL" "initial_bos frame \<noteq> NULL" "\<forall>seg < 2048. THREAD_SEG K (initial_bos frame) seg \<noteq> init"
    and z: "0 < sizeof_pthread K" "sizeof_pthread K < 2 ^ 21"
    and s1: "s1 = pthread_initialize K frame (pthread_statics init mgr s)"
    and m: "pthread_initialize_manager K s1 = (0, s2)" "manager_request s2 \<ge> 0"
  shows "tstart K \<lparr>t_st = s2, t_ctl = (\<lambda>_. TNone)(init := TRun), t_sig = (\<lambda>_. False), t_open = {}, t_val = val\<rparr>"
proof -
  note e = initialize_effect [OF s(1,2) i(1,3,4) s1]
  have f: "seg_part s2 = seg_part s1" "descr s2 = descr s1" "reqs s2 = reqs s1" "main_thread_exiting s2 = main_thread_exiting s1"
    using m(1) by (auto simp: pthread_initialize_manager_def seg_part_def Let_def split: if_splits option.splits prod.splits)
  have "mgr_wf K s2 [] [] = mgr_wf K s1 [] []" by (rule mgr_wf_cong [OF f(1)]) (simp add: f(2))
  moreover have "reqs s1 = []" "\<not> main_thread_exiting s1" "\<not> p_signal_jmp (descr s1 init)" "initial_thread_bos s1 = initial_bos frame"
    using s(3,4) i(1) by (simp_all add: s1 pthread_initialize_def pthread_statics_def pthread_initial_thread_def Let_def)
  ultimately show ?thesis
    using e f m(2) i(2) seg_part_cong [OF f(1)] THREAD_SEG_not_NULL [OF z] by (simp add: tstart_def)
qed

inductive treach :: "kern \<Rightarrow> tsys \<Rightarrow> bool" for K where
  start: "tstart K x \<Longrightarrow> treach K x"
| step: "treach K x \<Longrightarrow> tstep K x y \<Longrightarrow> treach K y"

text \<open>Processes have different numbers, and \<open>clone\<close> returns the number of the new process or \<open>-1\<close>.\<close>

definition pids_ok :: "kern \<Rightarrow> bool" where
  "pids_ok K \<longleftrightarrow> inj (getpid_env K) \<and> (\<forall>t. getpid_env K t \<noteq> - 1) \<and>
     (\<forall>t s. clone_env K t s = getpid_env K t \<or> clone_env K t s = - 1)"

section \<open>The invariant\<close>

text \<open>
  Who has a right to a thread: nobody (there is no such thread, or it is the main thread), the program, a thread that waits for
  it or has its value in a join, a request to free it in the pipe, or the manager, which frees it when its process ends.
\<close>

datatype claim = CNone | COpen | CJoin pthread_t | CGot pthread_t | CReq | CDet

fun waits :: "tpc \<Rightarrow> pthread_t option" where
  "waits (TJoin th) = Some th"
| "waits (TJoined th) = Some th"
| "waits _ = None"

fun got :: "tpc \<Rightarrow> pthread_t option" where
  "got (TGot th v) = Some th"
| "got _ = None"

definition joins :: "tpc \<Rightarrow> pthread_t \<Rightarrow> bool" where
  "joins k th \<longleftrightarrow> waits k = Some th \<or> got k = Some th"

definition alive :: "tpc \<Rightarrow> bool" where
  "alive k \<longleftrightarrow> k \<noteq> TNone \<and> k \<noteq> TReaped"

fun over :: "tpc \<Rightarrow> bool" where
  "over (TWake u) = True"
| "over TZombie = True"
| "over TReaped = True"
| "over _ = False"

fun joiner :: "claim \<Rightarrow> pthread_t" where
  "joiner (CJoin t) = t"
| "joiner _ = NULL"

fun still_open :: "claim \<Rightarrow> bool" where
  "still_open COpen = True"
| "still_open (CJoin t) = True"
| "still_open _ = False"

definition desc_ok :: "kern \<Rightarrow> tpc \<Rightarrow> claim \<Rightarrow> addr \<Rightarrow> pthread_t \<Rightarrow> pthread_descr \<Rightarrow> bool" where
  "desc_ok K k c v t d \<longleftrightarrow> p_spinlock d = 0 \<and> \<not> p_signal_jmp d \<and> p_pid d = getpid_env K t \<and> (p_terminated d \<longleftrightarrow> over k) \<and>
     (c = CDet \<longrightarrow> p_detached d \<noteq> 0) \<and> (p_detached d \<noteq> 0 \<longrightarrow> c = CDet \<or> c = CReq \<and> p_exited d) \<and>
     (\<not> over k \<or> still_open c \<longrightarrow> p_joining d = joiner c) \<and> (over k \<longrightarrow> p_retval d = v)"

lemma desc_ok_cong:
  assumes "links_off d' = links_off d" and "over k' = over k"
  shows "desc_ok K k' c v t d' = desc_ok K k c v t d"
  using assms(2) by (simp add: desc_ok_def links_off_fields [OF assms(1)])

text \<open>The control points, the pending signals and the claims.\<close>

definition claims_ok :: "(pthread_t \<Rightarrow> tpc) \<Rightarrow> pthread_t set \<Rightarrow> (pthread_t \<Rightarrow> claim) \<Rightarrow> bool" where
  "claims_ok ctl op cl \<longleftrightarrow> (\<forall>t th. waits (ctl t) = Some th \<longleftrightarrow> cl th = CJoin t) \<and>
     (\<forall>t th. got (ctl t) = Some th \<longleftrightarrow> cl th = CGot t) \<and> (\<forall>th. th \<in> op \<longleftrightarrow> still_open (cl th)) \<and>
     (\<forall>t. cl t \<noteq> CJoin t \<and> cl t \<noteq> CGot t)"

definition over_ok :: "(pthread_t \<Rightarrow> tpc) \<Rightarrow> (pthread_t \<Rightarrow> claim) \<Rightarrow> (pthread_t \<Rightarrow> addr) \<Rightarrow> bool" where
  "over_ok ctl cl val \<longleftrightarrow> (\<forall>th. cl th = CReq \<longrightarrow> over (ctl th)) \<and> (\<forall>th. cl th = CDet \<longrightarrow> ctl th \<noteq> TReaped) \<and>
     (\<forall>t th. ctl t = TJoined th \<longrightarrow> over (ctl th)) \<and> (\<forall>t th v. ctl t = TGot th v \<longrightarrow> over (ctl th) \<and> v = val th)"

definition wake_ok :: "(pthread_t \<Rightarrow> tpc) \<Rightarrow> (pthread_t \<Rightarrow> bool) \<Rightarrow> bool" where
  "wake_ok ctl sig \<longleftrightarrow> (\<forall>t. sig t \<longrightarrow> ctl t = TCreate \<or> (\<exists>th. ctl t = TJoin th \<and> over (ctl th))) \<and>
     (\<forall>t th. ctl t = TJoin th \<longrightarrow> over (ctl th) \<longrightarrow> ctl th = TWake t \<or> sig t) \<and>
     (\<forall>t th. ctl th = TWake t \<longrightarrow> ctl t = TJoin th \<and> \<not> sig t)"

definition main_ok :: "pthread_t \<Rightarrow> (pthread_t \<Rightarrow> tpc) \<Rightarrow> (pthread_t \<Rightarrow> claim) \<Rightarrow> bool" where
  "main_ok M ctl cl \<longleftrightarrow> (\<forall>th. cl th = CNone \<longleftrightarrow> ctl th = TNone \<or> th = M) \<and> alive (ctl M) \<and> \<not> over (ctl M) \<and> ctl NULL = TNone"

definition ctl_ok :: "pthread_t \<Rightarrow> (pthread_t \<Rightarrow> tpc) \<Rightarrow> (pthread_t \<Rightarrow> bool) \<Rightarrow> pthread_t set \<Rightarrow> (pthread_t \<Rightarrow> claim) \<Rightarrow>
    (pthread_t \<Rightarrow> addr) \<Rightarrow> bool" where
  "ctl_ok M ctl sig op cl val \<longleftrightarrow> claims_ok ctl op cl \<and> over_ok ctl cl val \<and> wake_ok ctl sig \<and> main_ok M ctl cl"

text \<open>The pipe: one request to free for each claim of this kind, one request to create for each thread that waits for it.\<close>

definition frees :: "pthread_t \<Rightarrow> pthread_request \<Rightarrow> bool" where
  "frees th r \<longleftrightarrow> req_kind r = REQ_FREE th"

fun is_create :: "req_kind \<Rightarrow> bool" where
  "is_create (REQ_CREATE _ _ _ _) = True"
| "is_create _ = False"

fun is_free :: "req_kind \<Rightarrow> bool" where
  "is_free (REQ_FREE _) = True"
| "is_free _ = False"

definition creates :: "pthread_t \<Rightarrow> pthread_request \<Rightarrow> bool" where
  "creates t r \<longleftrightarrow> is_create (req_kind r) \<and> req_thread r = t"

definition pipe_ok :: "pthread_request list \<Rightarrow> (pthread_t \<Rightarrow> tpc) \<Rightarrow> (pthread_t \<Rightarrow> bool) \<Rightarrow> (pthread_t \<Rightarrow> claim) \<Rightarrow> bool" where
  "pipe_ok rq ctl sig cl \<longleftrightarrow> (\<forall>r \<in> set rq. is_create (req_kind r) \<or> is_free (req_kind r)) \<and>
     (\<forall>th. length (filter (frees th) rq) = of_bool (cl th = CReq)) \<and>
     (\<forall>t. length (filter (creates t) rq) = of_bool (ctl t = TCreate \<and> \<not> sig t))"

definition base_ok :: "kern \<Rightarrow> st \<Rightarrow> pthread_t list \<Rightarrow> pthread_t list \<Rightarrow> bool" where
  "base_ok K s ths zs \<longleftrightarrow> mgr_wf K s ths zs \<and> \<not> main_thread_exiting s \<and> manager_request s \<ge> 0 \<and>
     (\<forall>seg < 2048. THREAD_SEG K (initial_thread_bos s) seg \<noteq> NULL)"

definition tinv :: "kern \<Rightarrow> tsys \<Rightarrow> pthread_t list \<Rightarrow> pthread_t list \<Rightarrow> (pthread_t \<Rightarrow> claim) \<Rightarrow> bool" where
  "tinv K x ths zs cl \<longleftrightarrow> base_ok K (t_st x) ths zs \<and>
     (\<forall>t. alive (t_ctl x t) \<longleftrightarrow> t = main_thread (t_st x) \<or> t \<in> set ths) \<and> (\<forall>t. t_ctl x t = TReaped \<longleftrightarrow> t \<in> set zs) \<and>
     (\<forall>t \<in> set ths \<union> set zs. desc_ok K (t_ctl x t) (cl t) (t_val x t) t (descr (t_st x) t)) \<and>
     \<not> p_signal_jmp (descr (t_st x) (main_thread (t_st x))) \<and>
     ctl_ok (main_thread (t_st x)) (t_ctl x) (t_sig x) (t_open x) cl (t_val x) \<and>
     pipe_ok (reqs (t_st x)) (t_ctl x) (t_sig x) cl"

lemma ctl_okD:
  assumes "ctl_ok M ctl sig op cl val"
  shows "waits (ctl t) = Some th \<longleftrightarrow> cl th = CJoin t" and "th \<in> op \<longleftrightarrow> still_open (cl th)"
    and "cl t \<noteq> CJoin t" and "cl th = CReq \<Longrightarrow> over (ctl th)" and "cl th = CDet \<Longrightarrow> ctl th \<noteq> TReaped"
    and "ctl t = TJoined th \<Longrightarrow> over (ctl th)" and "ctl t = TGot th v \<Longrightarrow> over (ctl th) \<and> v = val th"
    and "sig t \<Longrightarrow> ctl t = TCreate \<or> (\<exists>th. ctl t = TJoin th \<and> over (ctl th))"
    and "ctl t = TJoin th \<Longrightarrow> over (ctl th) \<Longrightarrow> ctl th = TWake t \<or> sig t"
    and "ctl th = TWake t \<Longrightarrow> ctl t = TJoin th \<and> \<not> sig t"
    and "cl th = CNone \<longleftrightarrow> ctl th = TNone \<or> th = M" and "alive (ctl M)" and "\<not> over (ctl M)" and "ctl NULL = TNone"
    and "got (ctl t) = Some th \<longleftrightarrow> cl th = CGot t"
  using assms unfolding ctl_ok_def claims_ok_def over_ok_def wake_ok_def main_ok_def by blast+

lemma tinvD:
  assumes "tinv K x ths zs cl"
  shows "base_ok K (t_st x) ths zs" and "alive (t_ctl x t) \<longleftrightarrow> t = main_thread (t_st x) \<or> t \<in> set ths"
    and "t_ctl x t = TReaped \<longleftrightarrow> t \<in> set zs"
    and "t \<in> set ths \<union> set zs \<Longrightarrow> desc_ok K (t_ctl x t) (cl t) (t_val x t) t (descr (t_st x) t)"
    and "\<not> p_signal_jmp (descr (t_st x) (main_thread (t_st x)))"
    and "ctl_ok (main_thread (t_st x)) (t_ctl x) (t_sig x) (t_open x) cl (t_val x)"
    and "pipe_ok (reqs (t_st x)) (t_ctl x) (t_sig x) cl"
  using assms by (auto simp: tinv_def)

lemma tinv_start: "tstart K x \<Longrightarrow> tinv K x [] [] (\<lambda>_. CNone)"
  by (auto simp: tstart_def tinv_def base_ok_def ctl_ok_def claims_ok_def over_ok_def wake_ok_def main_ok_def pipe_ok_def alive_def)

section \<open>The moves on the control points\<close>

lemma ctl_okI: "claims_ok ctl op cl \<Longrightarrow> over_ok ctl cl val \<Longrightarrow> wake_ok ctl sig \<Longrightarrow> main_ok M ctl cl \<Longrightarrow> ctl_ok M ctl sig op cl val"
  by (simp add: ctl_ok_def)

lemma ctl_okP:
  assumes "ctl_ok M ctl sig op cl val"
  shows "claims_ok ctl op cl" and "over_ok ctl cl val" and "wake_ok ctl sig" and "main_ok M ctl cl"
  using assms by (simp_all add: ctl_ok_def)

lemma claims_okD:
  assumes "claims_ok ctl op cl"
  shows "waits (ctl t) = Some th \<longleftrightarrow> cl th = CJoin t" and "got (ctl t) = Some th \<longleftrightarrow> cl th = CGot t"
    and "th \<in> op \<longleftrightarrow> still_open (cl th)" and "cl t \<noteq> CJoin t" and "cl t \<noteq> CGot t"
  using assms unfolding claims_ok_def by blast+

lemma claims_same:
  assumes "claims_ok ctl op cl" and "waits k = waits (ctl t)" and "got k = got (ctl t)"
  shows "claims_ok (ctl(t := k)) op cl"
proof -
  have "waits ((ctl(t := k)) u) = waits (ctl u)" "got ((ctl(t := k)) u) = got (ctl u)" for u using assms(2,3) by simp_all
  with assms(1) show ?thesis unfolding claims_ok_def by simp
qed

text \<open>A thread \<open>t\<close> takes, changes or gives up its claim on \<open>th\<close>.\<close>

lemma claims_shift:
  assumes C: "claims_ok ctl op cl" and b: "cl th \<in> {COpen, CJoin t, CGot t}" "\<And>u. joins (ctl t) u \<Longrightarrow> u = th"
    and a: "\<And>u. waits k = Some u \<longleftrightarrow> u = th \<and> c = CJoin t" "\<And>u. got k = Some u \<longleftrightarrow> u = th \<and> c = CGot t"
      "\<And>w. c = CJoin w \<or> c = CGot w \<Longrightarrow> w = t \<and> th \<noteq> t"
  shows "claims_ok (ctl(t := k)) (if still_open c then insert th op else op - {th}) (cl(th := c))"
proof -
  note D = claims_okD [OF C]
  have w: "waits ((ctl(t := k)) v) = Some u \<longleftrightarrow> (cl(th := c)) u = CJoin v" for u v
  proof (cases "v = t")
    case True
    have "cl u \<noteq> CJoin t" if "u \<noteq> th" using that D(1) [of t u] b(2) [of u] by (auto simp: joins_def)
    then show ?thesis using True a(1) [of u] by auto
  next
    case False
    then have "cl th \<noteq> CJoin v" "c \<noteq> CJoin v" using b(1) a(3) [of v] by auto
    then show ?thesis using False D(1) [of v u] by simp
  qed
  have g: "got ((ctl(t := k)) v) = Some u \<longleftrightarrow> (cl(th := c)) u = CGot v" for u v
  proof (cases "v = t")
    case True
    have "cl u \<noteq> CGot t" if "u \<noteq> th" using that D(2) [of t u] b(2) [of u] by (auto simp: joins_def)
    then show ?thesis using True a(2) [of u] by auto
  next
    case False
    then have "cl th \<noteq> CGot v" "c \<noteq> CGot v" using b(1) a(3) [of v] by auto
    then show ?thesis using False D(2) [of v u] by simp
  qed
  have "(cl(th := c)) v \<noteq> CJoin v \<and> (cl(th := c)) v \<noteq> CGot v" for v using D(4,5) [of v] a(3) [of v] by auto
  then show ?thesis unfolding claims_ok_def using w g D(3) by auto
qed

lemma claims_set:
  assumes "claims_ok ctl op cl" and "\<And>u. cl th \<noteq> CJoin u" "\<And>u. cl th \<noteq> CGot u" and "\<And>u. c \<noteq> CJoin u" "\<And>u. c \<noteq> CGot u"
    and "waits k = waits (ctl th)" "got k = got (ctl th)"
  shows "claims_ok (ctl(th := k)) (if c = COpen then insert th op else op - {th}) (cl(th := c))"
  using claims_same [OF assms(1,6,7)] assms(2-5) unfolding claims_ok_def by (cases c) auto

lemma over_same:
  assumes "over_ok ctl cl val" and "over k = over (ctl t)" and "\<And>th. k \<noteq> TJoined th" and "\<And>th v. k \<noteq> TGot th v"
    and "cl t = CDet \<Longrightarrow> k \<noteq> TReaped"
  shows "over_ok (ctl(t := k)) cl val"
proof -
  have "over ((ctl(t := k)) u) = over (ctl u)" for u using assms(2) by simp
  then show ?thesis using assms(1,3-5) unfolding over_ok_def by (auto split: if_splits)
qed

lemma wake_okD:
  assumes "wake_ok ctl sig"
  shows "sig t \<Longrightarrow> ctl t = TCreate \<or> (\<exists>th. ctl t = TJoin th \<and> over (ctl th))"
    and "ctl t = TJoin th \<Longrightarrow> over (ctl th) \<Longrightarrow> ctl th = TWake t \<or> sig t"
    and "ctl th = TWake t \<Longrightarrow> ctl t = TJoin th \<and> \<not> sig t"
  using assms unfolding wake_ok_def by blast+

lemma wake_okI:
  assumes "\<And>t. sig t \<Longrightarrow> ctl t = TCreate \<or> (\<exists>th. ctl t = TJoin th \<and> over (ctl th))"
    and "\<And>t th. ctl t = TJoin th \<Longrightarrow> over (ctl th) \<Longrightarrow> ctl th = TWake t \<or> sig t"
    and "\<And>t th. ctl th = TWake t \<Longrightarrow> ctl t = TJoin th \<and> \<not> sig t"
  shows "wake_ok ctl sig"
  using assms unfolding wake_ok_def by blast

text \<open>A thread that neither joins nor wakes another one, before and after its move.\<close>

lemma wake_same:
  assumes W: "wake_ok ctl sig" and o: "over k = over (ctl t)" and n: "\<And>th. ctl t \<noteq> TJoin th" "\<And>th. k \<noteq> TJoin th"
      "\<And>u. ctl t \<noteq> TWake u" "\<And>u. k \<noteq> TWake u"
    and s: "\<And>u. u \<noteq> t \<Longrightarrow> sig' u = sig u" "sig' t \<Longrightarrow> k = TCreate"
  shows "wake_ok (ctl(t := k)) sig'"
proof (rule wake_okI)
  note D = wake_okD [OF W]
  have o': "over ((ctl(t := k)) u) = over (ctl u)" for u using o by simp
  show "(ctl(t := k)) u = TCreate \<or> (\<exists>th. (ctl(t := k)) u = TJoin th \<and> over ((ctl(t := k)) th))" if "sig' u" for u
    using that D(1) [of u] s unfolding o' by (cases "u = t") auto
  show "(ctl(t := k)) th = TWake u \<or> sig' u" if "(ctl(t := k)) u = TJoin th" "over ((ctl(t := k)) th)" for u th
    using that D(2) [of u th] s(1) [of u] n unfolding o' by (auto split: if_splits)
  show "(ctl(t := k)) u = TJoin th \<and> \<not> sig' u" if "(ctl(t := k)) th = TWake u" for u th
    using that D(3) [of th u] s(1) [of u] n by (auto split: if_splits)
qed

lemma ctl_move:
  assumes "ctl_ok M ctl sig op cl val" and "ctl t \<in> {TNew, TRun}" and "k \<in> {TRun, TCreate}"
  shows "ctl_ok M (ctl(t := k)) sig op cl val"
proof (rule ctl_okI)
  note D = ctl_okP [OF assms(1)]
  show "claims_ok (ctl(t := k)) op cl" by (rule claims_same [OF D(1)]) (use assms(2,3) in auto)
  show "over_ok (ctl(t := k)) cl val" by (rule over_same [OF D(2)]) (use assms(2,3) in auto)
  show "wake_ok (ctl(t := k)) sig"
    by (rule wake_same [OF D(3)]) (use assms(2,3) wake_okD(1) [OF D(3), of t] in auto)
  show "main_ok M (ctl(t := k)) cl" using assms(2,3) D(4) unfolding main_ok_def by (auto simp: alive_def)
qed

lemma ctl_create_return:
  assumes "ctl_ok M ctl sig op cl val" and "ctl t = TCreate"
  shows "ctl_ok M (ctl(t := TRun)) (sig(t := False)) op cl val"
proof (rule ctl_okI)
  note D = ctl_okP [OF assms(1)]
  show "claims_ok (ctl(t := TRun)) op cl" by (rule claims_same [OF D(1)]) (use assms(2) in auto)
  show "over_ok (ctl(t := TRun)) cl val" by (rule over_same [OF D(2)]) (use assms(2) in auto)
  show "wake_ok (ctl(t := TRun)) (sig(t := False))" by (rule wake_same [OF D(3)]) (use assms(2) in auto)
  show "main_ok M (ctl(t := TRun)) cl" using assms(2) D(4) unfolding main_ok_def by (auto simp: alive_def)
qed

lemma ctl_exit:
  assumes C: "ctl_ok M ctl sig op cl val" and t: "ctl t = TRun" "t \<noteq> M" and u: "u = joiner (cl t)"
    and k: "k = (if u \<noteq> NULL then TWake u else TZombie)"
  shows "ctl_ok M (ctl(t := k)) sig op cl (val(t := v))"
proof (rule ctl_okI)
  note D = ctl_okP [OF C] and E = ctl_okD [OF C]
  have ov: "over k" "waits k = None" "got k = None" "k \<noteq> TReaped" "k \<noteq> TNone" "k \<noteq> TCreate" by (simp_all add: k)
  have j: "ctl w = TJoin t \<and> \<not> sig w \<and> u = w \<and> u \<noteq> NULL" if "cl t = CJoin w" for w
  proof -
    have "waits (ctl w) = Some t" using E(1) that by simp
    then have w: "ctl w = TJoin t" using E(6) [of w t] t(1) by (cases "ctl w") auto
    moreover have "\<not> sig w" using E(8) [of w] w t(1) by auto
    moreover have "w \<noteq> NULL" using E(14) w by auto
    ultimately show ?thesis using that u by simp
  qed
  have nw: "ctl w \<noteq> TWake t" for w using E(10) [of w t] t(1) by auto
  show "claims_ok (ctl(t := k)) op cl" by (rule claims_same [OF D(1)]) (use t ov in auto)
  show "over_ok (ctl(t := k)) cl (val(t := v))" using t D(2) ov unfolding over_ok_def by force
  show "main_ok M (ctl(t := k)) cl" using t D(4) ov unfolding main_ok_def by (auto simp: alive_def)
  show "wake_ok (ctl(t := k)) sig"
  proof (rule wake_okI)
    show "(ctl(t := k)) w = TCreate \<or> (\<exists>th. (ctl(t := k)) w = TJoin th \<and> over ((ctl(t := k)) th))" if "sig w" for w
      using that E(8) [of w] t(1) ov by auto
    show "(ctl(t := k)) th = TWake w \<or> sig w" if "(ctl(t := k)) w = TJoin th" "over ((ctl(t := k)) th)" for w th
      using that E(9) [of w th] E(1) [of w th] j [of w] k ov by (auto split: if_splits)
    show "(ctl(t := k)) w = TJoin th \<and> \<not> sig w" if "(ctl(t := k)) th = TWake w" for w th
      using that E(10) [of th w] j k nw [of th] t(1) u by (cases "cl t") (auto split: if_splits)
  qed
qed

text \<open>A thread that stays alive, and a claim that changes its kind.\<close>

lemma main_same:
  assumes "main_ok M ctl cl" and "ctl t \<noteq> TNone" and "k \<noteq> TNone" and "t = M \<Longrightarrow> alive k \<and> \<not> over k"
    and "cl th \<noteq> CNone" and "c \<noteq> CNone"
  shows "main_ok M (ctl(t := k)) (cl(th := c))"
proof -
  have "(ctl(t := k)) u = TNone \<longleftrightarrow> ctl u = TNone" "(cl(th := c)) u = CNone \<longleftrightarrow> cl u = CNone" for u
    using assms(2,3,5,6) by auto
  moreover have "t \<noteq> NULL" using assms(1,2) unfolding main_ok_def by auto
  ultimately show ?thesis using assms(1,4) unfolding main_ok_def by (simp add: alive_def)
qed

lemma ctl_exit_restart:
  assumes C: "ctl_ok M ctl sig op cl val" and t: "ctl t = TWake u"
  shows "ctl_ok M (ctl(t := TZombie)) (sig(u := True)) op cl val"
proof (rule ctl_okI)
  note D = ctl_okP [OF C] and E = ctl_okD [OF C]
  have u: "ctl u = TJoin t" "\<not> sig u" "u \<noteq> t" using E(10) [OF t] t by auto
  have w1: "w = u" if "ctl w = TJoin t" for w using that E(1) [of w t] E(1) [of u t] u by simp
  have o': "over ((ctl(t := TZombie)) w) = over (ctl w)" for w using t by simp
  show "claims_ok (ctl(t := TZombie)) op cl" by (rule claims_same [OF D(1)]) (simp_all add: t)
  show "over_ok (ctl(t := TZombie)) cl val" by (rule over_same [OF D(2)]) (simp_all add: t)
  show "main_ok M (ctl(t := TZombie)) cl" using t D(4) unfolding main_ok_def by (auto simp: alive_def)
  show "wake_ok (ctl(t := TZombie)) (sig(u := True))"
  proof (rule wake_okI)
    show "(ctl(t := TZombie)) w = TCreate \<or> (\<exists>th. (ctl(t := TZombie)) w = TJoin th \<and> over ((ctl(t := TZombie)) th))"
      if "(sig(u := True)) w" for w unfolding o' using that E(8) [of w] u t by (auto split: if_splits)
    show "(ctl(t := TZombie)) th = TWake w \<or> (sig(u := True)) w"
      if "(ctl(t := TZombie)) w = TJoin th" "over ((ctl(t := TZombie)) th)" for w th
      using that E(9) [of w th] w1 [of w] unfolding o' by (auto split: if_splits)
    show "(ctl(t := TZombie)) w = TJoin th \<and> \<not> (sig(u := True)) w" if "(ctl(t := TZombie)) th = TWake w" for w th
      using that E(10) [of th w] u t by (auto split: if_splits)
  qed
qed

lemma ctl_join_sleep:
  assumes C: "ctl_ok M ctl sig op cl val" and t: "ctl t = TRun" and c: "cl th = COpen" and th: "th \<noteq> t" "\<not> over (ctl th)"
  shows "ctl_ok M (ctl(t := TJoin th)) sig op (cl(th := CJoin t)) val"
proof (rule ctl_okI)
  note D = ctl_okP [OF C] and E = ctl_okD [OF C]
  have o': "over ((ctl(t := TJoin th)) w) = over (ctl w)" for w using t by simp
  have ns: "\<not> sig t" using E(8) [of t] t by auto
  have "claims_ok (ctl(t := TJoin th)) (if still_open (CJoin t) then insert th op else op - {th}) (cl(th := CJoin t))"
    by (rule claims_shift [OF D(1)]) (use t th(1) c in \<open>auto simp: joins_def\<close>)
  moreover have "insert th op = op" using E(2) [of th] c by auto
  ultimately show "claims_ok (ctl(t := TJoin th)) op (cl(th := CJoin t))" by simp
  show "over_ok (ctl(t := TJoin th)) (cl(th := CJoin t)) val"
    using D(2) c t unfolding over_ok_def o' by (auto split: if_splits)
  show "main_ok M (ctl(t := TJoin th)) (cl(th := CJoin t))" by (rule main_same [OF D(4)]) (use t c in \<open>auto simp: alive_def\<close>)
  show "wake_ok (ctl(t := TJoin th)) sig"
  proof (rule wake_okI)
    show "(ctl(t := TJoin th)) w = TCreate \<or> (\<exists>v. (ctl(t := TJoin th)) w = TJoin v \<and> over ((ctl(t := TJoin th)) v))"
      if "sig w" for w unfolding o' using that E(8) [of w] ns by auto
    show "(ctl(t := TJoin th)) v = TWake w \<or> sig w" if "(ctl(t := TJoin th)) w = TJoin v" "over ((ctl(t := TJoin th)) v)" for w v
      using that E(9) [of w v] th(2) t unfolding o' by (auto split: if_splits)
    show "(ctl(t := TJoin th)) w = TJoin v \<and> \<not> sig w" if "(ctl(t := TJoin th)) v = TWake w" for w v
      using that E(10) [of v w] t by (auto split: if_splits)
  qed
qed

text \<open>A thread gets the value, at once or after it has waited.\<close>

lemma ctl_join_gets:
  assumes C: "ctl_ok M ctl sig op cl val" and t: "ctl t = TRun \<and> cl th = COpen \<or> ctl t = TJoined th" and th: "th \<noteq> t" "over (ctl th)"
  shows "ctl_ok M (ctl(t := TGot th (val th))) sig (op - {th}) (cl(th := CGot t)) val"
proof (rule ctl_okI)
  let ?k = "TGot th (val th)"
  note D = ctl_okP [OF C] and E = ctl_okD [OF C]
  have o': "over ((ctl(t := ?k)) w) = over (ctl w)" for w using t by auto
  have c: "cl th \<in> {COpen, CJoin t}" using E(1) [of t th] t by auto
  have ns: "\<not> sig t" using E(8) [of t] t by auto
  have "claims_ok (ctl(t := ?k)) (if still_open (CGot t) then insert th op else op - {th}) (cl(th := CGot t))"
    by (rule claims_shift [OF D(1)]) (use t th c in \<open>auto simp: joins_def\<close>)
  then show "claims_ok (ctl(t := ?k)) (op - {th}) (cl(th := CGot t))" by simp
  show "over_ok (ctl(t := ?k)) (cl(th := CGot t)) val"
    using D(2) c t th(2) unfolding over_ok_def o' by (auto split: if_splits)
  show "main_ok M (ctl(t := ?k)) (cl(th := CGot t))" by (rule main_same [OF D(4)]) (use t c in \<open>auto simp: alive_def\<close>)
  show "wake_ok (ctl(t := ?k)) sig" by (rule wake_same [OF D(3)]) (use t ns in auto)
qed

lemma ctl_join_woken:
  assumes C: "ctl_ok M ctl sig op cl val" and t: "ctl t = TJoin th" "sig t"
  shows "ctl_ok M (ctl(t := TJoined th)) (sig(t := False)) op cl val"
proof (rule ctl_okI)
  note D = ctl_okP [OF C] and E = ctl_okD [OF C]
  have o': "over ((ctl(t := TJoined th)) w) = over (ctl w)" for w using t by simp
  have o: "over (ctl th)" using E(8) [OF t(2)] t(1) by auto
  have nw: "ctl w \<noteq> TWake t" for w using E(10) [of w t] t(2) by auto
  show "claims_ok (ctl(t := TJoined th)) op cl" by (rule claims_same [OF D(1)]) (simp_all add: t)
  show "over_ok (ctl(t := TJoined th)) cl val" using D(2) o t unfolding over_ok_def o' by (auto split: if_splits)
  show "main_ok M (ctl(t := TJoined th)) cl" using t D(4) unfolding main_ok_def by (auto simp: alive_def)
  show "wake_ok (ctl(t := TJoined th)) (sig(t := False))"
  proof (rule wake_okI)
    show "(ctl(t := TJoined th)) w = TCreate \<or> (\<exists>v. (ctl(t := TJoined th)) w = TJoin v \<and> over ((ctl(t := TJoined th)) v))"
      if "(sig(t := False)) w" for w unfolding o' using that E(8) [of w] by (auto split: if_splits)
    show "(ctl(t := TJoined th)) v = TWake w \<or> (sig(t := False)) w"
      if "(ctl(t := TJoined th)) w = TJoin v" "over ((ctl(t := TJoined th)) v)" for w v
      using that E(9) [of w v] t unfolding o' by (auto split: if_splits)
    show "(ctl(t := TJoined th)) w = TJoin v \<and> \<not> (sig(t := False)) w" if "(ctl(t := TJoined th)) v = TWake w" for w v
      using that E(10) [of v w] nw [of v] by (auto split: if_splits)
  qed
qed

lemma ctl_join_return:
  assumes C: "ctl_ok M ctl sig op cl val" and t: "ctl t = TGot th v"
  shows "ctl_ok M (ctl(t := TRun)) sig op (cl(th := CReq)) val"
proof (rule ctl_okI)
  note D = ctl_okP [OF C] and E = ctl_okD [OF C]
  have o': "over ((ctl(t := TRun)) w) = over (ctl w)" for w using t by simp
  have ns: "\<not> sig t" using E(8) [of t] t by auto
  have c: "cl th = CGot t" using E(15) [of t th] t by simp
  have "claims_ok (ctl(t := TRun)) (if still_open CReq then insert th op else op - {th}) (cl(th := CReq))"
    by (rule claims_shift [OF D(1)]) (use t c in \<open>auto simp: joins_def\<close>)
  moreover have "op - {th} = op" using E(2) [of th] c by auto
  ultimately show "claims_ok (ctl(t := TRun)) op (cl(th := CReq))" by simp
  show "over_ok (ctl(t := TRun)) (cl(th := CReq)) val"
    using D(2) E(7) [OF t] t unfolding over_ok_def o' by (auto split: if_splits)
  show "main_ok M (ctl(t := TRun)) (cl(th := CReq))" by (rule main_same [OF D(4)]) (use t c in \<open>auto simp: alive_def\<close>)
  show "wake_ok (ctl(t := TRun)) sig" by (rule wake_same [OF D(3)]) (use t ns in auto)
qed

text \<open>Detached: the manager frees the thread when its process ends, or, if that has happened, on request.\<close>

lemma ctl_detach:
  assumes C: "ctl_ok M ctl sig op cl val" and c: "cl th = COpen" and k: "q = CDet \<and> \<not> over (ctl th) \<or> q = CReq \<and> ctl th = TReaped"
  shows "ctl_ok M ctl sig (op - {th}) (cl(th := q)) val"
proof (rule ctl_okI)
  note D = ctl_okP [OF C] and E = ctl_okD [OF C]
  show "claims_ok ctl (op - {th}) (cl(th := q))" using claims_set [OF D(1), of th q "ctl th"] c k by auto
  show "over_ok ctl (cl(th := q)) val" using D(2) k unfolding over_ok_def by auto
  have "ctl th \<noteq> TNone" "th \<noteq> M" using E(11) [of th] c by auto
  then show "main_ok M ctl (cl(th := q))" using D(4) k unfolding main_ok_def by auto
qed (rule ctl_okP [OF C])

text \<open>Requests to free: the thread has been reaped and goes away, or the manager will free it.\<close>

lemma ctl_served_running:
  assumes C: "ctl_ok M ctl sig op cl val" and th: "cl th = CReq" "ctl th \<noteq> TReaped"
  shows "ctl_ok M ctl sig op (cl(th := CDet)) val"
proof (rule ctl_okI)
  note D = ctl_okP [OF C] and E = ctl_okD [OF C]
  have "th \<notin> op" using E(2) th(1) by simp
  then show "claims_ok ctl op (cl(th := CDet))" using claims_set [OF D(1), of th CDet "ctl th"] th(1) by simp
  show "over_ok ctl (cl(th := CDet)) val" using D(2) th(2) unfolding over_ok_def by auto
  have "ctl th \<noteq> TNone" "th \<noteq> M" using E(11) [of th] th(1) by auto
  then show "main_ok M ctl (cl(th := CDet))" using D(4) unfolding main_ok_def by auto
qed (rule ctl_okP [OF C])

lemma ctl_gone:
  assumes C: "ctl_ok M ctl sig op cl val" and th: "cl th = CReq \<or> cl th = CDet" "ctl th = TReaped \<or> ctl th = TZombie"
  shows "ctl_ok M (ctl(th := TNone)) sig op (cl(th := CNone)) val"
proof (rule ctl_okI)
  note D = ctl_okP [OF C] and E = ctl_okD [OF C]
  have n: "th \<notin> op" "th \<noteq> M" using E(2) [of th] E(13) th by auto
  have j: "waits (ctl w) \<noteq> Some th" "got (ctl w) \<noteq> Some th" for w using E(1,15) [of w th] th(1) by auto
  then have j': "ctl w \<noteq> TJoin th" "ctl w \<noteq> TJoined th" "ctl w \<noteq> TGot th v" for w v
    by (metis waits.simps(1,2) got.simps(1))+
  have "ctl th \<noteq> TWake w" for w using th(2) by auto
  then have s: "\<not> sig th" using E(8) [of th] th(2) by auto
  show "claims_ok (ctl(th := TNone)) op (cl(th := CNone))" using claims_set [OF D(1), of th CNone TNone] th n by auto
  show "over_ok (ctl(th := TNone)) (cl(th := CNone)) val" using D(2) j' unfolding over_ok_def by auto
  show "main_ok M (ctl(th := TNone)) (cl(th := CNone))" using D(4) n unfolding main_ok_def by auto
  show "wake_ok (ctl(th := TNone)) sig"
  proof (rule wake_okI)
    show "(ctl(th := TNone)) w = TCreate \<or> (\<exists>v. (ctl(th := TNone)) w = TJoin v \<and> over ((ctl(th := TNone)) v))" if "sig w" for w
      using that s E(8) [of w] j'(1) by fastforce
    show "(ctl(th := TNone)) v = TWake w \<or> sig w" if "(ctl(th := TNone)) w = TJoin v" "over ((ctl(th := TNone)) v)" for w v
      using that E(9) [of w v] by (auto split: if_splits)
    show "(ctl(th := TNone)) w = TJoin v \<and> \<not> sig w" if "(ctl(th := TNone)) v = TWake w" for w v
      using that E(10) [of v w] th(2) by (auto split: if_splits)
  qed
qed

lemma ctl_reaped:
  assumes C: "ctl_ok M ctl sig op cl val" and t: "ctl t = TZombie" "cl t \<noteq> CDet"
  shows "ctl_ok M (ctl(t := TReaped)) sig op cl val"
proof (rule ctl_okI)
  note D = ctl_okP [OF C] and E = ctl_okD [OF C]
  have ns: "\<not> sig t" using E(8) [of t] t(1) by auto
  show "claims_ok (ctl(t := TReaped)) op cl" by (rule claims_same [OF D(1)]) (simp_all add: t)
  show "over_ok (ctl(t := TReaped)) cl val" by (rule over_same [OF D(2)]) (simp_all add: t)
  show "main_ok M (ctl(t := TReaped)) cl" using t D(4) E(13) unfolding main_ok_def by auto
  show "wake_ok (ctl(t := TReaped)) sig" by (rule wake_same [OF D(3)]) (use t ns in auto)
qed

lemma ctl_signal_creator:
  assumes C: "ctl_ok M ctl sig op cl val" and t: "ctl t = TCreate"
  shows "ctl_ok M ctl (sig(t := True)) op cl val"
proof (rule ctl_okI)
  have "wake_ok (ctl(t := TCreate)) (sig(t := True))" by (rule wake_same [OF ctl_okP(3) [OF C]]) (simp_all add: t)
  moreover have "ctl(t := TCreate) = ctl" using t by auto
  ultimately show "wake_ok ctl (sig(t := True))" by simp
qed (rule ctl_okP [OF C])+

lemma ctl_new:
  assumes C: "ctl_ok M ctl sig op cl val" and n: "ctl n = TNone" "n \<noteq> NULL" and c: "c = COpen \<or> c = CDet"
  shows "ctl_ok M (ctl(n := TNew)) sig (if c = COpen then insert n op else op) (cl(n := c)) val"
proof (rule ctl_okI)
  note D = ctl_okP [OF C] and E = ctl_okD [OF C]
  have cn: "cl n = CNone" "n \<notin> op" "n \<noteq> M" using E(2) [of n] E(11) [of n] E(12) n by (auto simp: alive_def)
  have ns: "\<not> sig n" using E(8) [of n] n(1) by auto
  show "claims_ok (ctl(n := TNew)) (if c = COpen then insert n op else op) (cl(n := c))"
    using claims_set [OF D(1), of n c TNew] cn c n by (auto split: if_splits)
  have "over_ok (ctl(n := TNew)) cl val" by (rule over_same [OF D(2)]) (simp_all add: n)
  then show "over_ok (ctl(n := TNew)) (cl(n := c)) val" using c unfolding over_ok_def by auto
  show "main_ok M (ctl(n := TNew)) (cl(n := c))" using D(4) n c cn unfolding main_ok_def by auto
  show "wake_ok (ctl(n := TNew)) sig" by (rule wake_same [OF D(3)]) (use n ns in auto)
qed

section \<open>The pipe\<close>

lemma pipe_cong:
  assumes "pipe_ok rq ctl sig cl" and "\<And>t. ctl' t = TCreate \<and> \<not> sig' t \<longleftrightarrow> ctl t = TCreate \<and> \<not> sig t"
    and "\<And>th. cl' th = CReq \<longleftrightarrow> cl th = CReq"
  shows "pipe_ok rq ctl' sig' cl'"
  using assms unfolding pipe_ok_def by simp

lemma pipe_send_create:
  assumes "pipe_ok rq ctl sig cl" and "ctl t = TRun" and "\<not> sig t"
  shows "pipe_ok (rq @ [\<lparr>req_thread = t, req_kind = REQ_CREATE attr fn arg msk\<rparr>]) (ctl(t := TCreate)) sig cl"
  using assms unfolding pipe_ok_def by (auto simp: frees_def creates_def)

lemma pipe_send_free:
  assumes "pipe_ok rq ctl sig cl" and "cl th \<noteq> CReq"
  shows "pipe_ok (rq @ [\<lparr>req_thread = t, req_kind = REQ_FREE th\<rparr>]) ctl sig (cl(th := CReq))"
  using assms unfolding pipe_ok_def by (auto simp: frees_def creates_def)

lemma pipe_take_free:
  assumes "pipe_ok (r # rq) ctl sig cl" and "req_kind r = REQ_FREE th" and "c \<noteq> CReq"
  shows "cl th = CReq" and "pipe_ok rq ctl sig (cl(th := c))"
proof -
  note D = assms(1) [unfolded pipe_ok_def]
  have f: "length (filter (frees u) (r # rq)) = of_bool (cl u = CReq)" for u using D by blast
  show "cl th = CReq" using f [of th] assms(2) by (cases "cl th = CReq") (simp_all add: frees_def)
  then have "length (filter (frees u) rq) = of_bool ((cl(th := c)) u = CReq)" for u
    using f [of u] assms(2,3) by (auto simp: frees_def split: if_splits)
  moreover have "length (filter (creates u) rq) = of_bool (ctl u = TCreate \<and> \<not> sig u)" for u
    using D assms(2) by (auto simp: creates_def dest: spec [of _ u])
  ultimately show "pipe_ok rq ctl sig (cl(th := c))" using D unfolding pipe_ok_def by auto
qed

lemma pipe_take_create:
  assumes "pipe_ok (r # rq) ctl sig cl" and "is_create (req_kind r)"
  shows "ctl (req_thread r) = TCreate" and "\<not> sig (req_thread r)" and "pipe_ok rq ctl (sig(req_thread r := True)) cl"
proof -
  note D = assms(1) [unfolded pipe_ok_def]
  have f: "length (filter (creates u) (r # rq)) = of_bool (ctl u = TCreate \<and> \<not> sig u)" for u using D by blast
  have c: "ctl (req_thread r) = TCreate \<and> \<not> sig (req_thread r)"
    using f [of "req_thread r"] assms(2)
    by (cases "ctl (req_thread r) = TCreate \<and> \<not> sig (req_thread r)") (simp_all add: creates_def)
  then show "ctl (req_thread r) = TCreate" "\<not> sig (req_thread r)" by simp_all
  have "length (filter (creates u) rq) = of_bool (ctl u = TCreate \<and> \<not> (sig(req_thread r := True)) u)" for u
    using f [of u] assms(2) c by (auto simp: creates_def split: if_splits)
  moreover have "length (filter (frees u) rq) = of_bool (cl u = CReq)" for u
  proof -
    have "\<not> frees u r" using assms(2) by (auto simp: frees_def)
    then show ?thesis using D by (auto dest: spec [of _ u])
  qed
  ultimately show "pipe_ok rq ctl (sig(req_thread r := True)) cl" using D unfolding pipe_ok_def by auto
qed

end
