(* ===== verification/Thread_Safety.thy ===== *)
theory Thread_Safety
  imports Thread_System
begin

text \<open>
  The steps of \<open>Thread_System\<close> keep its invariant: at every moment the ring and the table of the manager are those of the
  threads there are, and each thread is the business of exactly one party, the program, a thread that joins it, a
  request in the pipe, or the manager. So a thread is freed once, when nobody can refer to it any more, a join obtains
  the value of the exit, and no thread waits in vain.
\<close>

section \<open>Every step keeps the invariant\<close>

definition tframe :: "st \<Rightarrow> st \<Rightarrow> bool" where
  "tframe s s' \<longleftrightarrow> seg_part s' = seg_part s \<and> main_thread_exiting s' = main_thread_exiting s \<and>
     manager_request s' = manager_request s \<and> (\<forall>u. p_nextlive (descr s' u) = p_nextlive (descr s u) \<and>
       p_prevlive (descr s' u) = p_prevlive (descr s u) \<and> p_exited (descr s' u) = p_exited (descr s u))"

lemma base_ok_frame:
  assumes "tframe s s'" and "base_ok K s ths zs"
  shows "base_ok K s' ths zs" and "main_thread s' = main_thread s"
proof -
  have sp: "seg_part s' = seg_part s" using assms(1) by (simp add: tframe_def)
  have "mgr_wf K s' ths zs = mgr_wf K s ths zs" by (rule mgr_wf_cong [OF sp]) (use assms(1) in \<open>simp add: tframe_def\<close>)
  then show "base_ok K s' ths zs" using assms seg_part_cong(6) [OF sp] by (simp add: base_ok_def tframe_def)
  show "main_thread s' = main_thread s" by (rule seg_part_cong(4) [OF sp])
qed

lemma tinv_move:
  assumes I: "tinv K x ths zs cl" and F: "tframe (t_st x) (t_st y)"
    and c: "\<And>u. alive (t_ctl y u) = alive (t_ctl x u)" "\<And>u. t_ctl y u = TReaped \<longleftrightarrow> t_ctl x u = TReaped"
    and d: "\<And>u. u \<in> set ths \<union> set zs \<Longrightarrow> desc_ok K (t_ctl y u) (cl' u) (t_val y u) u (descr (t_st y) u)"
    and j: "p_signal_jmp (descr (t_st y) (main_thread (t_st x))) = p_signal_jmp (descr (t_st x) (main_thread (t_st x)))"
    and C: "ctl_ok (main_thread (t_st x)) (t_ctl y) (t_sig y) (t_open y) cl' (t_val y)"
    and P: "pipe_ok (reqs (t_st y)) (t_ctl y) (t_sig y) cl'"
  shows "tinv K y ths zs cl'"
proof -
  note D = tinvD [OF I]
  note B = base_ok_frame [OF F D(1)]
  show ?thesis unfolding tinv_def B(2) using B(1) c d j C P D(2,3,5) by simp
qed

lemma send_frame: "tframe s (send_request t r s)"
  by (simp add: tframe_def send_request_def)

lemma upd_frame:
  assumes "\<And>d. p_nextlive (f d) = p_nextlive d" and "\<And>d. p_prevlive (f d) = p_prevlive d" and "\<And>d. p_exited (f d) = p_exited d"
  shows "tframe s (upd_th t f s)"
  using assms by (simp add: tframe_def)

lemma deliver_effect:
  assumes "deliver t PTHREAD_SIG_RESTART s = (h, s')"
  shows "tframe s s'" and "reqs s' = reqs s" and "\<exists>z. descr s' u = (descr s u)\<lparr>p_signal := z\<rparr>"
proof -
  consider "s' = s\<lparr>terminated_children := True\<rparr>" | z where "s' = upd_th t (p_signal_update (\<lambda>_. z)) s"
    using assms by (auto simp: deliver_def pthread_sighandler_def pthread_manager_sighandler_def Let_def split: if_splits)
  note c = this
  have id: "\<exists>z. d = d\<lparr>p_signal := z\<rparr>" for d :: pthread_descr by (intro exI [of _ "p_signal d"]) simp
  from c show "tframe s s'" by cases (simp_all add: tframe_def)
  from c show "reqs s' = reqs s" by cases simp_all
  from c show "\<exists>z. descr s' u = (descr s u)\<lparr>p_signal := z\<rparr>" by cases (use id in auto)
qed

lemma desc_ok_signal: "desc_ok K k c v t (d\<lparr>p_signal := z\<rparr>) = desc_ok K k c v t d"
  by (simp add: desc_ok_def)

text \<open>The sections when the spin lock is free.\<close>

lemma locked_section:
  assumes "p_spinlock (descr s t) = 0" and "f ((descr s t)\<lparr>p_spinlock := 1\<rparr>) = (f (descr s t))\<lparr>p_spinlock := 1\<rparr>"
    and "p_spinlock (f (descr s t)) = p_spinlock (descr s t)"
  shows "release_th t (upd_th t f (upd_th t (p_spinlock_update (\<lambda>_. 1)) s)) = upd_th t f s"
proof -
  have "(f (descr s t))\<lparr>p_spinlock := 0\<rparr> = f (descr s t)" by (rule spinlock_idem) (simp add: assms(1,3))
  then show ?thesis using assms(2) unfolding release_th_def upd_th_comp by (simp add: upd_th_def)
qed

lemma exit_section_eq:
  "p_spinlock (descr s t) = 0 \<Longrightarrow> exit_section t v s =
     Some (p_joining (descr s t), upd_th t (\<lambda>d. d\<lparr>p_retval := v, p_terminated := True\<rparr>) s)"
  using locked_section [of s t "\<lambda>d. d\<lparr>p_retval := v, p_terminated := True\<rparr>"] by (simp add: exit_section_def acquire_th_eq)

lemma join_section_eq:
  "p_spinlock (descr s th) = 0 \<Longrightarrow> th \<noteq> t \<Longrightarrow> join_section t th s =
     (if p_detached (descr s th) \<noteq> 0 \<or> p_joining (descr s th) \<noteq> NULL then Some (Join_error EINVAL, s)
      else if \<not> p_terminated (descr s th) then Some (Join_wait, upd_th th (p_joining_update (\<lambda>_. t)) s)
      else Some (Join_value (p_retval (descr s th)), s))"
  using locked_section [of s th "p_joining_update (\<lambda>_. t)"] acquire_release_th [of s th]
  by (simp add: join_section_def acquire_th_eq)

lemma join_read_eq: "p_spinlock (descr s th) = 0 \<Longrightarrow> join_read th s = Some (p_retval (descr s th), s)"
  using acquire_release_th [of s th] by (simp add: join_read_def acquire_th_eq)

lemma detach_eq:
  "p_spinlock (descr s th) = 0 \<Longrightarrow> pthread_detach t th s =
     (if p_detached (descr s th) \<noteq> 0 then Some (EINVAL, s)
      else if p_joining (descr s th) \<noteq> NULL then Some (0, s)
      else let s' = upd_th th (p_detached_update (\<lambda>_. 1)) s
           in Some (0, if p_terminated (descr s th) \<and> manager_request s \<ge> 0 then send_request t (REQ_FREE th) s' else s'))"
  using locked_section [of s th "p_detached_update (\<lambda>_. 1)"] acquire_release_th [of s th]
  by (simp add: pthread_detach_def acquire_th_eq Let_def)

text \<open>A call that is refused changes nothing.\<close>

lemma join_section_refused:
  assumes "join_section t th s = Some (Join_error e, s')"
  shows "s' = s"
proof (cases "th = t \<or> p_spinlock (descr s th) \<noteq> 0")
  case True
  then show ?thesis using assms by (auto simp: join_section_def acquire_th_def split: if_splits)
next
  case False
  then show ?thesis using assms by (auto simp: join_section_eq split: if_splits)
qed

lemma detach_section_refused:
  assumes "pthread_detach t th s = Some (EINVAL, s')"
  shows "s' = s"
proof (cases "p_spinlock (descr s th) = 0")
  case True
  then show ?thesis using assms by (auto simp: detach_eq Let_def split: if_splits)
next
  case False
  then show ?thesis using assms by (auto simp: pthread_detach_def acquire_th_def split: if_splits)
qed

text \<open>The threads there are: where a claim stands, the descriptor is good.\<close>

lemma tinv_desc:
  assumes I: "tinv K x ths zs cl" and c: "cl th \<noteq> CNone"
  shows "th \<in> set ths \<union> set zs" and "desc_ok K (t_ctl x th) (cl th) (t_val x th) th (descr (t_st x) th)"
    and "th \<noteq> main_thread (t_st x)"
proof -
  have "t_ctl x th \<noteq> TNone" "th \<noteq> main_thread (t_st x)" using ctl_okD(11) [OF tinvD(6) [OF I], of th] c by auto
  then show m: "th \<in> set ths \<union> set zs" "th \<noteq> main_thread (t_st x)"
    using tinvD(2) [OF I, of th] tinvD(3) [OF I, of th] by (auto simp: alive_def)
  show "desc_ok K (t_ctl x th) (cl th) (t_val x th) th (descr (t_st x) th)" by (rule tinvD(4) [OF I m(1)])
qed

lemma tinv_run:
  assumes I: "tinv K x ths zs cl" and t: "t_ctl x t = TRun" "t \<noteq> main_thread (t_st x)"
  shows "cl t \<noteq> CNone" and "\<not> t_sig x t"
  using ctl_okD(11) [OF tinvD(6) [OF I], of t] ctl_okD(8) [OF tinvD(6) [OF I], of t] t by auto

lemma inv_create_call:
  assumes I: "tinv K x ths zs cl" and t: "t_ctl x t = TRun"
  shows "tinv K (tmove t (send_request t (REQ_CREATE attr fn arg msk) (t_st x)) TCreate x) ths zs cl"
proof -
  note D = tinvD [OF I]
  have "\<not> t_sig x t" using ctl_okD(8) [OF D(6), of t] t by auto
  note P = pipe_send_create [of "reqs (t_st x)" "t_ctl x" "t_sig x" cl t, OF D(7) t this]
  show ?thesis
    by (rule tinv_move [OF I])
      (use t D(4) ctl_move [OF D(6), of t TCreate] P in \<open>auto simp: send_frame alive_def desc_ok_def\<close>)
qed

lemma inv_deliver:
  assumes I: "tinv K x ths zs cl" and s: "deliver t PTHREAD_SIG_RESTART (t_st x) = (H_return, s)"
    and k: "alive (t_ctl x t)" "alive k" "over k = over (t_ctl x t)"
    and C: "ctl_ok (main_thread (t_st x)) ((t_ctl x)(t := k)) ((t_sig x)(t := False)) (t_open x) cl (t_val x)"
    and P: "pipe_ok (reqs (t_st x)) ((t_ctl x)(t := k)) ((t_sig x)(t := False)) cl"
  shows "tinv K ((tmove t s k x)\<lparr>t_sig := (t_sig x)(t := False)\<rparr>) ths zs cl"
proof -
  note D = tinvD [OF I] and S = deliver_effect [OF s]
  show ?thesis
  proof (rule tinv_move [OF I])
    fix u assume "u \<in> set ths \<union> set zs"
    note d = D(4) [OF this]
    obtain z where "descr s u = (descr (t_st x) u)\<lparr>p_signal := z\<rparr>" using S(3) by blast
    with d k(3) show "desc_ok K (t_ctl ((tmove t s k x)\<lparr>t_sig := (t_sig x)(t := False)\<rparr>) u) (cl u)
        (t_val ((tmove t s k x)\<lparr>t_sig := (t_sig x)(t := False)\<rparr>) u) u
        (descr (t_st ((tmove t s k x)\<lparr>t_sig := (t_sig x)(t := False)\<rparr>)) u)"
      by (auto simp: desc_ok_def)
  qed (use k S(1,2) C P deliver_restart_same(4) [OF s] in \<open>auto simp: alive_def\<close>)
qed

lemma inv_create_return:
  assumes I: "tinv K x ths zs cl" and t: "t_ctl x t = TCreate" "t_sig x t"
    and s: "deliver t PTHREAD_SIG_RESTART (t_st x) = (H_return, s)"
  shows "tinv K ((tmove t s TRun x)\<lparr>t_sig := (t_sig x)(t := False)\<rparr>) ths zs cl"
  by (rule inv_deliver [OF I s _ _ _ ctl_create_return [OF tinvD(6) [OF I] t(1)] pipe_cong [OF tinvD(7) [OF I]]])
    (use t in \<open>auto simp: alive_def\<close>)

lemma inv_join_woken:
  assumes I: "tinv K x ths zs cl" and t: "t_ctl x t = TJoin th" "t_sig x t"
    and s: "deliver t PTHREAD_SIG_RESTART (t_st x) = (H_return, s)"
  shows "tinv K ((tmove t s (TJoined th) x)\<lparr>t_sig := (t_sig x)(t := False)\<rparr>) ths zs cl"
  by (rule inv_deliver [OF I s _ _ _ ctl_join_woken [OF tinvD(6) [OF I] t] pipe_cong [OF tinvD(7) [OF I]]])
    (use t in \<open>auto simp: alive_def\<close>)

lemma inv_begin_run:
  assumes I: "tinv K x ths zs cl" and t: "t_ctl x t = TNew"
  shows "tinv K (tmove t (started K t (t_st x)) TRun x) ths zs cl"
proof -
  note D = tinvD [OF I]
  have "tframe (t_st x) (started K t (t_st x))" by (simp add: tframe_def started_def seg_part_def)
  moreover have "pipe_ok (reqs (t_st x)) ((t_ctl x)(t := TRun)) (t_sig x) cl" by (rule pipe_cong [OF D(7)]) (auto simp: t)
  ultimately show ?thesis
    by (intro tinv_move [OF I])
      (use t D(4) ctl_move [OF D(6), of t TRun] in \<open>auto simp: alive_def desc_ok_def started_def\<close>)
qed

lemma inv_exit:
  assumes I: "tinv K x ths zs cl" and t: "t_ctl x t = TRun" "t \<noteq> main_thread (t_st x)"
    and s: "exit_section t v (t_st x) = Some (u, s)"
  shows "tinv K ((tmove t s (if u \<noteq> NULL then TWake u else TZombie) x)\<lparr>t_val := (t_val x)(t := v)\<rparr>) ths zs cl"
proof -
  note D = tinvD [OF I] and R = tinv_run [OF I t]
  note d = tinv_desc(2) [OF I R(1)]
  have sp: "p_spinlock (descr (t_st x) t) = 0" using d by (simp add: desc_ok_def)
  have j: "p_joining (descr (t_st x) t) = joiner (cl t)" using d t(1) by (simp add: desc_ok_def)
  have s: "u = joiner (cl t)" "s = upd_th t (\<lambda>d. d\<lparr>p_retval := v, p_terminated := True\<rparr>) (t_st x)"
    using s exit_section_eq [OF sp, of v] j by auto
  define k where "k = (if u \<noteq> NULL then TWake u else TZombie)"
  have k: "over k" "alive k" "k \<noteq> TReaped" "k \<noteq> TCreate" by (simp_all add: k_def alive_def)
  have P: "pipe_ok (reqs (t_st x)) ((t_ctl x)(t := k)) (t_sig x) cl" by (rule pipe_cong [OF D(7)]) (use t k in auto)
  have F: "tframe (t_st x) s" unfolding s(2) by (rule upd_frame) simp_all
  have C: "ctl_ok (main_thread (t_st x)) ((t_ctl x)(t := k)) (t_sig x) (t_open x) cl ((t_val x)(t := v))"
    by (rule ctl_exit [OF D(6) t s(1) k_def])
  show ?thesis unfolding k_def [symmetric]
    by (intro tinv_move [OF I]) (use F C P t k D(4) d in \<open>auto simp: alive_def desc_ok_def s(2)\<close>)
qed

lemma inv_exit_restart:
  assumes I: "tinv K x ths zs cl" and t: "t_ctl x t = TWake u"
  shows "tinv K ((tmove t (restart u (t_st x)) TZombie x)\<lparr>t_sig := (t_sig x)(u := True)\<rparr>) ths zs cl"
proof -
  note D = tinvD [OF I]
  have "t_ctl x u = TJoin t" using ctl_okD(10) [OF D(6) t] by simp
  then have "pipe_ok (reqs (t_st x)) ((t_ctl x)(t := TZombie)) ((t_sig x)(u := True)) cl"
    by (intro pipe_cong [OF D(7)]) (use t in auto)
  moreover have "tframe (t_st x) (restart u (t_st x))" by (simp add: tframe_def restart_def kill_frame)
  ultimately show ?thesis
    by (intro tinv_move [OF I]) (use t D(4) ctl_exit_restart [OF D(6) t] in \<open>auto simp: alive_def desc_ok_def\<close>)
qed

text \<open>A join of a thread whose value nobody has got: it is refused if another thread waits already.\<close>

lemma open_section:
  assumes I: "tinv K x ths zs cl" and th: "th \<in> t_open x" and "th \<noteq> t"
  shows "join_section t th (t_st x) = (if cl th \<noteq> COpen then Some (Join_error EINVAL, t_st x)
    else if over (t_ctl x th) then Some (Join_value (t_val x th), t_st x)
    else Some (Join_wait, upd_th th (p_joining_update (\<lambda>_. t)) (t_st x)))"
proof -
  have c: "cl th = COpen \<or> (\<exists>u. cl th = CJoin u \<and> u \<noteq> NULL)"
  proof (cases "cl th")
    case (CJoin u)
    then have "waits (t_ctl x u) = Some th" using ctl_okD(1) [OF tinvD(6) [OF I]] by simp
    then have "u \<noteq> NULL" using ctl_okD(14) [OF tinvD(6) [OF I]] by auto
    then show ?thesis using CJoin by simp
  qed (use ctl_okD(2) [OF tinvD(6) [OF I], of th] th in auto)
  then have "cl th \<noteq> CNone" by auto
  from tinv_desc(2) [OF I this] c \<open>th \<noteq> t\<close> show ?thesis by (subst join_section_eq) (auto simp: desc_ok_def)
qed

lemma inv_join_refused:
  assumes "t_ctl x t = TRun" and "join_section t th (t_st x) = Some (Join_error e, s)"
  shows "tmove t s TRun x = x"
proof -
  have "(t_ctl x)(t := TRun) = t_ctl x" using assms(1) by auto
  then show ?thesis using join_section_refused [OF assms(2)] by simp
qed

lemma inv_join_sleep:
  assumes I: "tinv K x ths zs cl" and t: "t_ctl x t = TRun" and th: "th \<in> t_open x"
    and s: "join_section t th (t_st x) = Some (Join_wait, s)"
  shows "tinv K (tmove t s (TJoin th) x) ths zs (cl(th := CJoin t))"
proof -
  note D = tinvD [OF I]
  have ne: "th \<noteq> t" using s by (auto simp: join_section_def)
  have c: "cl th = COpen" and nt: "\<not> over (t_ctl x th)" and s: "s = upd_th th (p_joining_update (\<lambda>_. t)) (t_st x)"
    using open_section [OF I th ne] s by (auto split: if_splits)
  have P: "pipe_ok (reqs (t_st x)) ((t_ctl x)(t := TJoin th)) (t_sig x) (cl(th := CJoin t))"
    by (rule pipe_cong [OF D(7)]) (use t c in auto)
  have F: "tframe (t_st x) s" unfolding s by (rule upd_frame) simp_all
  show ?thesis
    by (intro tinv_move [OF I])
      (use F P t nt c ne D(4) tinv_desc(2) [OF I, of th] ctl_join_sleep [OF D(6) t c ne nt] in \<open>auto simp: alive_def desc_ok_def s\<close>)
qed

text \<open>The value is read, at once or after the wait.\<close>

lemma inv_join_gets:
  assumes I: "tinv K x ths zs cl" and t: "t_ctl x t = TRun \<and> cl th = COpen \<or> t_ctl x t = TJoined th"
    and th: "th \<noteq> t" "over (t_ctl x th)" and v: "v = t_val x th"
  shows "tinv K ((tmove t (t_st x) (TGot th v) x)\<lparr>t_open := t_open x - {th}\<rparr>) ths zs (cl(th := CGot t))"
proof -
  note D = tinvD [OF I]
  have c: "cl th = COpen \<or> cl th = CJoin t" using ctl_okD(1) [OF D(6), of t th] t by auto
  have P: "pipe_ok (reqs (t_st x)) ((t_ctl x)(t := TGot th v)) (t_sig x) (cl(th := CGot t))"
    by (rule pipe_cong [OF D(7)]) (use t c in auto)
  have k: "alive (t_ctl x t)" "t_ctl x t \<noteq> TReaped" "\<not> over (t_ctl x t)" using t by (auto simp: alive_def)
  show ?thesis
    by (intro tinv_move [OF I])
      (use P k th c D(4) tinv_desc(2) [OF I, of th] ctl_join_gets [OF D(6) t th] in \<open>auto simp: alive_def desc_ok_def v tframe_def\<close>)
qed

lemma inv_join_at_once:
  assumes I: "tinv K x ths zs cl" and t: "t_ctl x t = TRun" and th: "th \<in> t_open x"
    and s: "join_section t th (t_st x) = Some (Join_value v, s)"
  shows "tinv K ((tmove t s (TGot th v) x)\<lparr>t_open := t_open x - {th}\<rparr>) ths zs (cl(th := CGot t))"
proof -
  have ne: "th \<noteq> t" using s by (auto simp: join_section_def)
  have c: "cl th = COpen" "over (t_ctl x th)" "s = t_st x" "v = t_val x th"
    using open_section [OF I th ne] s by (auto split: if_splits)
  then show ?thesis using inv_join_gets [OF I _ ne c(2,4)] t by simp
qed

lemma inv_join_reads:
  assumes I: "tinv K x ths zs cl" and t: "t_ctl x t = TJoined th" and s: "join_read th (t_st x) = Some (v, s)"
  shows "tinv K ((tmove t s (TGot th v) x)\<lparr>t_open := t_open x - {th}\<rparr>) ths zs (cl(th := CGot t))"
proof -
  note E = ctl_okD [OF tinvD(6) [OF I]]
  have c: "cl th = CJoin t" using E(1) [of t th] t by simp
  then have ne: "th \<noteq> t" using E(3) [of th] by auto
  have s: "s = t_st x" "v = t_val x th"
    using c tinv_desc(2) [OF I, of th] E(6) [OF t] s join_read_eq [of "t_st x" th] by (auto simp: desc_ok_def)
  show ?thesis unfolding s(1) by (rule inv_join_gets [OF I _ ne E(6) [OF t] s(2)]) (simp add: t)
qed

lemma inv_join_return:
  assumes I: "tinv K x ths zs cl" and t: "t_ctl x t = TGot th v"
  shows "tinv K (tmove t (join_notify t th (t_st x)) TRun x) ths zs (cl(th := CReq))"
proof -
  note D = tinvD [OF I]
  have c: "cl th = CGot t" using ctl_okD(15) [OF D(6), of t th] t by simp
  have s: "join_notify t th (t_st x) = send_request t (REQ_FREE th) (t_st x)" using D(1) by (simp add: join_notify_def base_ok_def)
  have "pipe_ok (reqs (t_st x)) ((t_ctl x)(t := TRun)) (t_sig x) cl" by (rule pipe_cong [OF D(7)]) (use t in auto)
  then have P: "pipe_ok (reqs (t_st x) @ [\<lparr>req_thread = t, req_kind = REQ_FREE th\<rparr>]) ((t_ctl x)(t := TRun)) (t_sig x) (cl(th := CReq))"
    by (rule pipe_send_free) (simp add: c)
  show ?thesis
    by (intro tinv_move [OF I])
      (use P t c ctl_okD(7) [OF D(6) t] D(4) tinv_desc(2) [OF I, of th] ctl_join_return [OF D(6) t] in
        \<open>auto simp: alive_def desc_ok_def s send_frame\<close>)
qed

text \<open>
  \<open>pthread_detach\<close>: nothing if a thread waits; otherwise the thread is marked, and if it has been reaped, a request to free it
  is sent.
\<close>

lemma inv_detach:
  assumes I: "tinv K x ths zs cl" and th: "th \<in> t_open x" and n: "t_ctl x th \<noteq> TZombie"
    and s: "pthread_detach t th (t_st x) = Some (r, s)"
  shows "\<exists>cl'. tinv K (x\<lparr>t_st := s, t_open := (if p_detached (descr s th) \<noteq> 0 then t_open x - {th} else t_open x)\<rparr>) ths zs cl'"
proof -
  note D = tinvD [OF I] and E = ctl_okD [OF tinvD(6) [OF I]]
  have o: "still_open (cl th)" using E(2) th by simp
  then have c: "cl th \<noteq> CNone" by auto
  note m = tinv_desc [OF I c]
  have f: "p_spinlock (descr (t_st x) th) = 0" "p_detached (descr (t_st x) th) = 0" "p_joining (descr (t_st x) th) = joiner (cl th)"
    "p_terminated (descr (t_st x) th) = over (t_ctl x th)" "manager_request (t_st x) \<ge> 0"
    using m(2) o D(1) by (auto simp: desc_ok_def base_ok_def)
  show ?thesis
  proof (cases "cl th")
    case (CJoin u)
    then have "waits (t_ctl x u) = Some th" using E(1) by simp
    then have "u \<noteq> NULL" using E(14) by auto
    then have "s = t_st x" using s f CJoin by (simp add: detach_eq)
    then show ?thesis using I f(2) by auto
  next
    case COpen
    define s1 where "s1 = upd_th th (p_detached_update (\<lambda>_. 1)) (t_st x)"
    have F: "tframe (t_st x) s1" unfolding s1_def by (rule upd_frame) simp_all
    have s: "s = (if over (t_ctl x th) then send_request t (REQ_FREE th) s1 else s1)"
      using s f COpen by (auto simp: detach_eq s1_def Let_def)
    have "t_ctl x th \<noteq> TWake u" for u using E(10) [of th u] E(1) [of u th] COpen by auto
    then have k: "t_ctl x th = TReaped" if "over (t_ctl x th)" using that n by (cases "t_ctl x th") auto
    show ?thesis
    proof (cases "over (t_ctl x th)")
      case False
      have "pipe_ok (reqs (t_st x)) (t_ctl x) (t_sig x) (cl(th := CDet))" by (rule pipe_cong [OF D(7)]) (use COpen in auto)
      with False COpen F have "tinv K (x\<lparr>t_st := s1, t_open := t_open x - {th}\<rparr>) ths zs (cl(th := CDet))"
        by (intro tinv_move [OF I]) (use D(4) m(2) ctl_detach [OF D(6), of th CDet] in \<open>auto simp: desc_ok_def s1_def\<close>)
      then show ?thesis using False by (auto simp: s s1_def)
    next
      case True
      have e: "p_exited (descr (t_st x) th)" using k [OF True] D(3) [of th] D(1) by (auto simp: base_ok_def mgr_wf_def)
      have "pipe_ok (reqs (t_st x) @ [\<lparr>req_thread = t, req_kind = REQ_FREE th\<rparr>]) (t_ctl x) (t_sig x) (cl(th := CReq))"
        by (rule pipe_send_free [OF D(7)]) (simp add: COpen)
      moreover have "tframe (t_st x) (send_request t (REQ_FREE th) s1)" using F by (simp add: tframe_def send_request_def)
      ultimately have "tinv K (x\<lparr>t_st := send_request t (REQ_FREE th) s1, t_open := t_open x - {th}\<rparr>) ths zs (cl(th := CReq))"
        using k [OF True] COpen e
        by (intro tinv_move [OF I]) (use D(4) m(2) ctl_detach [OF D(6), of th CReq] in \<open>auto simp: desc_ok_def s1_def\<close>)
      then show ?thesis using True by (auto simp: s s1_def)
    qed
  qed (use o in auto)
qed

text \<open>The manager serves a request to free a thread.\<close>

lemma take_request:
  assumes "tinv K x ths zs cl"
  shows "base_ok K ((t_st x)\<lparr>reqs := rest\<rparr>) ths zs"
  by (rule base_ok_frame(1) [OF _ tinvD(1) [OF assms]]) (simp add: tframe_def)

lemma base_okD:
  assumes "base_ok K s ths zs"
  shows "mgr_wf K s ths zs" and "distinct (main_thread s # ths @ zs)" and "t \<in> set ths \<Longrightarrow> \<not> p_exited (descr s t)"
    and "\<not> main_thread_exiting s" and "slot K s t \<Longrightarrow> t \<noteq> NULL" and "t \<in> set ths \<union> set zs \<Longrightarrow> slot K s t"
  using assms by (auto simp: base_ok_def mgr_wf_def slot_def)

lemma inv_free_reaped:
  assumes I: "tinv K x ths zs cl" and r: "reqs (t_st x) = r # rest" "req_kind r = REQ_FREE th" and th: "t_ctl x th = TReaped"
  shows "\<exists>s zs'. handle_request K r ((t_st x)\<lparr>reqs := rest\<rparr>) = Some (Ret (), s) \<and>
    tinv K (tmove th s TNone x) ths zs' (cl(th := CNone)) \<and> klog s = klog (t_st x) @ [unmap_of K th] \<and> \<not> slot K s th"
proof -
  note D = tinvD [OF I] and B = base_okD [OF take_request [OF I, of rest]]
  note P = pipe_take_free [of r rest "t_ctl x" "t_sig x" cl th, OF D(7) [unfolded r(1)] r(2)]
  have c: "cl th = CReq" by (rule P(1) [of CNone]) simp
  obtain as bs where zs: "zs = as @ th # bs" using D(3) [of th] th split_list by fastforce
  have sp: "p_spinlock (descr ((t_st x)\<lparr>reqs := rest\<rparr>) th) = 0" using tinv_desc(2) [OF I, of th] c by (simp add: desc_ok_def)
  from handle_free_exited [OF B(1) [unfolded zs] sp] obtain s where
    s: "pthread_handle_free K th ((t_st x)\<lparr>reqs := rest\<rparr>) = Some s" "mgr_wf K s ths (as @ bs)" "\<not> slot K s th"
      "klog s = klog (t_st x) @ [unmap_of K th]" "main_thread s = main_thread (t_st x)"
      "main_thread_exiting s = main_thread_exiting (t_st x)" "\<forall>u. u \<noteq> th \<longrightarrow> descr s u = descr (t_st x) u"
      "reqs s = rest" "manager_request s = manager_request (t_st x)" "initial_thread_bos s = initial_thread_bos (t_st x)"
    by auto
  have n: "th \<notin> set (as @ bs)" "th \<notin> set ths" "th \<noteq> main_thread (t_st x)" using B(2) zs by auto
  have "base_ok K s ths (as @ bs)" using D(1) s(2,6,9,10) by (simp add: base_ok_def)
  moreover have "alive (((t_ctl x)(th := TNone)) u) \<longleftrightarrow> u = main_thread (t_st x) \<or> u \<in> set ths" for u
    using D(2) [of u] n by (auto simp: alive_def)
  moreover have "((t_ctl x)(th := TNone)) u = TReaped \<longleftrightarrow> u \<in> set (as @ bs)" for u
    using D(3) [of u] n(1) by (auto simp: zs)
  moreover have "desc_ok K (((t_ctl x)(th := TNone)) u) ((cl(th := CNone)) u) (t_val x u) u (descr s u)"
    if "u \<in> set ths \<union> set (as @ bs)" for u
  proof -
    have "u \<noteq> th" using that n by auto
    then show ?thesis using that D(4) [of u] s(7) by (auto simp: zs)
  qed
  moreover have "ctl_ok (main_thread (t_st x)) ((t_ctl x)(th := TNone)) (t_sig x) (t_open x) (cl(th := CNone)) (t_val x)"
    by (rule ctl_gone [OF D(6)]) (simp_all add: c th)
  moreover have "pipe_ok rest ((t_ctl x)(th := TNone)) (t_sig x) (cl(th := CNone))"
    by (rule pipe_cong [OF P(2) [of CNone]]) (auto simp: th)
  ultimately have "tinv K (tmove th s TNone x) ths (as @ bs) (cl(th := CNone))"
    unfolding tinv_def using D(5) s(5,7,8) n(3) by simp
  then show ?thesis using s(1,3,4) r(2) by (auto simp: handle_request_def)
qed

lemma inv_free_running:
  assumes I: "tinv K x ths zs cl" and r: "reqs (t_st x) = r # rest" "req_kind r = REQ_FREE th" and th: "t_ctl x th \<noteq> TReaped"
  shows "\<exists>s. handle_request K r ((t_st x)\<lparr>reqs := rest\<rparr>) = Some (Ret (), s) \<and>
    tinv K (tmove th s (t_ctl x th) x) ths zs (cl(th := CDet)) \<and> klog s = klog (t_st x)"
proof -
  note D = tinvD [OF I] and B = base_okD [OF take_request [OF I, of rest]]
  note P = pipe_take_free [of r rest "t_ctl x" "t_sig x" cl th, OF D(7) [unfolded r(1)] r(2)]
  have c: "cl th = CReq" by (rule P(1) [of CDet]) simp
  note m = tinv_desc [OF I, of th, unfolded c, simplified]
  have "th \<in> set ths" using m(1) th D(3) [of th] by auto
  then have "slot K ((t_st x)\<lparr>reqs := rest\<rparr>) th" "\<not> p_exited (descr ((t_st x)\<lparr>reqs := rest\<rparr>) th)" by (rule B(6) [OF UnI1], rule B(3))
  moreover have "p_spinlock (descr ((t_st x)\<lparr>reqs := rest\<rparr>) th) = 0" using m(2) by (simp add: desc_ok_def)
  ultimately have s: "pthread_handle_free K th ((t_st x)\<lparr>reqs := rest\<rparr>) =
      Some (upd_th th (p_detached_update (\<lambda>_. 1)) ((t_st x)\<lparr>reqs := rest\<rparr>))" by (rule handle_free_running)
  have o: "over (t_ctl x th)" by (rule ctl_okD(4) [OF D(6) c])
  have "tinv K (tmove th (upd_th th (p_detached_update (\<lambda>_. 1)) ((t_st x)\<lparr>reqs := rest\<rparr>)) (t_ctl x th) x) ths zs (cl(th := CDet))"
    by (rule tinv_move [OF I])
      (use m o D(4) P(2) [of CDet] ctl_served_running [OF D(6) c th] in \<open>auto simp: tframe_def desc_ok_def\<close>)
  then show ?thesis using s r(2) by (simp add: handle_request_def)
qed

text \<open>The manager reaps a process.\<close>

lemma desc_ok_exited:
  assumes "links_off d' = (links_off d)\<lparr>p_exited := True\<rparr>" and "over k' = over k" and "desc_ok K k c v t d"
  shows "desc_ok K k' c v t d'"
proof -
  have "links_off d' = links_off (d\<lparr>p_exited := True\<rparr>)" using assms(1) by (simp add: links_off_exited)
  from desc_ok_cong [OF this assms(2), of K c v t] show ?thesis using assms(3) by (auto simp: desc_ok_def)
qed

lemma zombie_in_ring:
  assumes pids: "pids_ok K" and I: "tinv K x ths zs cl" and t: "t_ctl x t = TZombie"
  obtains xs ys where "ths = xs @ t # ys" and "t \<notin> set (xs @ ys @ zs)" and "t \<noteq> main_thread (t_st x)"
    and "desc_ok K TZombie (cl t) (t_val x t) t (descr (t_st x) t)"
    and "\<forall>u \<in> set xs. p_pid (descr (t_st x) u) \<noteq> p_pid (descr (t_st x) t)"
proof -
  note D = tinvD [OF I]
  have tm: "t \<noteq> main_thread (t_st x)" using ctl_okD(13) [OF D(6)] t by auto
  then obtain xs ys where ths: "ths = xs @ t # ys" using D(2) [of t] t split_list by (fastforce simp: alive_def)
  have d: "desc_ok K TZombie (cl t) (t_val x t) t (descr (t_st x) t)" using D(4) [of t] t ths by simp
  have n: "t \<notin> set (xs @ ys @ zs)" using base_okD(2) [OF D(1)] ths by auto
  have "p_pid (descr (t_st x) u) \<noteq> p_pid (descr (t_st x) t)" if "u \<in> set xs" for u
    using that D(4) [of u] d ths n pids by (auto simp: desc_ok_def pids_ok_def dest: injD)
  then show thesis using that [OF ths n tm d] by blast
qed

lemma inv_reap:
  assumes pids: "pids_ok K" and I: "tinv K x ths zs cl" and t: "t_ctl x t = TZombie"
    and k: "k = (if p_detached (descr (t_st x) t) \<noteq> 0 then TNone else TReaped)"
  shows "\<exists>s ths' zs' cl'. pthread_exited K (p_pid (descr (t_st x) t)) (t_st x) = Some (Ret (), s) \<and>
    tinv K (tmove t s k x) ths' zs' cl' \<and>
    klog s = klog (t_st x) @ (if p_detached (descr (t_st x) t) \<noteq> 0 then [unmap_of K t] else []) \<and>
    (p_detached (descr (t_st x) t) \<noteq> 0 \<longrightarrow> \<not> slot K s t)"
proof -
  note D = tinvD [OF I] and B = base_okD [OF tinvD(1) [OF I]]
  obtain xs ys where ths: "ths = xs @ t # ys" and n: "t \<notin> set (xs @ ys @ zs)" and tm: "t \<noteq> main_thread (t_st x)"
    and d: "desc_ok K TZombie (cl t) (t_val x t) t (descr (t_st x) t)"
    and p: "\<forall>u \<in> set xs. p_pid (descr (t_st x) u) \<noteq> p_pid (descr (t_st x) t)" by (rule zombie_in_ring [OF pids I t])
  have sp: "p_spinlock (descr (t_st x) t) = 0" using d by (simp add: desc_ok_def)
  from exited_effect [OF B(1) [unfolded ths] refl p sp] B(4) obtain s where
    s: "pthread_exited K (p_pid (descr (t_st x) t)) (t_st x) = Some (Ret (), s)" "main_thread s = main_thread (t_st x)"
      "main_thread_exiting s = main_thread_exiting (t_st x)" "reqs s = reqs (t_st x)"
      "manager_request s = manager_request (t_st x)" "initial_thread_bos s = initial_thread_bos (t_st x)"
    and l: "\<And>u. links_off (descr s u) = (if u = t then (links_off (descr (t_st x) t))\<lparr>p_exited := True\<rparr> else links_off (descr (t_st x) u))"
    and w: "if p_detached (descr (t_st x) t) = 0 then mgr_wf K s (xs @ ys) (t # zs) \<and> klog s = klog (t_st x)
      else mgr_wf K s (xs @ ys) zs \<and> klog s = klog (t_st x) @ [unmap_of K t] \<and> \<not> slot K s t" by auto
  define zs' where "zs' = (if p_detached (descr (t_st x) t) = 0 then t # zs else zs)"
  define cl' where "cl' = (if p_detached (descr (t_st x) t) = 0 then cl else cl(t := CNone))"
  have "\<not> p_exited (descr (t_st x) t)" using B(3) [of t] ths by simp
  then have cd: "p_detached (descr (t_st x) t) = 0 \<longleftrightarrow> cl t \<noteq> CDet" using d by (auto simp: desc_ok_def)
  have "base_ok K s (xs @ ys) zs'" using D(1) s(3,5,6) w by (simp add: base_ok_def zs'_def split: if_splits)
  moreover have "alive (((t_ctl x)(t := k)) u) \<longleftrightarrow> u = main_thread (t_st x) \<or> u \<in> set (xs @ ys)" for u
    using D(2) [of u] n tm ths by (auto simp: alive_def k)
  moreover have "((t_ctl x)(t := k)) u = TReaped \<longleftrightarrow> u \<in> set zs'" for u
    using D(3) [of u] n t by (auto simp: k zs'_def)
  moreover have "desc_ok K (((t_ctl x)(t := k)) u) (cl' u) (t_val x u) u (descr s u)" if "u \<in> set (xs @ ys) \<union> set zs'" for u
  proof (cases "u = t")
    case True
    then have "k = TReaped" "cl' t = cl t" using that n by (auto simp: zs'_def k cl'_def split: if_splits)
    then show ?thesis using True d desc_ok_exited [of "descr s t" "descr (t_st x) t" TReaped TZombie] l [of t] by simp
  next
    case False
    then have "desc_ok K (t_ctl x u) (cl u) (t_val x u) u (descr s u)"
      using that D(4) [of u] desc_ok_cong [of "descr s u" "descr (t_st x) u"] l [of u] by (auto simp: ths zs'_def split: if_splits)
    then show ?thesis using False by (simp add: cl'_def)
  qed
  moreover have "ctl_ok (main_thread (t_st x)) ((t_ctl x)(t := k)) (t_sig x) (t_open x) cl' (t_val x)"
    using ctl_gone [OF D(6), of t] ctl_reaped [OF D(6) t] t cd by (simp add: k cl'_def)
  moreover have "pipe_ok (reqs (t_st x)) ((t_ctl x)(t := k)) (t_sig x) cl'"
    by (rule pipe_cong [OF D(7)]) (use t cd in \<open>auto simp: k cl'_def\<close>)
  moreover have "p_signal_jmp (descr s (main_thread (t_st x))) = p_signal_jmp (descr (t_st x) (main_thread (t_st x)))"
    using l [of "main_thread (t_st x)"] tm by (intro links_off_fields(17)) simp
  ultimately have "tinv K (tmove t s k x) (xs @ ys) zs' cl'" unfolding tinv_def using D(5) s(2,4) by simp
  then show ?thesis using s(1) w by (intro exI [of _ s]) (auto split: if_splits)
qed

text \<open>The manager serves a request to create a thread.\<close>

lemma desc_ok_new:
  assumes "links_off d' = (init_new_thread attr fn arg msk d)\<lparr>p_pid := p_pid d'\<rparr>" and "p_pid d' = getpid_env K t"
  shows "desc_ok K TNew (if p_detached d' = 0 then COpen else CDet) v t d'"
proof -
  have "p_spinlock (links_off d') = 0" "\<not> p_signal_jmp (links_off d')" "\<not> p_terminated (links_off d')" "p_joining (links_off d') = NULL"
    unfolding assms(1) by (simp_all add: init_new_thread_def)
  then show ?thesis using assms(2) by (auto simp: desc_ok_def links_off_def)
qed

lemma desc_ok_retval:
  assumes "links_off d' = (links_off d)\<lparr>p_retval := n\<rparr>" and "\<not> over k"
  shows "desc_ok K k c v t d' = desc_ok K k c v t d"
proof -
  have "links_off d' = links_off (d\<lparr>p_retval := n\<rparr>)" using assms(1) by (cases d) (simp add: links_off_def)
  from desc_ok_cong [OF this refl, of K k c v t] show ?thesis using assms(2) by (simp add: desc_ok_def)
qed

lemma desc_ok_answered:
  assumes "links_off d' = (if u = c then (links_off d)\<lparr>p_retval := n\<rparr> else links_off d)" and "u = c \<Longrightarrow> \<not> over k"
  shows "desc_ok K k q v u (if u = c then d'\<lparr>p_retcode := z\<rparr> else d') = desc_ok K k q v u d"
    and "p_signal_jmp d' = p_signal_jmp d" and "u = c \<Longrightarrow> p_retval d' = n"
proof -
  have "desc_ok K k q v u d' = desc_ok K k q v u d"
    using assms desc_ok_retval [of d' n d k K q v u] desc_ok_cong [of d' d k k K q v u] by (cases "u = c") simp_all
  moreover have "desc_ok K k q v u (d'\<lparr>p_retcode := z\<rparr>) = desc_ok K k q v u d'" by (simp add: desc_ok_def)
  ultimately show "desc_ok K k q v u (if u = c then d'\<lparr>p_retcode := z\<rparr> else d') = desc_ok K k q v u d" by auto
  show "p_signal_jmp d' = p_signal_jmp d" "u = c \<Longrightarrow> p_retval d' = n"
    using arg_cong [OF assms(1), of p_signal_jmp] arg_cong [OF assms(1), of p_retval] by (auto simp: links_off_def split: if_splits)
qed

lemma answer_frame: "tframe s (restart t (upd_th t (p_retcode_update (\<lambda>_. r)) s))"
  by (simp add: tframe_def)

lemma inv_create_fails:
  assumes I: "tinv K x ths zs cl" and r: "reqs (t_st x) = r # rest" "req_kind r = REQ_CREATE attr fn arg msk"
    and j: "alloc_segment K 0 ((t_st x)\<lparr>reqs := rest\<rparr>) = Some (Some j, s1)" "j < 2048"
      "seg_found K 0 ((t_st x)\<lparr>reqs := rest\<rparr>) j s1" "table_only ((t_st x)\<lparr>reqs := rest\<rparr>) s1"
    and n: "n = THREAD_SEG K (initial_thread_bos (t_st x)) j" "s2 = upd_th n (init_new_thread attr fn arg msk) s1"
      "clone_env K n s2 = - 1"
  shows "\<exists>s. handle_request K r ((t_st x)\<lparr>reqs := rest\<rparr>) = Some (Ret (), s) \<and> p_retcode (descr s (req_thread r)) \<noteq> 0 \<and>
    tinv K (x\<lparr>t_st := s, t_sig := (t_sig x)(req_thread r := True)\<rparr>) ths zs cl"
proof -
  let ?c = "req_thread r" and ?s0 = "(t_st x)\<lparr>reqs := rest\<rparr>"
  note D = tinvD [OF I] and B = base_okD [OF take_request [OF I, of rest]]
  note P = pipe_take_create [of r rest "t_ctl x" "t_sig x" cl, OF D(7) [unfolded r(1)]]
  have c: "is_create (req_kind r)" by (simp add: r(2))
  from create_no_clone [OF B(1) j, of n s2 attr fn arg msk ?c "p_pid (descr ?s0 ?c)"] n obtain s3 where
    s3: "pthread_handle_create K ?c attr fn arg msk (p_pid (descr ?s0 ?c)) ?s0 = Some (EAGAIN, s3)"
      "mgr_wf K s3 ths zs" "\<forall>u. u \<noteq> n \<longrightarrow> descr s3 u = descr (t_st x) u" "n \<notin> set (main_thread (t_st x) # ths @ zs)"
      "main_thread s3 = main_thread (t_st x)" "main_thread_exiting s3 = main_thread_exiting (t_st x)" "reqs s3 = rest"
      "manager_request s3 = manager_request (t_st x)" "initial_thread_bos s3 = initial_thread_bos (t_st x)" by auto
  define s where "s = restart ?c (upd_th ?c (p_retcode_update (\<lambda>_. EAGAIN)) s3)"
  have b3: "base_ok K s3 ths zs" using D(1) s3(2,6,8,9) by (simp add: base_ok_def)
  note b = base_ok_frame [OF answer_frame b3, of ?c EAGAIN, folded s_def]
  have "desc_ok K (t_ctl x u) (cl u) (t_val x u) u (descr s u)" if "u \<in> set ths \<union> set zs" for u
    using D(4) [OF that] s3(3,4) that by (auto simp: s_def desc_ok_def)
  moreover have "\<not> p_signal_jmp (descr s (main_thread (t_st x)))" using D(5) s3(3,4) by (auto simp: s_def)
  ultimately have "tinv K (x\<lparr>t_st := s, t_sig := (t_sig x)(?c := True)\<rparr>) ths zs cl"
    unfolding tinv_def using b s3(5,7) D(2,3) ctl_signal_creator [OF D(6) P(1) [OF c]] P(3) [OF c] by (simp add: s_def)
  then show ?thesis using s3(1) r(2) by (simp add: handle_request_def s_def)
qed

lemma inv_create_ok:
  assumes pids: "pids_ok K" and I: "tinv K x ths zs cl"
    and r: "reqs (t_st x) = r # rest" "req_kind r = REQ_CREATE attr fn arg msk"
    and j: "alloc_segment K 0 ((t_st x)\<lparr>reqs := rest\<rparr>) = Some (Some j, s1)" "j < 2048"
      "seg_found K 0 ((t_st x)\<lparr>reqs := rest\<rparr>) j s1" "table_only ((t_st x)\<lparr>reqs := rest\<rparr>) s1"
    and n: "n = THREAD_SEG K (initial_thread_bos (t_st x)) j" "s2 = upd_th n (init_new_thread attr fn arg msk) s1"
      "clone_env K n s2 \<noteq> - 1"
  shows "\<exists>s cl'. handle_request K r ((t_st x)\<lparr>reqs := rest\<rparr>) = Some (Ret (), s) \<and> p_retcode (descr s (req_thread r)) = 0 \<and>
    n = p_retval (descr s (req_thread r)) \<and> reqs s = rest \<and> t_ctl x n = TNone \<and> n \<noteq> main_thread s \<and>
    p_detached (descr s n) = (case attr of None \<Rightarrow> 0 | Some a \<Rightarrow> detachstate a) \<and> tinv K ((tmove n s TNew x)\<lparr>t_sig := (t_sig x)(req_thread r := True),
      t_open := (if p_detached (descr s n) = 0 then insert n (t_open x) else t_open x)\<rparr>) (n # ths) zs cl'"
proof -
  let ?c = "req_thread r" and ?s0 = "(t_st x)\<lparr>reqs := rest\<rparr>"
  note D = tinvD [OF I] and B = base_okD [OF take_request [OF I, of rest]]
  have "is_create (req_kind r)" by (simp add: r(2))
  note P = pipe_take_create [of r rest "t_ctl x" "t_sig x" cl, OF D(7) [unfolded r(1)] this]
  have c: "?c \<in> set (main_thread ?s0 # ths)" using D(2) [of ?c] P(1) by (simp add: alive_def)
  from create_ok [OF B(1) j, of n s2 attr fn arg msk ?c "p_pid (descr ?s0 ?c)"] n c obtain s3 where
    s3: "pthread_handle_create K ?c attr fn arg msk (p_pid (descr ?s0 ?c)) ?s0 = Some (0, s3)"
      "mgr_wf K s3 (n # ths) zs" "main_thread s3 = main_thread (t_st x)"
      "main_thread_exiting s3 = main_thread_exiting (t_st x)" "reqs s3 = rest" "manager_request s3 = manager_request (t_st x)"
      "initial_thread_bos s3 = initial_thread_bos (t_st x)" and nf: "n \<notin> set (main_thread (t_st x) # ths @ zs)"
    and dn: "links_off (descr s3 n) = (init_new_thread attr fn arg msk (links_off (descr (t_st x) n)))\<lparr>p_pid := p_pid (descr s3 n)\<rparr>"
      "p_pid (descr s3 n) = clone_env K n s2"
    and du: "\<And>u. u \<noteq> n \<Longrightarrow> links_off (descr s3 u) =
      (if u = ?c then (links_off (descr (t_st x) u))\<lparr>p_retval := n\<rparr> else links_off (descr (t_st x) u))" by auto
  define s where "s = restart ?c (upd_th ?c (p_retcode_update (\<lambda>_. 0)) s3)"
  define k where "k = (if p_detached (descr s n) = 0 then COpen else CDet)"
  have cn: "?c \<noteq> n" using c nf by auto
  have b3: "base_ok K s3 (n # ths) zs" using D(1) s3(2,4,6,7) by (simp add: base_ok_def)
  note b = base_ok_frame [OF answer_frame b3, of ?c 0, folded s_def]
  have tn: "t_ctl x n = TNone" using D(2) [of n] D(3) [of n] nf by (auto simp: alive_def)
  have nn: "n \<noteq> NULL" using base_okD(5,6) [OF b3, of n] by simp
  have pid: "p_pid (descr s3 n) = getpid_env K n" using pids dn(2) n(3) by (auto simp: pids_ok_def)
  have rq: "reqs s = rest" by (simp add: s_def s3(5))
  have ds: "descr s u = (if u = ?c then (descr s3 u)\<lparr>p_retcode := 0\<rparr> else descr s3 u)" for u by (simp add: s_def)
  have old: "desc_ok K (t_ctl x u) (cl u) (t_val x u) u (descr s u)" if "u \<in> set ths \<union> set zs" for u
  proof -
    have "u \<noteq> n" using that nf by auto
    then show ?thesis unfolding ds using desc_ok_answered(1) [OF du] P(1) D(4) [OF that] by simp
  qed
  have new: "desc_ok K TNew k (t_val x n) n (descr s n)"
    using desc_ok_new [OF dn(1) pid, of "t_val x n"] cn by (simp add: s_def k_def)
  have m: "\<not> p_signal_jmp (descr s (main_thread (t_st x)))"
    using desc_ok_answered(2) [OF du, of "main_thread (t_st x)" TRun] D(5) nf by (auto simp: ds)
  have C: "ctl_ok (main_thread (t_st x)) ((t_ctl x)(n := TNew)) ((t_sig x)(?c := True))
      (if p_detached (descr s n) = 0 then insert n (t_open x) else t_open x) (cl(n := k)) (t_val x)"
    using ctl_new [OF ctl_signal_creator [OF D(6) P(1)] tn nn, of k] by (cases "p_detached (descr s n) = 0") (simp_all add: k_def)
  have Q: "pipe_ok rest ((t_ctl x)(n := TNew)) ((t_sig x)(?c := True)) (cl(n := k))"
    by (rule pipe_cong [OF P(3)]) (use tn ctl_okD(11) [OF D(6), of n] in \<open>auto simp: k_def\<close>)
  have "tinv K ((tmove n s TNew x)\<lparr>t_sig := (t_sig x)(?c := True),
      t_open := (if p_detached (descr s n) = 0 then insert n (t_open x) else t_open x)\<rparr>) (n # ths) zs (cl(n := k))"
    unfolding tinv_def using b s3(3) rq C Q new old m nf D(2,3) tn by (auto simp: alive_def)
  moreover have "p_detached (descr s n) = (case attr of None \<Rightarrow> 0 | Some a \<Rightarrow> detachstate a)"
    using arg_cong [OF dn(1), of p_detached] cn by (simp add: ds links_off_def init_new_thread_def)
  moreover have "p_retval (descr s ?c) = n" using desc_ok_answered(3) [OF du [OF cn], of TRun] by (simp add: ds)
  moreover have "n \<noteq> main_thread s" using nf s3(3) by (simp add: s_def)
  ultimately show ?thesis using s3(1) r(2) rq tn by (auto simp: handle_request_def s_def)
qed

text \<open>Whatever a request to create leads to.\<close>

lemma inv_serve_create:
  assumes pids: "pids_ok K" and I: "tinv K x ths zs cl"
    and r: "reqs (t_st x) = r # rest" "req_kind r = REQ_CREATE attr fn arg msk" and room: "room K (t_st x)"
  shows "\<exists>s. handle_request K r ((t_st x)\<lparr>reqs := rest\<rparr>) = Some (Ret (), s) \<and>
    (p_retcode (descr s (req_thread r)) = 0 \<longrightarrow> (\<forall>n. n = p_retval (descr s (req_thread r)) \<longrightarrow>
      (\<exists>ths' zs' cl'. tinv K ((tmove n s TNew x)\<lparr>t_sig := (t_sig x)(req_thread r := True),
        t_open := (if p_detached (descr s n) = 0 then insert n (t_open x) else t_open x)\<rparr>) ths' zs' cl'))) \<and>
    (p_retcode (descr s (req_thread r)) \<noteq> 0 \<longrightarrow>
      (\<exists>ths' zs' cl'. tinv K (x\<lparr>t_st := s, t_sig := (t_sig x)(req_thread r := True)\<rparr>) ths' zs' cl'))"
proof -
  note B = base_okD [OF take_request [OF I, of rest]]
  have "seg_used ((t_st x)\<lparr>reqs := rest\<rparr>) = seg_used (t_st x)" by (simp add: seg_used_def fun_eq_iff)
  then have "room K ((t_st x)\<lparr>reqs := rest\<rparr>)" using room by (simp add: room_def)
  from room_alloc [OF B(1) this] obtain j s1 where j: "alloc_segment K 0 ((t_st x)\<lparr>reqs := rest\<rparr>) = Some (Some j, s1)" "j < 2048"
    "seg_found K 0 ((t_st x)\<lparr>reqs := rest\<rparr>) j s1" "table_only ((t_st x)\<lparr>reqs := rest\<rparr>) s1" .
  let ?n = "THREAD_SEG K (initial_thread_bos (t_st x)) j"
  let ?s2 = "upd_th ?n (init_new_thread attr fn arg msk) s1"
  show ?thesis
  proof (cases "clone_env K ?n ?s2 = - 1")
    case True
    from inv_create_fails [OF I r j refl refl True] show ?thesis by metis
  next
    case False
    from inv_create_ok [OF pids I r j refl refl False] show ?thesis by metis
  qed
qed

lemma tinv_step:
  assumes pids: "pids_ok K" and "tstep K x y" and I: "tinv K x ths zs cl"
  shows "\<exists>ths zs cl. tinv K y ths zs cl"
  using assms(2)
proof cases
  case (create_call t attr fn arg msk)
  show ?thesis unfolding create_call(1) using inv_create_call [OF I create_call(2)] by blast
next
  case (create_return t s)
  show ?thesis unfolding create_return(1) using inv_create_return [OF I create_return(2-4)] by blast
next
  case (begin_run t)
  show ?thesis unfolding begin_run(1) using inv_begin_run [OF I begin_run(2)] by blast
next
  case (exit t v u s)
  show ?thesis unfolding exit(1) using inv_exit [OF I exit(2-4)] by blast
next
  case (exit_restart t u)
  show ?thesis unfolding exit_restart(1) using inv_exit_restart [OF I exit_restart(2)] by blast
next
  case (join_refused t th e s)
  show ?thesis unfolding join_refused(1) inv_join_refused [OF join_refused(2,4)] using I by blast
next
  case (join_sleep t th s)
  show ?thesis unfolding join_sleep(1) using inv_join_sleep [OF I join_sleep(2-4)] by blast
next
  case (join_at_once t th v s)
  show ?thesis unfolding join_at_once(1) using inv_join_at_once [OF I join_at_once(2-4)] by blast
next
  case (join_woken t th s)
  show ?thesis unfolding join_woken(1) using inv_join_woken [OF I join_woken(2-4)] by blast
next
  case (join_reads t th v s)
  show ?thesis unfolding join_reads(1) using inv_join_reads [OF I join_reads(2,3)] by blast
next
  case (join_return t th v)
  show ?thesis unfolding join_return(1) using inv_join_return [OF I join_return(2)] by blast
next
  case (detach t th r s)
  show ?thesis unfolding detach(1) using inv_detach [OF I detach(3-5)] by blast
next
  case (detach_refused t th s)
  show ?thesis using I detach_section_refused [OF detach_refused(4)] by (auto simp: detach_refused(1))
next
  case (serve_free r rest th s)
  show ?thesis unfolding serve_free(1)
    using inv_free_reaped [OF I serve_free(2,3)] inv_free_running [OF I serve_free(2,3)] serve_free(4)
    by (cases "t_ctl x th = TReaped") (simp_all, blast+)
next
  case (serve_create r rest attr fn arg msk s n)
  show ?thesis unfolding serve_create(1) using inv_serve_create [OF pids I serve_create(2-4)] serve_create(5-7)
    by (metis option.inject prod.inject)
next
  case (serve_create_fails r rest attr fn arg msk s)
  show ?thesis unfolding serve_create_fails(1)
    using inv_serve_create [OF pids I serve_create_fails(2-4)] serve_create_fails(5,6)
    by (metis option.inject prod.inject)
next
  case (reap t s)
  show ?thesis unfolding reap(1) using inv_reap [OF pids I reap(2) refl] reap(3) by auto
qed

lemma treach_inv:
  assumes "treach K x" and "pids_ok K"
  shows "\<exists>ths zs cl. tinv K x ths zs cl"
  using assms(1)
proof induction
  case (start x)
  then show ?case using tinv_start by blast
next
  case (step x y)
  then show ?case using tinv_step [OF assms(2)] by blast
qed

section \<open>No thread waits in vain\<close>

lemma deliver_returns:
  assumes "\<not> p_signal_jmp (descr s t)"
  obtains s' where "deliver t PTHREAD_SIG_RESTART s = (H_return, s')"
proof -
  have "\<exists>s'. deliver t PTHREAD_SIG_RESTART s = (H_return, s')"
    using assms by (simp add: deliver_def pthread_sighandler_def upd_th_def)
  then show thesis using that by blast
qed

lemma request_served:
  assumes pids: "pids_ok K" and I: "tinv K x ths zs cl" and room: "room K (t_st x)" and r: "reqs (t_st x) = r # rest"
  shows "\<exists>y. tstep K x y"
proof (cases "req_kind r")
  case (REQ_CREATE attr fn arg msk)
  from inv_serve_create [OF pids I r this room] obtain s where
    "handle_request K r ((t_st x)\<lparr>reqs := rest\<rparr>) = Some (Ret (), s)" by blast
  with tstep.serve_create [OF r REQ_CREATE room this _ refl] tstep.serve_create_fails [OF r REQ_CREATE room this]
  show ?thesis by blast
next
  case (REQ_FREE th)
  have "\<exists>s. handle_request K r ((t_st x)\<lparr>reqs := rest\<rparr>) = Some (Ret (), s)"
    using inv_free_reaped [OF I r REQ_FREE] inv_free_running [OF I r REQ_FREE] by blast
  then show ?thesis using tstep.serve_free [OF r REQ_FREE] by blast
qed (use tinvD(7) [OF I] r in \<open>auto simp: pipe_ok_def\<close>)

text \<open>A thread inside the library that cannot move waits in a join for a thread that has not terminated.\<close>

lemma stuck_in_join:
  assumes pids: "pids_ok K" and I: "tinv K x ths zs cl" and q: "reqs (t_st x) = []" and stuck: "\<nexists>y. tstep K x y"
    and t: "alive (t_ctl x t)" "t_ctl x t \<noteq> TRun"
  obtains th where "t_ctl x t = TJoin th" and "th \<in> set ths" and "cl th = CJoin t"
proof -
  note D = tinvD [OF I] and E = ctl_okD [OF tinvD(6) [OF I]]
  have "\<not> p_signal_jmp (descr (t_st x) t)"
    using t(1) D(2) [of t] D(4) [of t] D(5) by (auto simp: desc_ok_def)
  then obtain s where s: "deliver t PTHREAD_SIG_RESTART (t_st x) = (H_return, s)" by (rule deliver_returns)
  have "length (filter (creates t) (reqs (t_st x))) = of_bool (t_ctl x t = TCreate \<and> \<not> t_sig x t)"
    using D(7) unfolding pipe_ok_def by blast
  then have nc: "t_ctl x t \<noteq> TCreate" using tstep.create_return [OF _ _ s] stuck q by auto
  have jr: "\<exists>v s. join_read th (t_st x) = Some (v, s)" if "t_ctl x t = TJoined th" for th
  proof -
    have "cl th = CJoin t" using E(1) [of t th] that by simp
    then show ?thesis using tinv_desc(2) [OF I, of th] join_read_eq by (simp add: desc_ok_def)
  qed
  obtain th where th: "t_ctl x t = TJoin th"
  proof (cases "t_ctl x t")
    case TZombie
    then show ?thesis using inv_reap [OF pids I TZombie refl] tstep.reap [OF TZombie] stuck by blast
  next
    case TNew
    then show ?thesis using tstep.begin_run stuck by blast
  next
    case (TJoined th)
    then show ?thesis using jr tstep.join_reads stuck by blast
  next
    case (TGot th v)
    then show ?thesis using tstep.join_return stuck by blast
  next
    case (TWake u)
    then show ?thesis using tstep.exit_restart stuck by blast
  qed (use that t nc in \<open>auto simp: alive_def\<close>)
  have c: "cl th = CJoin t" using E(1) [of t th] th by simp
  have "\<not> t_sig x t" using tstep.join_woken [OF th _ s] stuck by blast
  moreover have "t_ctl x th \<noteq> TWake t" using tstep.exit_restart [of x th t K] stuck by blast
  ultimately have "\<not> over (t_ctl x th)" using E(9) [OF th] by blast
  then have "th \<notin> set zs" using D(3) [of th] by auto
  then have "th \<in> set ths" using tinv_desc(1) [OF I, of th] c by simp
  from that [OF th this c] show thesis .
qed

section \<open>Runs\<close>

text \<open>A thread is created and begins to run; a thread exits.\<close>

lemma reach_created:
  fixes attr :: "pthread_attr_t option"
  assumes R: "treach K x" and pids: "pids_ok K" and room: "room K (t_st x)" and t: "t_ctl x t = TRun" and q: "reqs (t_st x) = []"
    and cl: "\<And>u s. clone_env K u s \<noteq> - 1"
  obtains n y where "treach K y" and "t_ctl y = (t_ctl x)(n := TRun)" and "t_ctl x n = TNone"
    and "t_open y = (if (case attr of None \<Rightarrow> 0 | Some a \<Rightarrow> detachstate a) = 0 then insert n (t_open x) else t_open x)"
    and "p_detached (descr (t_st y) n) = (case attr of None \<Rightarrow> 0 | Some a \<Rightarrow> detachstate a)" and "n \<noteq> main_thread (t_st y)"
proof -
  let ?r = "\<lparr>req_thread = t, req_kind = REQ_CREATE attr NULL NULL {}\<rparr>"
  define x1 where "x1 = tmove t (send_request t (REQ_CREATE attr NULL NULL {}) (t_st x)) TCreate x"
  have R1: "treach K x1" unfolding x1_def by (rule treach.step [OF R create_call [OF t]])
  obtain ths zs c where I: "tinv K x1 ths zs c" using treach_inv [OF R1 pids] by blast
  have r: "reqs (t_st x1) = ?r # []" "req_kind ?r = REQ_CREATE attr NULL NULL {}" using q by (simp_all add: x1_def)
  have room1: "room K (t_st x1)" using room by (simp add: x1_def send_request_def room_def seg_used_def)
  have "seg_used ((t_st x1)\<lparr>reqs := []\<rparr>) = seg_used (t_st x1)" by (simp add: seg_used_def fun_eq_iff)
  then have "room K ((t_st x1)\<lparr>reqs := []\<rparr>)" using room1 by (simp add: room_def)
  from room_alloc [OF base_okD(1) [OF take_request [OF I, of "[]"]] this] obtain j s1 where
    j: "alloc_segment K 0 ((t_st x1)\<lparr>reqs := []\<rparr>) = Some (Some j, s1)" "j < 2048"
    "seg_found K 0 ((t_st x1)\<lparr>reqs := []\<rparr>) j s1" "table_only ((t_st x1)\<lparr>reqs := []\<rparr>) s1" .
  define n where "n = THREAD_SEG K (initial_thread_bos (t_st x1)) j"
  from inv_create_ok [OF pids I r j n_def refl cl] obtain s where
    s: "handle_request K ?r ((t_st x1)\<lparr>reqs := []\<rparr>) = Some (Ret (), s)" "p_retcode (descr s t) = 0" "n = p_retval (descr s t)"
      "p_detached (descr s n) = (case attr of None \<Rightarrow> 0 | Some a \<Rightarrow> detachstate a)" "t_ctl x1 n = TNone" "n \<noteq> main_thread s" by auto
  define x2 where "x2 = (tmove n s TNew x1)\<lparr>t_sig := (t_sig x1)(t := True),
    t_open := (if p_detached (descr s n) = 0 then insert n (t_open x1) else t_open x1)\<rparr>"
  have R2: "treach K x2"
    using treach.step [OF R1 serve_create [OF r room1 s(1)], of n] s(2,3) by (simp add: x2_def)
  have nt: "n \<noteq> t" using s(5) by (auto simp: x1_def)
  obtain ths2 zs2 c2 where I2: "tinv K x2 ths2 zs2 c2" using treach_inv [OF R2 pids] by blast
  have t2: "t_ctl x2 t = TCreate" "t_sig x2 t" "t_ctl x2 n = TNew" using nt by (simp_all add: x2_def x1_def)
  have "\<not> p_signal_jmp (descr (t_st x2) t)"
    using tinvD(2) [OF I2, of t] tinvD(4) [OF I2, of t] tinvD(5) [OF I2] t2(1) by (auto simp: desc_ok_def alive_def)
  then obtain s3 where s3: "deliver t PTHREAD_SIG_RESTART (t_st x2) = (H_return, s3)" by (rule deliver_returns)
  define x3 where "x3 = (tmove t s3 TRun x2)\<lparr>t_sig := (t_sig x2)(t := False)\<rparr>"
  have R3: "treach K x3" unfolding x3_def by (rule treach.step [OF R2 create_return [OF t2(1,2) s3]])
  define y where "y = tmove n (started K n (t_st x3)) TRun x3"
  have "t_ctl x3 n = TNew" using nt t2(3) by (simp add: x3_def)
  then have "treach K y" unfolding y_def by (rule treach.step [OF R3 begin_run])
  moreover have "t_ctl y = (t_ctl x)(n := TRun)" using nt t by (auto simp: y_def x3_def x2_def x1_def fun_eq_iff)
  moreover have "t_ctl x n = TNone" using s(5) nt by (simp add: x1_def)
  moreover have "t_open y = (if p_detached (descr s n) = 0 then insert n (t_open x) else t_open x)"
    by (simp add: y_def x3_def x2_def x1_def)
  moreover have "p_detached (descr (t_st y) n) = p_detached (descr s n)"
    using deliver_effect(3) [OF s3, of n] by (auto simp: y_def x3_def x2_def started_def)
  moreover have "n \<noteq> main_thread (t_st y)"
    using s(6) deliver_effect(1) [OF s3] by (simp add: y_def x3_def x2_def started_def tframe_def seg_part_def)
  ultimately show thesis using that s(4) by metis
qed

lemma reach_exited:
  assumes R: "treach K x" and pids: "pids_ok K" and t: "t_ctl x t = TRun" "t \<noteq> main_thread (t_st x)"
  obtains y where "treach K y"
    and "t_ctl y = (t_ctl x)(t := if p_joining (descr (t_st x) t) \<noteq> NULL then TWake (p_joining (descr (t_st x) t)) else TZombie)"
    and "p_detached (descr (t_st y) t) = p_detached (descr (t_st x) t)" and "p_terminated (descr (t_st y) t)"
proof -
  obtain ths zs c where I: "tinv K x ths zs c" using treach_inv [OF R pids] by blast
  have "p_spinlock (descr (t_st x) t) = 0" using tinv_desc(2) [OF I tinv_run(1) [OF I t]] by (simp add: desc_ok_def)
  from treach.step [OF R exit [OF t exit_section_eq [OF this, of NULL]]] show thesis by (rule that) simp_all
qed

text \<open>A machine with a process number for every thread, and the process after the initialisation on it.\<close>

definition pid_kern :: kern where
  "pid_kern = easy_kern\<lparr>clone_env := (\<lambda>t _. uint t), getpid_env := uint\<rparr>"

lemma pid_kern_ok: "pids_ok pid_kern" "clone_env pid_kern t s \<noteq> - 1"
proof -
  have "uint t \<noteq> - 1" for t :: addr using uint_ge_0 [of t] by linarith
  then show "pids_ok pid_kern" "clone_env pid_kern t s \<noteq> - 1"
    by (auto simp: pids_ok_def pid_kern_def easy_kern_def inj_def word_uint_eq_iff)
qed

lemma system_example:
  obtains x where "treach pid_kern x" and "t_ctl x = (\<lambda>_. TNone)(0x8000 := TRun)" and "main_thread (t_st x) = 0x8000"
    and "reqs (t_st x) = []" and "t_open x = {}" and "room pid_kern (t_st x)"
proof -
  define s1 where "s1 = pthread_initialize pid_kern 0xbffff000 (pthread_statics 0x8000 0x9000 zero_st)"
  define s2 where "s2 = snd (pthread_initialize_manager pid_kern s1)"
  define x where "x = \<lparr>t_st = s2, t_ctl = (\<lambda>_. TNone)(0x8000 := TRun), t_sig = (\<lambda>_. False), t_open = {}, t_val = (\<lambda>_. NULL)\<rparr>"
  have T: "THREAD_SEG pid_kern = THREAD_SEG easy_kern"
    by (simp add: THREAD_SEG_def sizeof_descr_def pid_kern_def fun_eq_iff)
  have k: "malloc_ok pid_kern n s" "pipe_env pid_kern s = Some (3, 4)" "mmap_ok pid_kern a s" "sizeof_pthread pid_kern = 640" for n a s
    by (simp_all add: pid_kern_def easy_kern_def)
  have b: "initial_bos 0xbffff000 = 0xbfa00000" by (simp add: initial_bos_def stack_size_def)
  have m: "pthread_initialize_manager pid_kern s1 = (0, s2)" "manager_request s2 \<ge> 0"
    using pid_kern_ok(2) by (simp_all add: s2_def pthread_initialize_manager_def Let_def k)
  have z: "stack_segments zero_st = []" "num_stack_segments zero_st = 0" "reqs zero_st = []" "\<not> main_thread_exiting zero_st"
    by (simp_all add: zero_st_def)
  have "tstart pid_kern x" unfolding x_def
    by (rule initialized_starts [OF z _ _ _ _ _ _ s1_def m]) (simp_all add: b T static_not_segment k)
  moreover have "main_thread s2 = 0x8000" "stack_segments s2 = []" "num_stack_segments s2 = 0"
    using pid_kern_ok(2)
    by (simp_all add: s2_def pthread_initialize_manager_def Let_def k s1_def pthread_initialize_def pthread_statics_def zero_st_def)
  moreover have "reqs s2 = []" using calculation(1) by (simp add: tstart_def x_def)
  ultimately show thesis
    by (intro that [of x]) (auto simp: x_def room_def k seg_used_def seg_mappable_def intro: treach.start exI [of _ 0])
qed

lemma reach_joined_exits:
  assumes R: "treach K x" and pids: "pids_ok K" and t: "t_ctl x t = TRun" and th: "t_ctl x th = TRun" "th \<in> t_open x" "th \<noteq> t"
    and nw: "\<And>u. waits (t_ctl x u) = None"
  obtains y where "treach K y" and "t_ctl y t = TJoin th" and "p_terminated (descr (t_st y) th)"
proof -
  obtain ths zs cl where I: "tinv K x ths zs cl" using treach_inv [OF R pids] by blast
  have c: "cl th = COpen"
    using ctl_okD(1) [OF tinvD(6) [OF I], of _ th] ctl_okD(2) [OF tinvD(6) [OF I], of th] th(2) nw by (cases "cl th") auto
  have "join_section t th (t_st x) = Some (Join_wait, upd_th th (p_joining_update (\<lambda>_. t)) (t_st x))"
    using open_section [OF I th(2,3)] th(1) c by simp
  from treach.step [OF R join_sleep [OF t th(2) this]] obtain x1 where R1: "treach K x1" and
    x1: "x1 = tmove t (upd_th th (p_joining_update (\<lambda>_. t)) (t_st x)) (TJoin th) x" by blast
  have "th \<noteq> main_thread (t_st x)" using tinv_desc(3) [OF I, of th] c by simp
  then have "t_ctl x1 th = TRun" "th \<noteq> main_thread (t_st x1)" "t_ctl x1 t = TJoin th" using th(1,3) by (simp_all add: x1)
  then show thesis using reach_exited [OF R1 pids] that th(3) by (metis fun_upd_other)
qed

lemma reach_zombie:
  assumes R: "treach K x" and pids: "pids_ok K" and t: "t_ctl x t = TRun" "p_detached (descr (t_st x) t) \<noteq> 0" "t \<noteq> main_thread (t_st x)"
  obtains y where "treach K y" and "t_ctl y t = TZombie" and "p_detached (descr (t_st y) t) \<noteq> 0"
proof -
  obtain ths zs c where I: "tinv K x ths zs c" using treach_inv [OF R pids] by blast
  note d = tinv_desc(2) [OF I tinv_run(1) [OF I t(1,3)]]
  have "p_joining (descr (t_st x) t) = NULL" using d t(1,2) by (auto simp: desc_ok_def)
  then show thesis using reach_exited [OF R pids t(1,3)] t(2) that by (metis fun_upd_same)
qed

lemma reach_reaped:
  assumes R: "treach K x" and pids: "pids_ok K" and t: "t_ctl x t = TZombie"
  obtains y where "tstep K x y" and "t_ctl y t = (if p_detached (descr (t_st x) t) \<noteq> 0 then TNone else TReaped)"
proof -
  obtain ths zs c where I: "tinv K x ths zs c" using treach_inv [OF R pids] by blast
  from inv_reap [OF pids I t refl] obtain s where "pthread_exited K (p_pid (descr (t_st x) t)) (t_st x) = Some (Ret (), s)" by blast
  from that [OF tstep.reap [OF t this]] show thesis by simp
qed

lemma created_example:
  obtains n y where "treach pid_kern y" and "t_ctl y = (\<lambda>_. TNone)(0x8000 := TRun, n := TRun)" and "n \<noteq> 0x8000"
    and "n \<noteq> main_thread (t_st y)" and "n \<in> t_open y \<longleftrightarrow> d = 0" and "p_detached (descr (t_st y) n) = d"
proof -
  obtain x where x: "treach pid_kern x" "t_ctl x = (\<lambda>_. TNone)(0x8000 := TRun)" "main_thread (t_st x) = 0x8000"
    "reqs (t_st x) = []" "t_open x = {}" "room pid_kern (t_st x)" by (rule system_example)
  let ?a = "\<lparr>detachstate = d, schedpolicy = 0, sched_priority = 0, inheritsched = 0, scope = 0\<rparr>"
  have "t_ctl x 0x8000 = TRun" by (simp add: x(2))
  note c = reach_created [OF x(1) pid_kern_ok(1) x(6) this x(4) pid_kern_ok(2), of "Some ?a", simplified]
  obtain n y where y: "treach pid_kern y" "t_ctl y = (t_ctl x)(n := TRun)" "t_ctl x n = TNone"
    "t_open y = (if d = 0 then insert n (t_open x) else t_open x)" "p_detached (descr (t_st y) n) = d"
    "n \<noteq> main_thread (t_st y)" by (rule c)
  have "n \<noteq> 0x8000" using y(3) x(2) by auto
  then show thesis using y(2-4) x(2,5) by (intro that [OF y(1) _ _ y(6) _ y(5)]) auto
qed

text \<open>A thread with a claim has its segment, and its requests to free are counted by the claim.\<close>

lemma claim_slot: "tinv K x ths zs cl \<Longrightarrow> cl th \<noteq> CNone \<Longrightarrow> slot K (t_st x) th"
  using base_okD(6) [OF tinvD(1)] tinv_desc(1) by blast

lemma claim_requests:
  assumes "tinv K x ths zs cl"
  shows "length (filter (frees th) (reqs (t_st x))) = of_bool (cl th = CReq)"
    and "r \<in> set (reqs (t_st x)) \<Longrightarrow> frees th r \<Longrightarrow> cl th = CReq"
proof -
  show p: "length (filter (frees th) (reqs (t_st x))) = of_bool (cl th = CReq)"
    using tinvD(7) [OF assms] unfolding pipe_ok_def by blast
  assume "r \<in> set (reqs (t_st x))" "frees th r"
  then have "filter (frees th) (reqs (t_st x)) \<noteq> []" by (auto simp: filter_empty_conv)
  then show "cl th = CReq" using p by (cases "cl th = CReq") auto
qed

section \<open>Properties\<close>

text \<open>
  C8. The threads and the manager agree, in every state that any number of threads reach in a program that
  does not detach a thread between its termination and the moment the manager has reaped it, and that does not use a thread
  it has detached or whose value it has got. The invariant of the manager's
  data holds for the lists of the threads that are alive and of those that have been reaped and not yet freed. Every
  descriptor that somebody may still use, because a thread joins it, a request to free it is in the pipe, or
  the program may join it, lies in a segment in use. No two threads join the same thread: while one waits, \<open>pthread_join\<close>
  refuses every other one with an error and changes nothing, and when it has the value the program may not join the thread any more.
  A thread with a request to free in the pipe has only this one, and nobody else may join it.
\<close>

theorem threads_and_manager_agree:
  assumes "treach K x" and "pids_ok K"
  shows "\<exists>ths zs. mgr_wf K (t_st x) ths zs \<and>
    (\<forall>t. alive (t_ctl x t) \<longleftrightarrow> t = main_thread (t_st x) \<or> t \<in> set ths) \<and> (\<forall>t. t_ctl x t = TReaped \<longleftrightarrow> t \<in> set zs) \<and>
    (\<forall>t th. joins (t_ctl x t) th \<longrightarrow> slot K (t_st x) th \<and> (\<forall>u. joins (t_ctl x u) th \<longrightarrow> u = t)) \<and>
    (\<forall>t th. waits (t_ctl x t) = Some th \<longrightarrow>
      (\<forall>u. join_section u th (t_st x) = Some (Join_error (if u = th then EDEADLK else EINVAL), t_st x))) \<and>
    (\<forall>t th v. t_ctl x t = TGot th v \<longrightarrow> th \<notin> t_open x) \<and>
    (\<forall>r \<in> set (reqs (t_st x)). \<forall>th. frees th r \<longrightarrow> slot K (t_st x) th \<and> th \<notin> t_open x \<and>
      (\<forall>u. \<not> joins (t_ctl x u) th) \<and> length (filter (frees th) (reqs (t_st x))) = 1) \<and>
    (\<forall>th \<in> t_open x. slot K (t_st x) th)"
proof -
  obtain ths zs cl where I: "tinv K x ths zs cl" using treach_inv [OF assms] by blast
  note D = tinvD [OF I] and E = ctl_okD [OF tinvD(6) [OF I]]
  note s = claim_slot [OF I] and p = claim_requests(1) [OF I] and q = claim_requests(2) [OF I]
  show ?thesis
  proof (rule exI [of _ ths], rule exI [of _ zs], intro conjI allI impI ballI)
    show "mgr_wf K (t_st x) ths zs" by (rule base_okD(1) [OF D(1)])
    show "alive (t_ctl x t) = (t = main_thread (t_st x) \<or> t \<in> set ths)" "(t_ctl x t = TReaped) = (t \<in> set zs)" for t
      by (rule D(2), rule D(3))
  next
    fix r th assume "r \<in> set (reqs (t_st x))" "frees th r"
    note c = q [OF this]
    show "slot K (t_st x) th" "th \<notin> t_open x" "length (filter (frees th) (reqs (t_st x))) = 1"
      using s [of th] E(2) [of th] p [of th] c by simp_all
    show "\<not> joins (t_ctl x u) th" for u using E(1,15) [of u th] c by (simp add: joins_def)
  next
    fix t th assume "joins (t_ctl x t) th"
    then have c: "cl th = CJoin t \<or> cl th = CGot t" using E(1,15) by (simp add: joins_def)
    show "slot K (t_st x) th" using s [of th] c by auto
    show "u = t" if "joins (t_ctl x u) th" for u using that E(1,15) [of u th] c by (auto simp: joins_def)
  next
    fix t th u assume "waits (t_ctl x t) = Some th"
    then have "cl th = CJoin t" using E(1) by simp
    then show "join_section u th (t_st x) = Some (Join_error (if u = th then EDEADLK else EINVAL), t_st x)"
      using open_section [OF I, of th u] E(2) [of th] by (cases "u = th") (simp_all add: join_section_def)
  next
    fix t th v assume "t_ctl x t = TGot th v"
    then show "th \<notin> t_open x" using E(2) [of th] E(15) [of t th] by simp
  next
    fix th assume "th \<in> t_open x"
    then have "cl th \<noteq> CNone" using E(2) [of th] by auto
    then show "slot K (t_st x) th" by (rule s)
  qed
qed

theorem threads_and_manager_agree_witness:
  "\<exists>x ths. treach pid_kern x \<and> t_ctl x 0x8000 = TRun \<and> ths \<noteq> [] \<and> mgr_wf pid_kern (t_st x) ths [] \<and>
    (\<forall>t. alive (t_ctl x t) \<longleftrightarrow> t = main_thread (t_st x) \<or> t \<in> set ths)"
proof -
  obtain n y where y: "treach pid_kern y" "t_ctl y = (\<lambda>_. TNone)(0x8000 := TRun, n := TRun)" "n \<noteq> 0x8000" "n \<noteq> main_thread (t_st y)"
    and "n \<in> t_open y \<longleftrightarrow> (0 :: int) = 0" "p_detached (descr (t_st y) n) = 0" by (rule created_example)
  obtain ths zs where
    w: "mgr_wf pid_kern (t_st y) ths zs" "\<forall>t. alive (t_ctl y t) \<longleftrightarrow> t = main_thread (t_st y) \<or> t \<in> set ths"
      "\<forall>t. t_ctl y t = TReaped \<longleftrightarrow> t \<in> set zs"
    using threads_and_manager_agree [OF y(1) pid_kern_ok(1)] by (elim exE conjE) (rule that)
  have "t \<notin> set zs" for t using w(3) [rule_format, of t, symmetric] by (simp add: y(2))
  then have "zs = []" by (cases zs) auto
  then have "mgr_wf pid_kern (t_st y) ths []" using w(1) by simp
  moreover have "n \<in> set ths" using w(2) [rule_format, of n] y(2,4) by (simp add: alive_def)
  then have "ths \<noteq> []" by auto
  moreover have "t_ctl y 0x8000 = TRun" using y(2,3) by simp
  ultimately show ?thesis using y(1) w(2) by (intro exI [of _ y] exI [of _ ths] conjI)
qed

text \<open>
  C9. A join obtains the value of the exit, and its wake-up is not lost. In every reachable state, a thread that has its value
  in \<open>pthread_join\<close> has the value that the joined thread gave to \<open>pthread_exit\<close>, and that thread has terminated; a
  thread that sleeps in \<open>pthread_join\<close> is recorded in the joined thread while that one has not terminated, and
  afterwards it is about to be restarted by it or has its restart signal pending.
\<close>

theorem join_gets_exit_value:
  assumes "treach K x" and "pids_ok K"
  shows "(\<forall>t th v. t_ctl x t = TGot th v \<longrightarrow> v = t_val x th \<and> p_terminated (descr (t_st x) th)) \<and>
    (\<forall>t th. t_ctl x t = TJoin th \<longrightarrow> (if p_terminated (descr (t_st x) th) then t_ctl x th = TWake t \<or> t_sig x t
      else p_joining (descr (t_st x) th) = t))"
proof -
  obtain ths zs cl where I: "tinv K x ths zs cl" using treach_inv [OF assms] by blast
  note E = ctl_okD [OF tinvD(6) [OF I]]
  show ?thesis
  proof (intro conjI allI impI)
    fix t th v assume t: "t_ctl x t = TGot th v"
    then have "cl th = CGot t" using E(15) [of t th] by simp
    then show "v = t_val x th" "p_terminated (descr (t_st x) th)"
      using E(7) [OF t] tinv_desc(2) [OF I, of th] by (auto simp: desc_ok_def)
  next
    fix t th assume t: "t_ctl x t = TJoin th"
    then have "cl th = CJoin t" using E(1) [of t th] by simp
    then show "if p_terminated (descr (t_st x) th) then t_ctl x th = TWake t \<or> t_sig x t else p_joining (descr (t_st x) th) = t"
      using E(9) [OF t] tinv_desc(2) [OF I, of th] by (auto simp: desc_ok_def)
  qed
qed

theorem join_gets_exit_value_witness:
  "\<exists>x t th. treach pid_kern x \<and> t_ctl x t = TJoin th \<and> p_terminated (descr (t_st x) th) \<and> (t_ctl x th = TWake t \<or> t_sig x t)"
proof -
  obtain n y where y: "treach pid_kern y" "t_ctl y = (\<lambda>_. TNone)(0x8000 := TRun, n := TRun)" "n \<noteq> 0x8000" "n \<noteq> main_thread (t_st y)"
    and "n \<in> t_open y \<longleftrightarrow> (0 :: int) = 0" "p_detached (descr (t_st y) n) = 0" by (rule created_example)
  then have o: "n \<in> t_open y" by simp
  have "t_ctl y 0x8000 = TRun" "t_ctl y n = TRun" "waits (t_ctl y u) = None" for u using y(2,3) by simp_all
  from reach_joined_exits [OF y(1) pid_kern_ok(1) this(1,2) o y(3) this(3)] obtain z where
    z: "treach pid_kern z" "t_ctl z 0x8000 = TJoin n" "p_terminated (descr (t_st z) n)" .
  have "t_ctl z n = TWake 0x8000 \<or> t_sig z 0x8000" using join_gets_exit_value [OF z(1) pid_kern_ok(1)] z(2,3) by auto
  then show ?thesis using z by (intro exI [of _ z] exI [of _ "0x8000"] exI [of _ n] conjI)
qed

text \<open>
  C10. A thread is freed exactly once, in a program that does not detach a thread between its termination and the moment the
  manager has reaped it, and that does not use a thread it has detached or whose value it has got.
  The step of a reachable state after which a thread is no longer there unmaps its stack and does nothing else to the memory: the thread had terminated, its segment is free afterwards, and nobody can refer to
  it any more, for no thread joins it, the program may not join it, and no request to free it is in the pipe.
\<close>

theorem thread_freed_once:
  assumes "treach K x" and "pids_ok K" and "tstep K x y" and "t_ctl x th \<noteq> TNone" and "t_ctl y th = TNone"
  shows "klog (t_st y) = klog (t_st x) @ [unmap_of K th] \<and> p_terminated (descr (t_st x) th) \<and> \<not> slot K (t_st y) th \<and>
    th \<notin> t_open y \<and> (\<forall>t. \<not> joins (t_ctl y t) th) \<and> (\<forall>r \<in> set (reqs (t_st y)). \<not> frees th r)"
proof -
  obtain ths zs cl where I: "tinv K x ths zs cl" using treach_inv [OF assms(1,2)] by blast
  obtain ths' zs' cl' where J: "tinv K y ths' zs' cl'" using tinv_step [OF assms(2,3) I] by blast
  note E = ctl_okD [OF tinvD(6) [OF J]]
  have c: "cl' th = CNone" using E(11) [of th] assms(5) by simp
  have "th \<notin> t_open y" "\<forall>t. \<not> joins (t_ctl y t) th" using E(1,15) [of _ th] E(2) [of th] c by (simp_all add: joins_def)
  moreover have "length (filter (frees th) (reqs (t_st y))) = 0" using tinvD(7) [OF J] c unfolding pipe_ok_def by simp
  then have "\<forall>r \<in> set (reqs (t_st y)). \<not> frees th r" by (simp add: filter_empty_conv)
  moreover have "over (t_ctl x th) \<and> klog (t_st y) = klog (t_st x) @ [unmap_of K th] \<and> \<not> slot K (t_st y) th"
    using assms(3)
  proof cases
    case (serve_free r rest u s)
    then have u: "t_ctl x th = TReaped" "u = th" using assms(4,5) by (auto split: if_splits)
    with inv_free_reaped [OF I serve_free(2,3)] serve_free(1,4) show ?thesis by auto
  next
    case (reap u s)
    then have u: "u = th" "p_detached (descr (t_st x) th) \<noteq> 0" using assms(4,5) by (auto split: if_splits)
    with inv_reap [OF assms(2) I reap(2) refl] reap show ?thesis by auto
  qed (use assms(4,5) in \<open>auto split: if_splits\<close>)
  moreover have "p_terminated (descr (t_st x) th)" if "over (t_ctl x th)"
  proof -
    have "th \<noteq> main_thread (t_st x)" using that ctl_okD(13) [OF tinvD(6) [OF I]] by auto
    then have "cl th \<noteq> CNone" using ctl_okD(11) [OF tinvD(6) [OF I], of th] assms(4) by simp
    then show ?thesis using tinv_desc(2) [OF I] that by (simp add: desc_ok_def)
  qed
  ultimately show ?thesis by blast
qed

theorem thread_freed_once_witness:
  "\<exists>x y th. treach pid_kern x \<and> tstep pid_kern x y \<and> t_ctl x th = TZombie \<and> t_ctl y th = TNone \<and>
    klog (t_st y) = klog (t_st x) @ [unmap_of pid_kern th]"
proof -
  obtain n y where y: "treach pid_kern y" "t_ctl y = (\<lambda>_. TNone)(0x8000 := TRun, n := TRun)" "n \<noteq> 0x8000" "n \<noteq> main_thread (t_st y)"
    and d: "n \<in> t_open y \<longleftrightarrow> (1 :: int) = 0" "p_detached (descr (t_st y) n) = 1" by (rule created_example)
  have n: "t_ctl y n = TRun" "p_detached (descr (t_st y) n) \<noteq> 0" using y(2) d(2) by simp_all
  obtain z where z: "treach pid_kern z" "t_ctl z n = TZombie" "p_detached (descr (t_st z) n) \<noteq> 0"
    by (rule reach_zombie [OF y(1) pid_kern_ok(1) n y(4)])
  obtain w where w: "tstep pid_kern z w" "t_ctl w n = (if p_detached (descr (t_st z) n) \<noteq> 0 then TNone else TReaped)"
    by (rule reach_reaped [OF z(1) pid_kern_ok(1) z(2)])
  have "klog (t_st w) = klog (t_st z) @ [unmap_of pid_kern n]"
    using thread_freed_once [OF z(1) pid_kern_ok(1) w(1), of n] z(2,3) w(2) by simp
  then show ?thesis using z w by (intro exI [of _ z] exI [of _ w] exI [of _ n]) simp
qed

text \<open>
  C11. Progress. As long as there is memory for another thread, in every reachable state in which no thread runs the program,
  because all of them are new, wait in \<open>pthread_create\<close> or \<open>pthread_join\<close>, are about to return or have ended, some thread or the
  manager can take a step. The main thread does not exit and nobody joins it, so the threads cannot all wait
  for each other.
\<close>

theorem thread_system_progress:
  assumes "treach K x" and "pids_ok K" and "room K (t_st x)" and "\<forall>t. t_ctl x t \<noteq> TRun"
  shows "\<exists>y. tstep K x y"
proof (rule ccontr)
  assume stuck: "\<not> (\<exists>y. tstep K x y)"
  obtain ths zs cl where I: "tinv K x ths zs cl" using treach_inv [OF assms(1,2)] by blast
  have q: "reqs (t_st x) = []"
    using request_served [OF assms(2) I assms(3)] stuck by (cases "reqs (t_st x)") auto
  let ?A = "insert (main_thread (t_st x)) (set ths)"
  have "\<exists>th. th \<in> set ths \<and> cl th = CJoin t" if "t \<in> ?A" for t
  proof -
    have "alive (t_ctl x t)" using tinvD(2) [OF I, of t] that by simp
    from stuck_in_join [OF assms(2) I q stuck this] assms(4) show ?thesis by blast
  qed
  then obtain f where f: "\<And>t. t \<in> ?A \<Longrightarrow> f t \<in> set ths \<and> cl (f t) = CJoin t" by metis
  then have "inj_on f ?A" by (intro inj_onI) (metis claim.inject)
  moreover have "f ` ?A \<subseteq> set ths" using f by auto
  ultimately have "card ?A \<le> card (set ths)" by (intro card_inj_on_le) auto
  moreover have "main_thread (t_st x) \<notin> set ths" using base_okD(2) [OF tinvD(1) [OF I]] by simp
  ultimately show False by simp
qed

theorem thread_system_progress_witness:
  "\<exists>x y. treach pid_kern x \<and> t_ctl x 0x8000 = TCreate \<and> tstep pid_kern x y"
proof -
  obtain x where x: "treach pid_kern x" "t_ctl x = (\<lambda>_. TNone)(0x8000 := TRun)" "room pid_kern (t_st x)"
    using system_example by blast
  define y where "y = tmove 0x8000 (send_request 0x8000 (REQ_CREATE None NULL NULL {}) (t_st x)) TCreate x"
  have "treach pid_kern y" unfolding y_def by (rule treach.step [OF x(1) create_call]) (simp add: x(2))
  moreover have "room pid_kern (t_st y)" using x(3) by (simp add: y_def send_request_def room_def seg_used_def)
  moreover have "\<forall>t. t_ctl y t \<noteq> TRun" "t_ctl y 0x8000 = TCreate" by (simp_all add: y_def x(2))
  ultimately obtain z where "tstep pid_kern y z" using thread_system_progress [OF _ pid_kern_ok(1)] by blast
  then show ?thesis using \<open>treach pid_kern y\<close> \<open>t_ctl y 0x8000 = TCreate\<close> by (intro exI [of _ y] exI [of _ z] conjI)
qed

end
