(* ===== verification/Signals.thy ===== *)
theory Signals
  imports Cancel
begin

text \<open>
  Signals for threads (\<open>signals.c\<close>): the signal mask, which must keep the restart signal blocked and the
  cancel signal unblocked, \<open>pthread_kill\<close>, and \<open>sigwait\<close>.
\<close>

definition SIG_BLOCK :: int where [simp]: "SIG_BLOCK = 0"
definition SIG_UNBLOCK :: int where [simp]: "SIG_UNBLOCK = 1"
definition SIG_SETMASK :: int where [simp]: "SIG_SETMASK = 2"
definition SIGSTOP :: nat where [simp]: "SIGSTOP = 19"

text \<open>
  The system call \<open>sigprocmask\<close>: the result, what it stores through the pointer to the old mask, and the new state. A call
  that fails stores nothing. \<open>SIGKILL\<close> and \<open>SIGSTOP\<close> cannot be blocked.
\<close>

definition sigprocmask :: "pthread_t \<Rightarrow> int \<Rightarrow> sigset \<Rightarrow> st \<Rightarrow> int \<times> sigset option \<times> st" where
  "sigprocmask self how msk s =
     (let old = sigmask s self;
          put = (\<lambda>new. s\<lparr>sigmask := (sigmask s)(self := new - {SIGKILL, SIGSTOP})\<rparr>)
      in if how = SIG_SETMASK then (0, Some old, put msk)
         else if how = SIG_BLOCK then (0, Some old, put (old \<union> msk))
         else if how = SIG_UNBLOCK then (0, Some old, put (old - msk))
         else (- 1, None, s))"

text \<open>
  The pointer \<open>newmask\<close> is dereferenced first; \<open>None\<close> stands for a NULL pointer, and for the fault that it
  causes. An invalid \<open>how\<close> is reported as \<open>errno\<close>, which \<open>sigprocmask\<close> then has set to \<open>EINVAL\<close>.
\<close>

definition pthread_sigmask :: "pthread_t \<Rightarrow> int \<Rightarrow> sigset option \<Rightarrow> st \<Rightarrow> (int \<times> sigset option \<times> st) option" where
  "pthread_sigmask self how newmask s =
     (case newmask of None \<Rightarrow> None
      | Some new \<Rightarrow>
        let msk = (if how = SIG_SETMASK then insert PTHREAD_SIG_RESTART new - {PTHREAD_SIG_CANCEL}
                   else if how = SIG_BLOCK then new - {PTHREAD_SIG_CANCEL}
                   else if how = SIG_UNBLOCK then new - {PTHREAD_SIG_RESTART}
                   else new);
            (r, oldmask, s) = sigprocmask self how msk s
        in if r = - 1 then Some (EINVAL, oldmask, s) else Some (0, oldmask, s))"

definition pthread_kill :: "kern \<Rightarrow> pthread_t \<Rightarrow> nat \<Rightarrow> st \<Rightarrow> int \<times> st" where
  "pthread_kill K thread signo s =
     (if kill_errno K (p_pid (descr s thread)) signo \<noteq> 0 then (kill_errno K (p_pid (descr s thread)) signo, s)
      else (0, kill (p_pid (descr s thread)) signo s))"

section \<open>Waiting for signals\<close>

text \<open>
  The two loops of \<open>sigwait\<close> over the signals: the first one takes the signals of the set out of the mask,
  saves their handlers and installs \<open>__pthread_sighandler\<close>, the second one puts the saved handlers back.
  Entries of the array of saved handlers that were never written are never read.
\<close>

primrec sigwait_install ::
  "sigset \<Rightarrow> nat list \<Rightarrow> sigset \<Rightarrow> (nat \<Rightarrow> sa_handler) \<Rightarrow> (nat \<Rightarrow> sa_handler) \<Rightarrow>
     sigset \<times> (nat \<Rightarrow> sa_handler) \<times> (nat \<Rightarrow> sa_handler)" where
  "sigwait_install sset [] msk saved h = (msk, saved, h)"
| "sigwait_install sset (n # ns) msk saved h =
     (if n \<in> sset \<and> n \<noteq> PTHREAD_SIG_CANCEL
      then sigwait_install sset ns (msk - {n}) (saved(n := h n)) (h(n := SA_sighandler))
      else sigwait_install sset ns msk saved h)"

primrec sigwait_restore :: "sigset \<Rightarrow> nat list \<Rightarrow> (nat \<Rightarrow> sa_handler) \<Rightarrow> (nat \<Rightarrow> sa_handler) \<Rightarrow> nat \<Rightarrow> sa_handler" where
  "sigwait_restore sset [] saved h = h"
| "sigwait_restore sset (n # ns) saved h =
     sigwait_restore sset ns saved (if n \<in> sset \<and> n \<noteq> PTHREAD_SIG_CANCEL then h(n := saved n) else h)"

definition sigwait_enter :: "kern \<Rightarrow> sigset \<Rightarrow> st \<Rightarrow> sigset \<times> (nat \<Rightarrow> sa_handler) \<times> st" where
  "sigwait_enter K sset s =
     (let (msk, saved, h) = sigwait_install sset [0..<nsig K] (- {PTHREAD_SIG_CANCEL}) (\<lambda>_. SA_default) (sighandlers s)
      in (msk, saved, s\<lparr>sighandlers := h\<rparr>))"

definition sigwait_leave :: "kern \<Rightarrow> pthread_t \<Rightarrow> sigset \<Rightarrow> (nat \<Rightarrow> sa_handler) \<Rightarrow> st \<Rightarrow> (int \<times> nat) res" where
  "sigwait_leave K self sset saved s =
     (let s = upd_th self (p_cancel_jmp_update (\<lambda>_. False)) s;
          s = s\<lparr>sighandlers := sigwait_restore sset [0..<nsig K] saved (sighandlers s)\<rparr>
      in and_then (pthread_testcancel self s) (\<lambda>_ s. Some (Ret (0, p_signal (descr s self)), s)))"

text \<open>What the handler installed for a signal does.\<close>

definition dispatch :: "pthread_t \<Rightarrow> nat \<Rightarrow> st \<Rightarrow> handler_result \<times> st" where
  "dispatch self sig s =
     (case sighandlers s sig of
        SA_sighandler \<Rightarrow> pthread_sighandler self sig s
      | SA_sigcancel \<Rightarrow> pthread_handle_sigcancel self s
      | SA_user f \<Rightarrow> (H_return, s)
      | SA_default \<Rightarrow> (H_return, s))"

definition sigwait :: "env \<Rightarrow> kern \<Rightarrow> pthread_t \<Rightarrow> sigset \<Rightarrow> st \<Rightarrow> (int \<times> nat) res" where
  "sigwait E K self sset s =
     (let (msk, saved, s) = sigwait_enter K sset s;
          saved_mask = sigmask s self;
          s = upd_th self (p_cancel_jmp_update (\<lambda>_. True)) s
      in if cancel_pending self s then sigwait_leave K self sset saved s
         else
           let s = upd_th self (p_signal_update (\<lambda>_. 0)) s
           in (case sigsuspend_env E self msk s of None \<Rightarrow> None
               | Some (sig, s) \<Rightarrow>
                 (case dispatch self sig s of
                    (H_return, s) \<Rightarrow> sigwait_leave K self sset saved s
                  | (H_jump, s) \<Rightarrow> sigwait_leave K self sset saved (s\<lparr>sigmask := (sigmask s)(self := saved_mask)\<rparr>)
                  | (H_pexit v, s) \<Rightarrow> Some (PExit v, s)
                  | (H_exit c, s) \<Rightarrow> Some (Exit c, s))))"

section \<open>The loops\<close>

lemma sigwait_install_eq:
  "distinct ns \<Longrightarrow> sigwait_install sset ns msk saved h =
     (msk - {n. n \<in> set ns \<and> n \<in> sset \<and> n \<noteq> PTHREAD_SIG_CANCEL},
      (\<lambda>n. if n \<in> set ns \<and> n \<in> sset \<and> n \<noteq> PTHREAD_SIG_CANCEL then h n else saved n),
      (\<lambda>n. if n \<in> set ns \<and> n \<in> sset \<and> n \<noteq> PTHREAD_SIG_CANCEL then SA_sighandler else h n))"
  by (induction ns arbitrary: msk saved h) (auto simp: fun_eq_iff)

lemma sigwait_restore_eq:
  "sigwait_restore sset ns saved h =
     (\<lambda>n. if n \<in> set ns \<and> n \<in> sset \<and> n \<noteq> PTHREAD_SIG_CANCEL then saved n else h n)"
  by (induction ns arbitrary: h) (auto simp: fun_eq_iff)

text \<open>The signals that \<open>sigwait\<close> takes over.\<close>

definition awaited :: "kern \<Rightarrow> sigset \<Rightarrow> nat \<Rightarrow> bool" where
  "awaited K sset n \<longleftrightarrow> n < nsig K \<and> n \<in> sset \<and> n \<noteq> PTHREAD_SIG_CANCEL"

lemma sigwait_enter_eq:
  "sigwait_enter K sset s =
     (- {n. n = PTHREAD_SIG_CANCEL \<or> awaited K sset n},
      (\<lambda>n. if awaited K sset n then sighandlers s n else SA_default),
      s\<lparr>sighandlers := \<lambda>n. if awaited K sset n then SA_sighandler else sighandlers s n\<rparr>)"
  unfolding sigwait_enter_def by (simp add: sigwait_install_eq awaited_def) auto

lemma sigwait_leave_eq:
  "sigwait_leave K self sset saved s =
     (let s' = upd_th self (p_cancel_jmp_update (\<lambda>_. False)) s in
      and_then (pthread_testcancel self
        (s'\<lparr>sighandlers := \<lambda>n. if awaited K sset n then saved n else sighandlers s n\<rparr>))
       (\<lambda>_ s. Some (Ret (0, p_signal (descr s self)), s)))"
  unfolding sigwait_leave_def sigwait_restore_eq awaited_def Let_def upd_th_simps by simp

section \<open>Properties\<close>

text \<open>A sequence of calls of \<open>pthread_sigmask\<close> by one thread.\<close>

fun sigmasks :: "pthread_t \<Rightarrow> (int \<times> sigset) list \<Rightarrow> st \<Rightarrow> st" where
  "sigmasks self [] s = s"
| "sigmasks self ((how, new) # calls) s =
     sigmasks self calls (case pthread_sigmask self how (Some new) s of Some (_, _, s') \<Rightarrow> s' | None \<Rightarrow> s)"

text \<open>Restart blocked, cancel unblocked: what suspension and cancellation rely on.\<close>

definition mask_ok :: "sigset \<Rightarrow> bool" where
  "mask_ok m \<longleftrightarrow> PTHREAD_SIG_RESTART \<in> m \<and> PTHREAD_SIG_CANCEL \<notin> m"

lemma pthread_sigmask_effect:
  "pthread_sigmask self how (Some new) s =
     (if how = SIG_SETMASK then Some (0, Some (sigmask s self),
        s\<lparr>sigmask := (sigmask s)(self := insert PTHREAD_SIG_RESTART new - {PTHREAD_SIG_CANCEL, SIGKILL, SIGSTOP})\<rparr>)
      else if how = SIG_BLOCK then Some (0, Some (sigmask s self),
        s\<lparr>sigmask := (sigmask s)(self := sigmask s self \<union> (new - {PTHREAD_SIG_CANCEL}) - {SIGKILL, SIGSTOP})\<rparr>)
      else if how = SIG_UNBLOCK then Some (0, Some (sigmask s self),
        s\<lparr>sigmask := (sigmask s)(self := sigmask s self - (new - {PTHREAD_SIG_RESTART}) - {SIGKILL, SIGSTOP})\<rparr>)
      else Some (EINVAL, None, s))"
  by (simp add: pthread_sigmask_def sigprocmask_def Let_def Diff_insert2 [symmetric] insert_commute)

text \<open>
  C31. The signal masks that the library relies on cannot be broken through \<open>pthread_sigmask\<close>: after any
  sequence of calls, with any masks and any values of \<open>how\<close>, the restart signal is still blocked and the
  cancel signal still unblocked. For every other signal, except \<open>SIGKILL\<close> and \<open>SIGSTOP\<close>, a call has the
  effect that its \<open>how\<close> asks for, it gives the old mask back, and it affects no other thread; with an invalid \<open>how\<close> it
  returns \<open>EINVAL\<close>, gives nothing back and changes nothing.
\<close>

theorem sigmask_keeps_library_signals:
  assumes "mask_ok (sigmask s self)"
  shows "mask_ok (sigmask (sigmasks self calls s) self) \<and>
    (\<forall>how new. \<exists>s'. pthread_sigmask self how (Some new) s =
        (if how \<in> {SIG_SETMASK, SIG_BLOCK, SIG_UNBLOCK} then Some (0, Some (sigmask s self), s') else Some (EINVAL, None, s')) \<and>
      (how \<notin> {SIG_SETMASK, SIG_BLOCK, SIG_UNBLOCK} \<longrightarrow> s' = s) \<and>
      (\<forall>t. t \<noteq> self \<longrightarrow> sigmask s' t = sigmask s t) \<and>
      (\<forall>sig. sig \<notin> {PTHREAD_SIG_RESTART, PTHREAD_SIG_CANCEL, SIGKILL, SIGSTOP} \<longrightarrow>
        (sig \<in> sigmask s' self) = (if how = SIG_SETMASK then sig \<in> new
          else if how = SIG_BLOCK then sig \<in> sigmask s self \<or> sig \<in> new
          else if how = SIG_UNBLOCK then sig \<in> sigmask s self \<and> sig \<notin> new
          else sig \<in> sigmask s self)))"
proof
  show "mask_ok (sigmask (sigmasks self calls s) self)"
    using assms
  proof (induction self calls s rule: sigmasks.induct)
    case (2 self how new calls s)
    then show ?case by (simp add: pthread_sigmask_effect mask_ok_def)
  qed simp
qed (auto simp: pthread_sigmask_effect)

theorem sigmask_keeps_library_signals_witness:
  "mask_ok (sigmask (sigmasks 8 [(SIG_SETMASK, {}), (SIG_UNBLOCK, UNIV), (SIG_BLOCK, UNIV)]
     (zero_st\<lparr>sigmask := \<lambda>_. {PTHREAD_SIG_RESTART}\<rparr>)) 8)"
proof -
  have "mask_ok (sigmask (zero_st\<lparr>sigmask := \<lambda>_. {PTHREAD_SIG_RESTART}\<rparr>) 8)" by (simp add: mask_ok_def)
  from sigmask_keeps_library_signals [OF this] show ?thesis by blast
qed

text \<open>
  \<open>sigwait\<close> returns the signal it was waiting for. When a thread that is not being cancelled calls \<open>sigwait\<close>
  and one of the signals of the set arrives, while the other threads leave its descriptor and the signal
  handlers alone, the call returns 0 and that signal, and all signal handlers are again as they were.
\<close>

theorem sigwait_returns_signal:
  assumes "\<not> cancel_pending self s" and "self \<noteq> manager_thread s" and "\<not> p_signal_jmp (descr s self)"
    and "awaited K sset sig" and "\<And>m u. sigsuspend_env E self m u = Some (sig, u)"
  shows "\<exists>s'. sigwait E K self sset s = Some (Ret (0, sig), s') \<and> sighandlers s' = sighandlers s \<and>
    sigmask s' = sigmask s"
proof -
  define h where "h = (\<lambda>n. if awaited K sset n then SA_sighandler else sighandlers s n)"
  define s1 where "s1 = upd_th self (\<lambda>d. d\<lparr>p_cancel_jmp := True, p_signal := sig\<rparr>) (s\<lparr>sighandlers := h\<rparr>)"
  define s2 where "s2 = (upd_th self (p_cancel_jmp_update (\<lambda>_. False)) s1)\<lparr>sighandlers := sighandlers s\<rparr>"
  have ne: "\<not> cancel_pending self (upd_th self (p_cancel_jmp_update (\<lambda>_. True)) (s\<lparr>sighandlers := h\<rparr>))"
    using assms(1) by (simp add: cancel_pending_def)
  let ?u = "upd_th self (p_signal_update (\<lambda>_. 0)) (upd_th self (p_cancel_jmp_update (\<lambda>_. True)) (s\<lparr>sighandlers := h\<rparr>))"
  have "sighandlers ?u sig = SA_sighandler" using assms(4) by (simp add: h_def)
  moreover have "upd_th self (p_signal_update (\<lambda>_. sig)) ?u = s1" by (simp add: s1_def upd_th_def)
  ultimately have d: "dispatch self sig ?u = (H_return, s1)"
    using assms(2,3) by (simp add: dispatch_def pthread_sighandler_def s1_def)
  have "(\<lambda>n. if awaited K sset n then if awaited K sset n then sighandlers s n else SA_default
      else sighandlers s1 n) = sighandlers s" by (auto simp: s1_def h_def)
  moreover have "\<not> (p_canceled (descr s2 self) \<and> p_cancelstate (descr s2 self) = PTHREAD_CANCEL_ENABLE)"
    using assms(1) by (simp add: s2_def s1_def cancel_pending_def)
  ultimately have l: "sigwait_leave K self sset (\<lambda>n. if awaited K sset n then sighandlers s n else SA_default) s1 =
      Some (Ret (0, sig), s2)"
    unfolding sigwait_leave_eq Let_def s2_def pthread_testcancel_def by (simp add: s1_def cancel_pending_def)
  have "sigwait E K self sset s = Some (Ret (0, sig), s2)"
    unfolding sigwait_def sigwait_enter_eq h_def [symmetric] using ne d l by (simp add: assms(5) Let_def)
  then show ?thesis by (simp add: s2_def s1_def)
qed

theorem sigwait_returns_signal_witness:
  "\<exists>s'. sigwait (prompt_env\<lparr>sigsuspend_env := \<lambda>_ _ u. Some (2, u)\<rparr>) easy_kern 8 {2, 3} (zero_st\<lparr>manager_thread := 16\<rparr>) =
    Some (Ret (0, 2), s')"
proof -
  let ?s = "zero_st\<lparr>manager_thread := 16\<rparr>" and ?E = "prompt_env\<lparr>sigsuspend_env := \<lambda>_ _ u. Some (2, u)\<rparr>"
  have "\<not> cancel_pending 8 ?s" "8 \<noteq> manager_thread ?s" "\<not> p_signal_jmp (descr ?s 8)" "awaited easy_kern {2, 3} 2"
    by (simp_all add: cancel_pending_def zero_st_def zero_descr_def awaited_def easy_kern_def)
  moreover have "sigsuspend_env ?E 8 m u = Some (2, u)" for m u by simp
  ultimately show ?thesis using sigwait_returns_signal [of 8 ?s easy_kern "{2, 3}" 2 ?E] by blast
qed

text \<open>
  Overlapping calls of \<open>sigwait\<close> lose signal handlers. If a second thread starts to wait for a signal
  while a first one is waiting for it, and the first one wakes up first, then after both have returned the
  handler of the signal is that of the library, whatever it was before.
\<close>

theorem overlapping_sigwait_loses_handler:
  assumes "awaited K sset sig" and "sigwait_enter K sset s = (m1, saved1, s1)" and "sigwait_enter K sset s1 = (m2, saved2, s2)"
    and "\<not> cancel_pending a s" and "\<not> cancel_pending b s"
  shows "\<exists>r1 s3 r2 s4. sigwait_leave K a sset saved1 s2 = Some (Ret r1, s3) \<and>
    sigwait_leave K b sset saved2 s3 = Some (Ret r2, s4) \<and>
    sighandlers s3 sig = sighandlers s sig \<and> sighandlers s4 sig = SA_sighandler"
proof -
  have d: "descr s2 = descr s" using assms(2,3) by (auto simp: sigwait_enter_eq)
  define s3 where "s3 = (upd_th a (p_cancel_jmp_update (\<lambda>_. False)) s2)\<lparr>sighandlers :=
    \<lambda>n. if awaited K sset n then saved1 n else sighandlers s2 n\<rparr>"
  define s4 where "s4 = (upd_th b (p_cancel_jmp_update (\<lambda>_. False)) s3)\<lparr>sighandlers :=
    \<lambda>n. if awaited K sset n then saved2 n else sighandlers s3 n\<rparr>"
  have "\<not> cancel_pending a s3" "\<not> cancel_pending b s4"
    using assms(4,5) d by (auto simp: s4_def s3_def cancel_pending_def)
  then have "sigwait_leave K a sset saved1 s2 = Some (Ret (0, p_signal (descr s3 a)), s3)"
    "sigwait_leave K b sset saved2 s3 = Some (Ret (0, p_signal (descr s4 b)), s4)"
    unfolding sigwait_leave_eq Let_def s3_def [symmetric] s4_def [symmetric] pthread_testcancel_def cancel_pending_def
    by simp_all
  moreover have "sighandlers s3 sig = sighandlers s sig" "sighandlers s4 sig = SA_sighandler"
    using assms(1-3) by (auto simp: s3_def s4_def sigwait_enter_eq)
  ultimately show ?thesis by blast
qed

theorem overlapping_sigwait_loses_handler_witness:
  "\<exists>m1 saved1 s1 m2 saved2 s2 r1 s3 r2 s4.
    sigwait_enter easy_kern {2} (zero_st\<lparr>sighandlers := \<lambda>_. SA_user 0x400\<rparr>) = (m1, saved1, s1) \<and>
    sigwait_enter easy_kern {2} s1 = (m2, saved2, s2) \<and>
    sigwait_leave easy_kern 8 {2} saved1 s2 = Some (Ret r1, s3) \<and>
    sigwait_leave easy_kern 16 {2} saved2 s3 = Some (Ret r2, s4) \<and>
    sighandlers s3 2 = SA_user 0x400 \<and> sighandlers s4 2 = SA_sighandler"
proof -
  let ?s = "zero_st\<lparr>sighandlers := \<lambda>_. SA_user 0x400\<rparr>"
  obtain m1 saved1 s1 where e1: "sigwait_enter easy_kern {2} ?s = (m1, saved1, s1)"
    by (cases "sigwait_enter easy_kern {2} ?s")
  obtain m2 saved2 s2 where e2: "sigwait_enter easy_kern {2} s1 = (m2, saved2, s2)"
    by (cases "sigwait_enter easy_kern {2} s1")
  have "awaited easy_kern {2} 2" "\<not> cancel_pending 8 ?s" "\<not> cancel_pending 16 ?s" "sighandlers ?s 2 = SA_user 0x400"
    by (simp_all add: awaited_def easy_kern_def cancel_pending_def zero_st_def zero_descr_def)
  with overlapping_sigwait_loses_handler [OF _ e1 e2, of 2 8 16] e1 e2 show ?thesis by metis
qed

end
