(* ===== verification/Lockfile.thy ===== *)
theory Lockfile
  imports Mutex
begin

text \<open>
  Locks of stdio streams (\<open>lockfile.c\<close>, built with \<open>USE_IN_LIBIO\<close>). The stream structure belongs to the C
  library; what this code uses of it, the lock and the link to the next open stream, is the argument
  \<open>files\<close>, and the head of the list of open streams is \<open>io_list_all\<close>.
\<close>

record io_file =
  io_lock :: addr
  io_chain :: addr

definition flockfile :: "env \<Rightarrow> pthread_t \<Rightarrow> (addr \<Rightarrow> io_file) \<Rightarrow> addr \<Rightarrow> st \<Rightarrow> unit res" where
  "flockfile E self files stream s =
     and_then (pthread_mutex_lock E self (io_lock (files stream)) s) (\<lambda>_ s. Some (Ret (), s))"

definition funlockfile :: "(addr \<Rightarrow> io_file) \<Rightarrow> addr \<Rightarrow> st \<Rightarrow> st option" where
  "funlockfile files stream s = do {
     (_, s) \<leftarrow> pthread_mutex_unlock (io_lock (files stream)) s;
     Some s }"

definition ftrylockfile :: "pthread_t \<Rightarrow> (addr \<Rightarrow> io_file) \<Rightarrow> addr \<Rightarrow> st \<Rightarrow> (int \<times> st) option" where
  "ftrylockfile self files stream s = pthread_mutex_trylock self (io_lock (files stream)) s"

partial_function (option) resetlock_loop ::
  "(addr \<Rightarrow> io_file) \<Rightarrow> pthread_mutexattr_t \<Rightarrow> addr \<Rightarrow> st \<Rightarrow> st option" where
  "resetlock_loop files attr fp s =
     (if fp \<noteq> NULL then
        resetlock_loop files attr (io_chain (files fp)) (snd (pthread_mutex_init (io_lock (files fp)) (Some attr) s))
      else Some s)"

text \<open>The attribute object is a local variable, so its initial value does not matter.\<close>

definition fresetlockfiles :: "(addr \<Rightarrow> io_file) \<Rightarrow> addr \<Rightarrow> st \<Rightarrow> st option" where
  "fresetlockfiles files io_list_all s =
     (let attr = snd (pthread_mutexattr_init \<lparr>mutexkind = 0\<rparr>);
          attr = snd (pthread_mutexattr_setkind_np attr PTHREAD_MUTEX_RECURSIVE_NP)
      in resetlock_loop files attr io_list_all s)"

section \<open>Resetting the locks\<close>

lemma resetlock_chain:
  assumes "chain (\<lambda>f. io_chain (files f)) NULL fp fps"
  shows "\<exists>s'. resetlock_loop files \<lparr>mutexkind = PTHREAD_MUTEX_RECURSIVE_NP\<rparr> fp s = Some s' \<and>
    mutexes s' = (\<lambda>mu. if mu \<in> (\<lambda>f. io_lock (files f)) ` set fps then PTHREAD_RECURSIVE_MUTEX_INITIALIZER_NP
       else mutexes s mu) \<and> s' = s\<lparr>mutexes := mutexes s'\<rparr>"
  using assms
proof (induction fps arbitrary: fp s)
  case Nil
  then show ?case by (subst resetlock_loop.simps) simp
next
  case (Cons f fps)
  define s1 where "s1 = snd (pthread_mutex_init (io_lock (files f)) (Some \<lparr>mutexkind = PTHREAD_MUTEX_RECURSIVE_NP\<rparr>) s)"
  have s1: "s1 = s\<lparr>mutexes := (mutexes s)(io_lock (files f) := PTHREAD_RECURSIVE_MUTEX_INITIALIZER_NP)\<rparr>"
    by (simp add: s1_def pthread_mutex_init_def upd_mutex_def queue_init_def PTHREAD_RECURSIVE_MUTEX_INITIALIZER_NP_def)
  from Cons.prems have fp: "fp = f" "f \<noteq> NULL" and c: "chain (\<lambda>f. io_chain (files f)) NULL (io_chain (files f)) fps"
    by auto
  from Cons.IH [OF c, of s1] obtain s' where r: "resetlock_loop files \<lparr>mutexkind = PTHREAD_MUTEX_RECURSIVE_NP\<rparr> (io_chain (files f)) s1 = Some s'"
    and m: "mutexes s' = (\<lambda>mu. if mu \<in> (\<lambda>f. io_lock (files f)) ` set fps then PTHREAD_RECURSIVE_MUTEX_INITIALIZER_NP else mutexes s1 mu)"
    and fr: "s' = s1\<lparr>mutexes := mutexes s'\<rparr>" by blast
  have "resetlock_loop files \<lparr>mutexkind = PTHREAD_MUTEX_RECURSIVE_NP\<rparr> fp s = Some s'"
    using r fp by (subst resetlock_loop.simps) (simp add: s1_def)
  moreover have "mutexes s' = (\<lambda>mu. if mu \<in> (\<lambda>f. io_lock (files f)) ` set (f # fps) then PTHREAD_RECURSIVE_MUTEX_INITIALIZER_NP
       else mutexes s mu)" unfolding m by (auto simp: s1)
  moreover have "s' = s\<lparr>mutexes := mutexes s'\<rparr>" by (subst fr) (simp add: s1)
  ultimately show ?case by blast
qed

lemma fresetlockfiles_effect:
  assumes "chain (\<lambda>f. io_chain (files f)) NULL io_list_all fps"
  shows "\<exists>s'. fresetlockfiles files io_list_all s = Some s' \<and>
    mutexes s' = (\<lambda>mu. if mu \<in> (\<lambda>f. io_lock (files f)) ` set fps then PTHREAD_RECURSIVE_MUTEX_INITIALIZER_NP
       else mutexes s mu) \<and> s' = s\<lparr>mutexes := mutexes s'\<rparr>"
  using resetlock_chain [OF assms, of s]
  by (simp add: fresetlockfiles_def pthread_mutexattr_init_def pthread_mutexattr_setkind_np_def Let_def)

section \<open>Properties\<close>

text \<open>
  In the child of a \<open>fork\<close>, \<open>__fresetlockfiles\<close> makes every open stream usable: it terminates for any list
  of open streams, whatever state their locks are in, and afterwards \<open>__ftrylockfile\<close> of any open stream
  succeeds for any thread, repeatedly for the same thread; mutexes that are not locks of streams are
  untouched.
\<close>

theorem reset_streams_can_be_locked:
  assumes "chain (\<lambda>f. io_chain (files f)) NULL io_list_all fps"
  shows "\<exists>s1. fresetlockfiles files io_list_all s = Some s1 \<and>
    (\<forall>mu. mu \<notin> (\<lambda>f. io_lock (files f)) ` set fps \<longrightarrow> mutexes s1 mu = mutexes s mu) \<and>
    (\<forall>f \<in> set fps. \<exists>s2 s3. ftrylockfile self files f s1 = Some (0, s2) \<and> ftrylockfile self files f s2 = Some (0, s3) \<and>
      m_owner (mutexes s3 (io_lock (files f))) = self \<and> m_count (mutexes s3 (io_lock (files f))) = 2)"
proof -
  obtain s1 where s1: "fresetlockfiles files io_list_all s = Some s1"
    "mutexes s1 = (\<lambda>mu. if mu \<in> (\<lambda>f. io_lock (files f)) ` set fps then PTHREAD_RECURSIVE_MUTEX_INITIALIZER_NP
       else mutexes s mu)"
    using fresetlockfiles_effect [OF assms] by blast
  have "\<exists>s2 s3. ftrylockfile self files f s1 = Some (0, s2) \<and> ftrylockfile self files f s2 = Some (0, s3) \<and>
      m_owner (mutexes s3 (io_lock (files f))) = self \<and> m_count (mutexes s3 (io_lock (files f))) = 2"
    if "f \<in> set fps" for f
  proof -
    have "mutexes s1 (io_lock (files f)) = PTHREAD_RECURSIVE_MUTEX_INITIALIZER_NP" using s1(2) that by auto
    then show ?thesis
      by (simp add: ftrylockfile_def pthread_mutex_trylock_def acquire_mutex_eq PTHREAD_RECURSIVE_MUTEX_INITIALIZER_NP_def)
  qed
  then show ?thesis using s1 by auto
qed

theorem reset_streams_can_be_locked_witness:
  "\<exists>s1 s2. fresetlockfiles (\<lambda>f. \<lparr>io_lock = f + 4, io_chain = (if f = 0x100 then 0x200 else NULL)\<rparr>) 0x100
      (zero_st\<lparr>mutexes := \<lambda>_. PTHREAD_MUTEX_INITIALIZER\<lparr>m_count := 1, m_spinlock := 1\<rparr>\<rparr>) = Some s1 \<and>
    ftrylockfile 8 (\<lambda>f. \<lparr>io_lock = f + 4, io_chain = (if f = 0x100 then 0x200 else NULL)\<rparr>) 0x200 s1 = Some (0, s2)"
proof -
  let ?f = "\<lambda>f :: addr. \<lparr>io_lock = f + 4, io_chain = (if f = 0x100 then 0x200 else NULL)\<rparr>"
  have "chain (\<lambda>f. io_chain (?f f)) NULL 0x100 [0x100, 0x200]" by simp
  from reset_streams_can_be_locked [OF this, of "zero_st\<lparr>mutexes := \<lambda>_. PTHREAD_MUTEX_INITIALIZER\<lparr>m_count := 1, m_spinlock := 1\<rparr>\<rparr>" 8]
  show ?thesis by force
qed

end
