(* ===== verification/Ptfork.thy ===== *)
theory Ptfork
  imports Pthread_Main Lockfile
begin

text \<open>
  \<open>fork\<close> and the handlers that run around it (\<open>ptfork.c\<close>). The lists of handlers are singly linked; a block
  for the three nodes of a registration comes from \<open>malloc\<close>.
\<close>

section \<open>Registration\<close>

text \<open>The loop \<open>while (*list != NULL) list = &(( *list)->next);\<close> started at a node: the last node.\<close>

partial_function (option) list_end :: "(addr \<Rightarrow> handler_list) \<Rightarrow> addr \<Rightarrow> addr option" where
  "list_end h p = (if hl_next (h p) \<noteq> NULL then list_end h (hl_next (h p)) else Some p)"

text \<open>The head of the list and the memory of the nodes, after the insertion.\<close>

definition pthread_insert_list ::
  "addr \<Rightarrow> addr \<Rightarrow> addr \<Rightarrow> bool \<Rightarrow> (addr \<Rightarrow> handler_list) \<Rightarrow> (addr \<times> (addr \<Rightarrow> handler_list)) option" where
  "pthread_insert_list list fn newlist at_end h =
     (if fn = NULL then Some (list, h)
      else if at_end \<and> list \<noteq> NULL then do {
        p \<leftarrow> list_end h list;
        let h = h(newlist := \<lparr>handler = fn, hl_next = hl_next (h p)\<rparr>);
        Some (list, h(p := (h p)\<lparr>hl_next := newlist\<rparr>)) }
      else Some (newlist, h(newlist := \<lparr>handler = fn, hl_next = list\<rparr>)))"

definition sizeof_block :: nat where "sizeof_block = 24"

text \<open>The nodes \<open>block->prepare\<close>, \<open>block->parent\<close> and \<open>block->child\<close> are 8 bytes apart.\<close>

definition pthread_atfork :: "env \<Rightarrow> kern \<Rightarrow> pthread_t \<Rightarrow> addr \<Rightarrow> addr \<Rightarrow> addr \<Rightarrow> st \<Rightarrow> int res" where
  "pthread_atfork E K self prepare parent child s =
     (if \<not> malloc_ok K sizeof_block s then Some (Ret ENOMEM, s)
      else
        let block = malloc_addr K sizeof_block s
        in and_then (pthread_mutex_lock E self (pthread_atfork_lock s) s) (\<lambda>_ s. do {
          (l, h) \<leftarrow> pthread_insert_list (pthread_atfork_prepare s) prepare block False (handlers s);
          let s = s\<lparr>pthread_atfork_prepare := l, handlers := h\<rparr>;
          (l, h) \<leftarrow> pthread_insert_list (pthread_atfork_parent s) parent (block + 8) True (handlers s);
          let s = s\<lparr>pthread_atfork_parent := l, handlers := h\<rparr>;
          (l, h) \<leftarrow> pthread_insert_list (pthread_atfork_child s) child (block + 16) True (handlers s);
          let s = s\<lparr>pthread_atfork_child := l, handlers := h\<rparr>;
          (_, s) \<leftarrow> pthread_mutex_unlock (pthread_atfork_lock s) s;
          Some (Ret 0, s) }))"

section \<open>Fork\<close>

partial_function (option) pthread_call_handlers :: "env \<Rightarrow> addr \<Rightarrow> st \<Rightarrow> st option" where
  "pthread_call_handlers E list s =
     (if list \<noteq> NULL then
        let s = snd (call_env E (handler (handlers s list)) NULL s)
        in pthread_call_handlers E (hl_next (handlers s list)) s
      else Some s)"

text \<open>
  The function in one of the two processes: \<open>pid\<close> is what \<open>__fork\<close> returns there, and the state is the
  copy of the address space that this process has.
\<close>

definition fork :: "env \<Rightarrow> kern \<Rightarrow> pthread_t \<Rightarrow> (addr \<Rightarrow> io_file) \<Rightarrow> addr \<Rightarrow> int \<Rightarrow> st \<Rightarrow> int res" where
  "fork E K self files io_list_all pid s =
     and_then (pthread_mutex_lock E self (pthread_atfork_lock s) s) (\<lambda>_ s. do {
       let prepare = pthread_atfork_prepare s;
       let child = pthread_atfork_child s;
       let parent = pthread_atfork_parent s;
       (_, s) \<leftarrow> pthread_mutex_unlock (pthread_atfork_lock s) s;
       s \<leftarrow> pthread_call_handlers E prepare s;
       if pid = 0 then do {
         let s = pthread_reset_main_thread K self s;
         s \<leftarrow> fresetlockfiles files io_list_all s;
         s \<leftarrow> pthread_call_handlers E child s;
         Some (Ret pid, s) }
       else do {
         s \<leftarrow> pthread_call_handlers E parent s;
         Some (Ret pid, s) } })"

section \<open>The lists\<close>

text \<open>\<open>hlist h p ns\<close>: the list that starts at \<open>p\<close> has the nodes \<open>ns\<close>.\<close>

abbreviation hlist :: "(addr \<Rightarrow> handler_list) \<Rightarrow> addr \<Rightarrow> addr list \<Rightarrow> bool" where
  "hlist h \<equiv> chain (\<lambda>p. hl_next (h p)) NULL"

lemma list_end_chain: "hlist h p (ns @ [n]) \<Longrightarrow> list_end h p = Some n"
proof (induction ns arbitrary: p)
  case Nil
  then show ?case by (subst list_end.simps) simp
next
  case (Cons m ns)
  then have "hl_next (h m) \<noteq> NULL" by (cases ns) auto
  then show ?case using Cons by (subst list_end.simps) simp
qed

lemma hlist_upd: "a \<notin> set ns \<Longrightarrow> hlist (h(a := x)) p ns = hlist h p ns"
  by (rule chain_cong) auto

lemma insert_front:
  assumes "hlist h l ns" and "f \<noteq> NULL" and "n \<noteq> NULL" and "n \<notin> set ns"
  shows "\<exists>h'. pthread_insert_list l f n False h = Some (n, h') \<and> hlist h' n (n # ns) \<and>
    map (\<lambda>p. handler (h' p)) (n # ns) = f # map (\<lambda>p. handler (h p)) ns \<and>
    (\<forall>p. p \<notin> set (n # ns) \<longrightarrow> h' p = h p)"
  using assms hlist_upd [OF assms(4), of h "\<lparr>handler = f, hl_next = l\<rparr>" l]
  by (auto simp: pthread_insert_list_def)

lemma insert_back:
  assumes "hlist h l ns" and "f \<noteq> NULL" and "n \<noteq> NULL" and "n \<notin> set ns"
  shows "\<exists>l' h'. pthread_insert_list l f n True h = Some (l', h') \<and> hlist h' l' (ns @ [n]) \<and>
    map (\<lambda>p. handler (h' p)) (ns @ [n]) = map (\<lambda>p. handler (h p)) ns @ [f] \<and>
    (\<forall>p. p \<notin> set (n # ns) \<longrightarrow> h' p = h p)"
proof (cases ns rule: rev_exhaust)
  case Nil
  then show ?thesis using assms by (auto simp: pthread_insert_list_def)
next
  case (snoc ms m)
  have l: "l \<noteq> NULL" using assms(1) snoc by (cases ms) auto
  have e: "list_end h l = Some m" using list_end_chain assms(1) snoc by simp
  have nx: "hl_next (h m) = NULL" using chain_next [of "\<lambda>p. hl_next (h p)"] assms(1) snoc by blast
  define h' where "h' = (h(n := \<lparr>handler = f, hl_next = NULL\<rparr>))(m := (h m)\<lparr>hl_next := n\<rparr>)"
  have mn: "m \<noteq> n" "m \<notin> set ms" "n \<notin> set ms" using assms(4) snoc chain_distinct [OF assms(1)] by auto
  have "pthread_insert_list l f n True h = Some (l, h')"
    using assms(2) l e nx mn by (simp add: pthread_insert_list_def h'_def)
  moreover have "hlist h' l (ns @ [n])"
    by (rule chain_append_node [OF assms(1)]) (use snoc assms(3) mn in \<open>auto simp: h'_def\<close>)
  moreover have "map (\<lambda>p. handler (h' p)) (ns @ [n]) = map (\<lambda>p. handler (h p)) ns @ [f]"
    using mn assms(4) snoc by (auto simp: h'_def)
  moreover have "\<forall>p. p \<notin> set (n # ns) \<longrightarrow> h' p = h p" using snoc by (auto simp: h'_def)
  ultimately show ?thesis by blast
qed

section \<open>The handlers of a process\<close>

text \<open>
  \<open>atfork_lists s pre par chi\<close>: the three lists of registered functions, in the order in which \<open>fork\<close> will
  call them; the nodes of the lists are different. The lock of the lists is free.
\<close>

definition atfork_lists :: "st \<Rightarrow> addr list \<Rightarrow> addr list \<Rightarrow> addr list \<Rightarrow> addr list \<Rightarrow> addr list \<Rightarrow> addr list \<Rightarrow> bool" where
  "atfork_lists s ns1 ns2 ns3 pre par chi \<longleftrightarrow>
     hlist (handlers s) (pthread_atfork_prepare s) ns1 \<and> map (\<lambda>p. handler (handlers s p)) ns1 = pre \<and>
     hlist (handlers s) (pthread_atfork_parent s) ns2 \<and> map (\<lambda>p. handler (handlers s p)) ns2 = par \<and>
     hlist (handlers s) (pthread_atfork_child s) ns3 \<and> map (\<lambda>p. handler (handlers s p)) ns3 = chi \<and>
     distinct (ns1 @ ns2 @ ns3) \<and> mutexes s (pthread_atfork_lock s) = PTHREAD_MUTEX_INITIALIZER"

lemma hlist_frame:
  assumes "\<forall>p. p \<notin> set (n # ms) \<longrightarrow> h' p = h p" and "set ns \<inter> set (n # ms) = {}"
  shows "hlist h' q ns = hlist h q ns" and "map (\<lambda>p. handler (h' p)) ns = map (\<lambda>p. handler (h p)) ns"
proof -
  have "p \<in> set ns \<Longrightarrow> h' p = h p" for p using assms by blast
  then show "hlist h' q ns = hlist h q ns" "map (\<lambda>p. handler (h' p)) ns = map (\<lambda>p. handler (h p)) ns"
    by (auto intro!: chain_cong)
qed

lemma lock_section_fork:
  assumes "mutexes s mu = PTHREAD_MUTEX_INITIALIZER"
  shows "pthread_mutex_unlock mu (upd_mutex mu (\<lambda>_. PTHREAD_MUTEX_INITIALIZER\<lparr>m_count := 1\<rparr>) s) = Some (0, s)"
  using fast_unlock_simps(1) [of mu s] fast_section(2) [OF assms] by simp

lemma atfork_effect:
  assumes l: "atfork_lists s ns1 ns2 ns3 pre par chi" and m: "malloc_ok K sizeof_block s" "malloc_addr K sizeof_block s = b"
    and b: "distinct [NULL, b, b + 8, b + 16]" "{b, b + 8, b + 16} \<inter> set (ns1 @ ns2 @ ns3) = {}"
    and f: "f \<noteq> NULL" "g \<noteq> NULL" "k \<noteq> NULL"
  shows "\<exists>s'. pthread_atfork E K self f g k s = Some (Ret 0, s') \<and> klog s' = klog s \<and>
    atfork_lists s' (b # ns1) (ns2 @ [b + 8]) (ns3 @ [b + 16]) (f # pre) (par @ [g]) (chi @ [k])"
proof -
  let ?mu = "pthread_atfork_lock s"
  let ?s0 = "upd_mutex ?mu (\<lambda>_. PTHREAD_MUTEX_INITIALIZER\<lparr>m_count := 1\<rparr>) s"
  have mu: "mutexes s ?mu = PTHREAD_MUTEX_INITIALIZER" and d: "distinct (ns1 @ ns2 @ ns3)"
    using l by (simp_all add: atfork_lists_def)
  have c: "hlist (handlers s) (pthread_atfork_prepare s) ns1" "hlist (handlers s) (pthread_atfork_parent s) ns2"
    "hlist (handlers s) (pthread_atfork_child s) ns3" using l by (simp_all add: atfork_lists_def)
  have n: "b \<notin> set ns1" "b + 8 \<notin> set ns2" "b + 16 \<notin> set ns3" using b(2) by auto
  obtain h1 where i1: "pthread_insert_list (pthread_atfork_prepare s) f b False (handlers s) = Some (b, h1)"
    "hlist h1 b (b # ns1)" "map (\<lambda>p. handler (h1 p)) (b # ns1) = f # map (\<lambda>p. handler (handlers s p)) ns1"
    "\<forall>p. p \<notin> set (b # ns1) \<longrightarrow> h1 p = handlers s p"
    using insert_front [OF c(1) f(1) _ n(1)] b(1) by auto
  have x1: "set ns2 \<inter> set (b # ns1) = {}" "set ns3 \<inter> set (b # ns1) = {}" using d b(2) by auto
  have c1: "hlist h1 (pthread_atfork_parent s) ns2" "hlist h1 (pthread_atfork_child s) ns3"
    using hlist_frame(1) [OF i1(4) x1(1)] hlist_frame(1) [OF i1(4) x1(2)] c(2,3) by simp_all
  obtain l2 h2 where i2: "pthread_insert_list (pthread_atfork_parent s) g (b + 8) True h1 = Some (l2, h2)"
    "hlist h2 l2 (ns2 @ [b + 8])" "map (\<lambda>p. handler (h2 p)) (ns2 @ [b + 8]) = map (\<lambda>p. handler (h1 p)) ns2 @ [g]"
    "\<forall>p. p \<notin> set ((b + 8) # ns2) \<longrightarrow> h2 p = h1 p"
    using insert_back [OF c1(1) f(2) _ n(2)] b(1) by auto
  have x2: "set (b # ns1) \<inter> set ((b + 8) # ns2) = {}" "set ns3 \<inter> set ((b + 8) # ns2) = {}" using d b by auto
  have c2: "hlist h2 (pthread_atfork_child s) ns3" using hlist_frame(1) [OF i2(4) x2(2)] c1(2) by simp
  obtain l3 h3 where i3: "pthread_insert_list (pthread_atfork_child s) k (b + 16) True h2 = Some (l3, h3)"
    "hlist h3 l3 (ns3 @ [b + 16])" "map (\<lambda>p. handler (h3 p)) (ns3 @ [b + 16]) = map (\<lambda>p. handler (h2 p)) ns3 @ [k]"
    "\<forall>p. p \<notin> set ((b + 16) # ns3) \<longrightarrow> h3 p = h2 p"
    using insert_back [OF c2 f(3) _ n(3)] b(1) by auto
  have x3: "set (b # ns1) \<inter> set ((b + 16) # ns3) = {}" "set (ns2 @ [b + 8]) \<inter> set ((b + 16) # ns3) = {}" using d b by auto
  define s' where "s' = s\<lparr>pthread_atfork_prepare := b, pthread_atfork_parent := l2, pthread_atfork_child := l3, handlers := h3\<rparr>"
  have sw: "?s0\<lparr>pthread_atfork_prepare := b, handlers := h1, pthread_atfork_parent := l2, handlers := h2,
      pthread_atfork_child := l3, handlers := h3\<rparr> = upd_mutex ?mu (\<lambda>_. PTHREAD_MUTEX_INITIALIZER\<lparr>m_count := 1\<rparr>) s'"
    by (simp add: s'_def upd_mutex_def)
  have mu': "mutexes s' ?mu = PTHREAD_MUTEX_INITIALIZER" "pthread_atfork_lock s' = ?mu" using mu by (simp_all add: s'_def)
  have "pthread_atfork E K self f g k s = Some (Ret 0, s')"
    using i1(1) i2(1) i3(1) m lock_section_fork [OF mu'(1)]
    by (simp add: pthread_atfork_def fast_lock_free [OF mu] sw [simplified] Let_def)
  moreover have "atfork_lists s' (b # ns1) (ns2 @ [b + 8]) (ns3 @ [b + 16]) (f # pre) (par @ [g]) (chi @ [k])"
  proof -
    have p: "map (\<lambda>p. handler (handlers s p)) ns1 = pre" "map (\<lambda>p. handler (handlers s p)) ns2 = par"
      "map (\<lambda>p. handler (handlers s p)) ns3 = chi" using l by (simp_all add: atfork_lists_def)
    have "hlist h3 b (b # ns1)"
      unfolding hlist_frame(1) [OF i3(4) x3(1)] hlist_frame(1) [OF i2(4) x2(1)] by (rule i1(2))
    moreover have "map (\<lambda>p. handler (h3 p)) (b # ns1) = f # pre"
      unfolding hlist_frame(2) [OF i3(4) x3(1)] hlist_frame(2) [OF i2(4) x2(1)] i1(3) p ..
    moreover have "hlist h3 l2 (ns2 @ [b + 8])" using i2(2) hlist_frame(1) [OF i3(4) x3(2)] by simp
    moreover have "map (\<lambda>p. handler (h3 p)) (ns2 @ [b + 8]) = par @ [g]"
      unfolding hlist_frame(2) [OF i3(4) x3(2)] i2(3) hlist_frame(2) [OF i1(4) x1(1)] p ..
    moreover have "map (\<lambda>p. handler (h3 p)) (ns3 @ [b + 16]) = chi @ [k]"
      unfolding i3(3) hlist_frame(2) [OF i2(4) x2(2)] hlist_frame(2) [OF i1(4) x1(2)] p ..
    moreover have "distinct ((b # ns1) @ (ns2 @ [b + 8]) @ ns3 @ [b + 16])" using d b by auto
    ultimately show ?thesis using i3(2) mu' unfolding atfork_lists_def by (simp add: s'_def)
  qed
  moreover have "klog s' = klog s" by (simp add: s'_def)
  ultimately show ?thesis by blast
qed

text \<open>Functions of the program that leave the lists alone, and leave a trace in the log.\<close>

definition atfork_tame :: "env \<Rightarrow> bool" where
  "atfork_tame E \<longleftrightarrow> (\<forall>f a s. handlers (snd (call_env E f a s)) = handlers s \<and>
     klog (snd (call_env E f a s)) = klog s @ [Call f a])"

lemma call_handlers_chain:
  assumes "atfork_tame E" and "hlist (handlers s) p ns"
  shows "\<exists>s'. pthread_call_handlers E p s = Some s' \<and> handlers s' = handlers s \<and>
    klog s' = klog s @ map (\<lambda>n. Call (handler (handlers s n)) NULL) ns"
  using assms(2)
proof (induction ns arbitrary: p s)
  case Nil
  then show ?case by (subst pthread_call_handlers.simps) simp
next
  case (Cons n ns)
  define s1 where "s1 = snd (call_env E (handler (handlers s n)) NULL s)"
  have s1: "handlers s1 = handlers s" "klog s1 = klog s @ [Call (handler (handlers s n)) NULL]"
    using assms(1) by (simp_all add: atfork_tame_def s1_def)
  have "p = n" "n \<noteq> NULL" using Cons.prems by auto
  then have "pthread_call_handlers E p s = pthread_call_handlers E (hl_next (handlers s n)) s1"
    by (subst pthread_call_handlers.simps) (simp add: s1_def [symmetric] s1)
  moreover have "hlist (handlers s1) (hl_next (handlers s n)) ns" using Cons.prems by (simp add: s1)
  from Cons.IH [OF this] have "\<exists>s'. pthread_call_handlers E (hl_next (handlers s n)) s1 = Some s' \<and>
    handlers s' = handlers s \<and> klog s' = klog s1 @ map (\<lambda>n. Call (handler (handlers s n)) NULL) ns" by (simp add: s1)
  ultimately show ?case using s1(2) by simp
qed

lemma fork_unfold:
  assumes "atfork_lists s ns1 ns2 ns3 pre par chi" and "atfork_tame E"
  obtains s1 where "pthread_call_handlers E (pthread_atfork_prepare s) s = Some s1" and "handlers s1 = handlers s"
    and "klog s1 = klog s @ map (\<lambda>f. Call f NULL) pre"
    and "fork E K self files io_list_all pid s =
      (if pid = 0 then do {
         s' \<leftarrow> fresetlockfiles files io_list_all (pthread_reset_main_thread K self s1);
         s' \<leftarrow> pthread_call_handlers E (pthread_atfork_child s) s';
         Some (Ret pid, s') }
       else do {
         s' \<leftarrow> pthread_call_handlers E (pthread_atfork_parent s) s1;
         Some (Ret pid, s') })"
proof -
  let ?mu = "pthread_atfork_lock s"
  have mu: "mutexes s ?mu = PTHREAD_MUTEX_INITIALIZER" and c: "hlist (handlers s) (pthread_atfork_prepare s) ns1"
    and pre: "pre = map (\<lambda>p. handler (handlers s p)) ns1"
    using assms(1) by (auto simp: atfork_lists_def)
  from call_handlers_chain [OF assms(2) c] obtain s1 where
    s1: "pthread_call_handlers E (pthread_atfork_prepare s) s = Some s1" "handlers s1 = handlers s"
    "klog s1 = klog s @ map (\<lambda>f. Call f NULL) pre"
    by (auto simp: pre comp_def)
  show thesis
    by (rule that [OF s1])
      (simp add: fork_def fast_lock_free [OF mu] lock_section_fork [OF mu] s1(1) Let_def)
qed

lemma reset_log:
  "klog (pthread_reset_main_thread K self s) =
     klog s @ [Free (manager_thread_bos s), Close (manager_request s), Close (manager_reader s)]"
  "handlers (pthread_reset_main_thread K self s) = handlers s"
  by (simp_all add: pthread_reset_main_thread_def Let_def)

lemma fork_effect:
  assumes l: "atfork_lists s ns1 ns2 ns3 pre par chi" and E: "atfork_tame E"
    and fl: "chain (\<lambda>f. io_chain (files f)) NULL io_list_all fps"
  shows "\<exists>s1 s'. fork E K self files io_list_all pid s = Some (Ret pid, s') \<and>
    pthread_call_handlers E (pthread_atfork_prepare s) s = Some s1 \<and>
    klog s' = klog s @ map (\<lambda>f. Call f NULL) pre @
      (if pid = 0 then [Free (manager_thread_bos s1), Close (manager_request s1), Close (manager_reader s1)] @
        map (\<lambda>f. Call f NULL) chi
       else map (\<lambda>f. Call f NULL) par)"
proof -
  from fork_unfold [OF l E, of K self files io_list_all pid] obtain s1 where
    s1: "pthread_call_handlers E (pthread_atfork_prepare s) s = Some s1" "handlers s1 = handlers s"
      "klog s1 = klog s @ map (\<lambda>f. Call f NULL) pre"
    and f: "fork E K self files io_list_all pid s =
      (if pid = 0 then do {
         s' \<leftarrow> fresetlockfiles files io_list_all (pthread_reset_main_thread K self s1);
         s' \<leftarrow> pthread_call_handlers E (pthread_atfork_child s) s';
         Some (Ret pid, s') }
       else do {
         s' \<leftarrow> pthread_call_handlers E (pthread_atfork_parent s) s1;
         Some (Ret pid, s') })" .
  have c: "hlist (handlers s1) (pthread_atfork_parent s) ns2" "hlist (handlers s) (pthread_atfork_child s) ns3"
    "par = map (\<lambda>p. handler (handlers s1 p)) ns2" "chi = map (\<lambda>p. handler (handlers s p)) ns3"
    using l s1(2) by (auto simp: atfork_lists_def)
  show ?thesis
  proof (cases "pid = 0")
    case True
    let ?r = "pthread_reset_main_thread K self s1"
    from fresetlockfiles_effect [OF fl, of ?r] obtain s2 where s2: "fresetlockfiles files io_list_all ?r = Some s2"
      "s2 = ?r\<lparr>mutexes := mutexes s2\<rparr>" by blast
    have h2: "handlers s2 = handlers s" "klog s2 = klog ?r"
      using s2(2) s1(2) reset_log(2) by (metis st.select_convs st.surjective st.update_convs)+
    from call_handlers_chain [OF E, of s2 "pthread_atfork_child s" ns3] c(2,4) h2(1) obtain s3 where
      "pthread_call_handlers E (pthread_atfork_child s) s2 = Some s3"
      "klog s3 = klog s2 @ map (\<lambda>f. Call f NULL) chi" by (auto simp: comp_def)
    then show ?thesis using True f s1 s2(1) h2(2) by (simp add: reset_log)
  next
    case False
    from call_handlers_chain [OF E c(1)] c(3) obtain s3 where
      "pthread_call_handlers E (pthread_atfork_parent s) s1 = Some s3"
      "klog s3 = klog s1 @ map (\<lambda>f. Call f NULL) par" by (auto simp: comp_def)
    then show ?thesis using False f s1 by simp
  qed
qed

section \<open>Properties\<close>

text \<open>
  C32. Order of the handlers. After a registration with \<open>pthread_atfork\<close>, in addition to what is registered
  already, \<open>fork\<close> calls the new prepare function before the earlier ones, and the new parent or child
  function after the earlier ones: prepare functions run in the reverse order of their registration, the
  others in the order of registration, parent functions only in the parent and child functions only in the
  child, there after the library has been reset.
\<close>

theorem atfork_order:
  assumes "atfork_lists s ns1 ns2 ns3 pre par chi" and "malloc_ok K sizeof_block s" and "malloc_addr K sizeof_block s = b"
    and "distinct [NULL, b, b + 8, b + 16]" and "{b, b + 8, b + 16} \<inter> set (ns1 @ ns2 @ ns3) = {}"
    and "f \<noteq> NULL" and "g \<noteq> NULL" and "k \<noteq> NULL" and "atfork_tame E"
    and "chain (\<lambda>f. io_chain (files f)) NULL io_list_all fps"
  shows "\<exists>s1 s2 ev. pthread_atfork E K self f g k s = Some (Ret 0, s1) \<and>
    fork E K self files io_list_all pid s1 = Some (Ret pid, s2) \<and>
    klog s2 = klog s @ map (\<lambda>f. Call f NULL) (f # pre) @ ev @
      map (\<lambda>f. Call f NULL) (if pid = 0 then chi @ [k] else par @ [g]) \<and>
    length ev = (if pid = 0 then 3 else 0) \<and> (\<forall>f a. Call f a \<notin> set ev)"
proof -
  from atfork_effect [OF assms(1-8)] obtain s1 where s1: "pthread_atfork E K self f g k s = Some (Ret 0, s1)"
    "klog s1 = klog s" "atfork_lists s1 (b # ns1) (ns2 @ [b + 8]) (ns3 @ [b + 16]) (f # pre) (par @ [g]) (chi @ [k])"
    by blast
  from fork_effect [OF s1(3) assms(9,10), of K self pid] obtain s0 :: st and s2 where
    fk: "fork E K self files io_list_all pid s1 = Some (Ret pid, s2)"
    "klog s2 = klog s1 @ map (\<lambda>f. Call f NULL) (f # pre) @
      (if pid = 0 then [Free (manager_thread_bos s0), Close (manager_request s0), Close (manager_reader s0)] @
        map (\<lambda>f. Call f NULL) (chi @ [k])
       else map (\<lambda>f. Call f NULL) (par @ [g]))" by blast
  let ?ev = "if pid = 0 then [Free (manager_thread_bos s0), Close (manager_request s0), Close (manager_reader s0)] else []"
  have "klog s2 = klog s @ map (\<lambda>f. Call f NULL) (f # pre) @ ?ev @
      map (\<lambda>f. Call f NULL) (if pid = 0 then chi @ [k] else par @ [g])" using fk(2) s1(2) by simp
  moreover have "length ?ev = (if pid = 0 then 3 else 0)" "\<forall>f a. Call f a \<notin> set ?ev" by simp_all
  ultimately show ?thesis using s1(1) fk(1) by blast
qed

lemma atfork_lists_zero: "atfork_lists zero_st [] [] [] [] [] []"
  by (simp add: atfork_lists_def zero_st_def)

lemma atfork_tame_prompt: "atfork_tame prompt_env"
  by (simp add: atfork_tame_def prompt_env_def)

theorem atfork_order_witness:
  "\<exists>s1 s2. pthread_atfork prompt_env easy_kern 8 0x10 0x20 0x30 zero_st = Some (Ret 0, s1) \<and>
    fork prompt_env easy_kern 8 (\<lambda>_. \<lparr>io_lock = 0, io_chain = 0\<rparr>) NULL 77 s1 = Some (Ret 77, s2) \<and>
    klog s2 = [Call 0x10 NULL, Call 0x20 NULL]"
proof -
  let ?files = "\<lambda>_ :: addr. \<lparr>io_lock = 0, io_chain = 0\<rparr>"
  have "malloc_ok easy_kern sizeof_block zero_st" "malloc_addr easy_kern sizeof_block zero_st = 0x1000"
    by (simp_all add: easy_kern_def)
  moreover have "chain (\<lambda>f. io_chain (?files f)) NULL NULL []" by simp
  ultimately obtain s1 s2 ev where r: "pthread_atfork prompt_env easy_kern 8 0x10 0x20 0x30 zero_st = Some (Ret 0, s1)"
    "fork prompt_env easy_kern 8 ?files NULL 77 s1 = Some (Ret 77, s2)"
    "klog s2 = klog zero_st @ map (\<lambda>f. Call f NULL) [0x10] @ ev @ map (\<lambda>f. Call f NULL) [0x20]" "ev = []"
    using atfork_order [OF atfork_lists_zero, of easy_kern "0x1000" "0x10" "0x20" "0x30" prompt_env ?files NULL "[]" 8 77]
      atfork_tame_prompt by auto
  moreover have "klog zero_st = []" by (simp add: zero_st_def)
  ultimately show ?thesis by auto
qed

text \<open>
  C38. A program that never creates a thread loses its standard input in the children it forks: before the
  first creation of a thread there is no pipe to the manager, but the reset of the library in the child
  closes both ends all the same, and the variable of the reading end is 0.
\<close>

theorem fork_closes_standard_input:
  assumes "s = pthread_initialize K frame (pthread_statics init mgr s0)" and "atfork_lists s [] [] [] [] [] []"
    and "chain (\<lambda>f. io_chain (files f)) NULL io_list_all fps" and "atfork_tame E"
  shows "\<exists>s'. fork E K init files io_list_all 0 s = Some (Ret 0, s') \<and>
    klog s' = klog s @ [Free NULL, Close (- 1), Close 0]"
proof -
  have v: "manager_thread_bos s = NULL" "manager_request s = - 1" "manager_reader s = 0"
    by (simp_all add: assms(1) pthread_initialize_def pthread_statics_def Let_def)
  have "pthread_atfork_prepare s = NULL" using assms(2) by (simp add: atfork_lists_def)
  then have "pthread_call_handlers E (pthread_atfork_prepare s) s = Some s"
    by (subst pthread_call_handlers.simps) simp
  with fork_effect [OF assms(2,4,3), of K init 0] v show ?thesis by auto
qed

theorem fork_closes_standard_input_witness:
  "\<exists>s'. fork prompt_env easy_kern 0x8000 (\<lambda>_. \<lparr>io_lock = 0, io_chain = 0\<rparr>) NULL 0
      (pthread_initialize easy_kern 0xbffff000 (pthread_statics 0x8000 0x9000 zero_st)) = Some (Ret 0, s') \<and>
    Close 0 \<in> set (klog s')"
proof -
  let ?s = "pthread_initialize easy_kern 0xbffff000 (pthread_statics 0x8000 0x9000 zero_st)"
  let ?files = "\<lambda>_ :: addr. \<lparr>io_lock = 0, io_chain = 0\<rparr>"
  have "atfork_lists ?s [] [] [] [] [] []" "chain (\<lambda>f. io_chain (?files f)) NULL NULL []"
    by (simp_all add: atfork_lists_def pthread_initialize_def pthread_statics_def Let_def zero_st_def)
  from fork_closes_standard_input [OF refl this atfork_tame_prompt] show ?thesis by auto
qed

text \<open>
  A fork while the main thread waits in \<open>pthread_exit\<close> goes wrong in the child. The flag that the main
  thread is about to exit is not reset there. The forking thread is the main thread of the child, and has
  not called \<open>pthread_exit\<close>; nevertheless, as soon as the first thread it creates has terminated, the manager
  of the child restarts it as if it had, and ends: no further thread can be created.
\<close>

theorem fork_child_inherits_exit_flag:
  assumes "mgr_wf K s ths zs" and "self \<in> set ths" and "main_thread_exiting s" and "room K s"
    and "\<And>t u. clone_env K t u \<noteq> - 1"
  shows "\<exists>n s1 s2. pthread_handle_create K self attr fn arg msk fp (pthread_reset_main_thread K self s) = Some (0, s1) \<and>
    pthread_exited K (p_pid (descr s1 n)) s1 = Some (Exit 0, s2) \<and>
    last (klog s2) = Kill (getpid_env K self) PTHREAD_SIG_RESTART"
proof -
  let ?r = "pthread_reset_main_thread K self s"
  have w: "mgr_wf K ?r [] []" using reset_wf [OF assms(1), of self] assms(2) by simp
  have sp: "stack_segments ?r = stack_segments s" "num_stack_segments ?r = num_stack_segments s"
    "initial_thread_bos ?r = initial_thread_bos s" "main_thread ?r = self"
    using reset_frame(1) [of K self s] by (simp_all add: seg_part_def)
  have "room K ?r" using assms(4) by (simp add: room_def seg_used_def sp)
  moreover have "self \<in> set (main_thread ?r # [])" by (simp add: sp)
  ultimately obtain n s1 where c: "pthread_handle_create K self attr fn arg msk fp ?r = Some (0, s1)"
    and w1: "mgr_wf K s1 [n] []" and n: "n \<noteq> self"
    and d: "links_off (descr s1 n) = (init_new_thread attr fn arg msk (links_off (descr ?r n)))\<lparr>p_pid := p_pid (descr s1 n)\<rparr>"
    and ds: "links_off (descr s1 self) = (links_off (descr ?r self))\<lparr>p_retval := n\<rparr>"
    and m: "main_thread s1 = self" "main_thread_exiting s1"
    using create_effect [OF w, of self attr fn arg msk fp] assms(3,5) reset_frame(2) [of K self s] sp(4) by force
  have "p_spinlock (descr s1 n) = 0"
  proof -
    have "p_spinlock (links_off (descr s1 n)) = 0" by (subst d) (simp add: init_new_thread_def)
    then show ?thesis by (simp add: links_off_def)
  qed
  with exited_effect [of K s1 "[]" n "[]" "[]"] w1 m obtain s2 where
    e: "pthread_exited K (p_pid (descr s1 n)) s1 = Some (Exit 0, restart self s2)"
    and l: "links_off (descr s2 self) = links_off (descr s1 self)"
    using n by fastforce
  have "p_pid (links_off (descr s2 self)) = p_pid (links_off (descr ?r self))" unfolding l ds by simp
  then have "p_pid (descr s2 self) = p_pid (descr ?r self)" by (simp add: links_off_def)
  then have "p_pid (descr s2 self) = getpid_env K self" by (simp add: pthread_reset_main_thread_def Let_def)
  with c e show ?thesis by (intro exI [of _ n] exI [of _ s1] exI [of _ "restart self s2"]) simp
qed

theorem fork_child_inherits_exit_flag_witness:
  "\<exists>n s1 s2. pthread_handle_create easy_kern 0xbf9ffd80 None 0x400 7 {} 300
      (pthread_reset_main_thread easy_kern 0xbf9ffd80 (one_thread\<lparr>main_thread_exiting := True\<rparr>)) = Some (0, s1) \<and>
    pthread_exited easy_kern (p_pid (descr s1 n)) s1 = Some (Exit 0, s2) \<and>
    last (klog s2) = Kill 100 PTHREAD_SIG_RESTART"
proof -
  let ?s = "one_thread\<lparr>main_thread_exiting := True\<rparr>"
  have "mgr_wf easy_kern ?s [0xbf9ffd80] [] = mgr_wf easy_kern one_thread [0xbf9ffd80] []"
    by (rule mgr_wf_cong) auto
  then have "mgr_wf easy_kern ?s [0xbf9ffd80] []" using one_thread_wf by simp
  moreover have "room easy_kern ?s" using one_thread_room by (simp add: room_def seg_used_def)
  moreover have "clone_env easy_kern t u \<noteq> - 1" "getpid_env easy_kern t = 100" for t u by (simp_all add: easy_kern_def)
  ultimately show ?thesis
    using fork_child_inherits_exit_flag [of easy_kern ?s "[0xbf9ffd80]" "[]" "0xbf9ffd80" None "0x400" 7 "{}" 300] by simp
qed

end
