(* ===== verification/Examples.thy ===== *)
theory Examples
  imports Prelude
begin

text \<open>
  Three of the example programs: \<open>Examples/ex1.c\<close>, in which two threads write letters, and the two producer-consumer
  programs \<open>Examples/ex2.c\<close> with a mutex and two conditions and \<open>Examples/ex5.c\<close> with two semaphores. Both of these use
  the same circular buffer of integers. The producer writes the numbers from 0 to 9999 and a mark for the end into the buffer, and the consumer reads them; the two
  threads run interleaved. A section under the mutex of \<open>ex2.c\<close> is one step: \<open>Mutex_Concurrent\<close> shows that
  such sections exclude each other, and \<open>Condvar\<close> that a thread enters the queue of a condition before
  it gives up the mutex. The semaphores of \<open>ex5.c\<close> are counters with the behaviour shown in \<open>Semaphore\<close>.
\<close>

section \<open>The circular buffer\<close>

definition BUFFER_SIZE :: nat where "BUFFER_SIZE = 16"

definition OVER :: int where "OVER = - 1"

text \<open>The number of integers that the producer sends.\<close>

definition ITEMS :: nat where "ITEMS = 10000"

record prodcons =
  buffer :: "int list"
  readpos :: nat
  writepos :: nat

definition is_full :: "prodcons \<Rightarrow> bool" where
  "is_full b \<longleftrightarrow> (writepos b + 1) mod BUFFER_SIZE = readpos b"

definition is_empty :: "prodcons \<Rightarrow> bool" where
  "is_empty b \<longleftrightarrow> writepos b = readpos b"

definition store :: "prodcons \<Rightarrow> int \<Rightarrow> prodcons" where
  "store b data =
     (let b = b\<lparr>buffer := (buffer b)[writepos b := data]\<rparr>;
          b = b\<lparr>writepos := writepos b + 1\<rparr>
      in if writepos b \<ge> BUFFER_SIZE then b\<lparr>writepos := 0\<rparr> else b)"

definition fetch :: "prodcons \<Rightarrow> int \<times> prodcons" where
  "fetch b =
     (let data = buffer b ! readpos b;
          b = b\<lparr>readpos := readpos b + 1\<rparr>
      in (data, if readpos b \<ge> BUFFER_SIZE then b\<lparr>readpos := 0\<rparr> else b))"

definition init_buffer :: "prodcons \<Rightarrow> prodcons" where
  "init_buffer b = b\<lparr>readpos := 0, writepos := 0\<rparr>"

subsection \<open>The contents of the buffer\<close>

definition rb_wf :: "prodcons \<Rightarrow> bool" where
  "rb_wf b \<longleftrightarrow> length (buffer b) = BUFFER_SIZE \<and> readpos b < BUFFER_SIZE \<and> writepos b < BUFFER_SIZE"

definition rb_length :: "prodcons \<Rightarrow> nat" where
  "rb_length b = (writepos b + BUFFER_SIZE - readpos b) mod BUFFER_SIZE"

definition contents :: "prodcons \<Rightarrow> int list" where
  "contents b = map (\<lambda>i. buffer b ! ((readpos b + i) mod BUFFER_SIZE)) [0..<rb_length b]"

text \<open>Positions in the buffer, as in the code and modulo the size.\<close>

lemma next_pos: "p < BUFFER_SIZE \<Longrightarrow> (if p + 1 \<ge> BUFFER_SIZE then 0 else p + 1) = (p + 1) mod BUFFER_SIZE"
  by (cases "p + 1 = BUFFER_SIZE") simp_all

lemma store_eq:
  "rb_wf b \<Longrightarrow> store b d = b\<lparr>buffer := (buffer b)[writepos b := d], writepos := (writepos b + 1) mod BUFFER_SIZE\<rparr>"
  using next_pos [of "writepos b"] by (auto simp: store_def rb_wf_def Let_def)

lemma fetch_eq:
  "rb_wf b \<Longrightarrow> fetch b = (buffer b ! readpos b, b\<lparr>readpos := (readpos b + 1) mod BUFFER_SIZE\<rparr>)"
  using next_pos [of "readpos b"] by (auto simp: fetch_def rb_wf_def Let_def)

lemma wrap: "p < BUFFER_SIZE \<Longrightarrow> (p + 1) mod BUFFER_SIZE = (if p + 1 = BUFFER_SIZE then 0 else p + 1)"
  by (cases "p + 1 = BUFFER_SIZE") simp_all

lemma rb_length_eq:
  "rb_wf b \<Longrightarrow> rb_length b = (if readpos b \<le> writepos b then writepos b - readpos b
     else writepos b + BUFFER_SIZE - readpos b)"
proof (cases "readpos b \<le> writepos b")
  case True
  assume "rb_wf b"
  then have "writepos b - readpos b < BUFFER_SIZE" by (auto simp: rb_wf_def)
  moreover have "writepos b + BUFFER_SIZE - readpos b = writepos b - readpos b + BUFFER_SIZE" using True by simp
  ultimately show ?thesis using True by (simp only: rb_length_def mod_add_self2 mod_less if_True)
next
  case False
  assume "rb_wf b"
  then have "writepos b + BUFFER_SIZE - readpos b < BUFFER_SIZE" using False by (auto simp: rb_wf_def)
  then show ?thesis using False by (simp add: rb_length_def)
qed

lemma rb_length_bound: "rb_length b < BUFFER_SIZE"
  by (simp add: rb_length_def BUFFER_SIZE_def)

lemma rb_wf_store: "rb_wf b \<Longrightarrow> rb_wf (store b d)"
  by (simp add: store_eq) (simp add: rb_wf_def BUFFER_SIZE_def)

lemma rb_wf_fetch: "rb_wf b \<Longrightarrow> rb_wf (snd (fetch b))"
  by (simp add: fetch_eq) (simp add: rb_wf_def BUFFER_SIZE_def)

lemma rb_length_full: "rb_wf b \<Longrightarrow> is_full b \<longleftrightarrow> rb_length b = BUFFER_SIZE - 1"
  using wrap [of "writepos b"] rb_length_eq [of b]
  by (auto simp: is_full_def rb_wf_def BUFFER_SIZE_def split: if_splits)

lemma rb_length_empty: "rb_wf b \<Longrightarrow> is_empty b \<longleftrightarrow> rb_length b = 0"
  by (auto simp: rb_length_eq is_empty_def rb_wf_def)

lemma rb_length_store:
  assumes "rb_wf b" and "\<not> is_full b"
  shows "rb_length (store b d) = rb_length b + 1"
  using assms wrap [of "writepos b"] rb_length_eq [OF assms(1)] rb_length_eq [OF rb_wf_store [OF assms(1)], of d]
  by (auto simp: store_eq is_full_def rb_wf_def split: if_splits)

lemma rb_write_index:
  assumes "rb_wf b"
  shows "(readpos b + rb_length b) mod BUFFER_SIZE = writepos b"
  using assms by (auto simp: rb_length_eq rb_wf_def)

lemma rb_length_fetch:
  assumes "rb_wf b" and "\<not> is_empty b"
  shows "rb_length b = rb_length (snd (fetch b)) + 1"
  using assms wrap [of "readpos b"] rb_length_eq [OF assms(1)] rb_length_eq [OF rb_wf_fetch [OF assms(1)]]
  by (auto simp: fetch_eq is_empty_def rb_wf_def split: if_splits)

text \<open>Different places of the stored part of the buffer are different cells.\<close>

lemma rb_index_inj:
  assumes "i < BUFFER_SIZE" and "j < BUFFER_SIZE" and "(p + i) mod BUFFER_SIZE = (p + j) mod BUFFER_SIZE"
  shows "i = j"
proof -
  have "i mod BUFFER_SIZE = j mod BUFFER_SIZE"
    using assms(3) unfolding nat_mod_eq_iff by auto
  then show ?thesis using assms(1,2) by simp
qed

lemma contents_store:
  assumes "rb_wf b" and "\<not> is_full b"
  shows "contents (store b d) = contents b @ [d]"
proof -
  have w: "writepos b < length (buffer b)" using assms(1) by (simp add: rb_wf_def)
  have "buffer (store b d) ! ((readpos b + i) mod BUFFER_SIZE) = buffer b ! ((readpos b + i) mod BUFFER_SIZE)"
    if "i < rb_length b" for i
  proof -
    have "(readpos b + i) mod BUFFER_SIZE \<noteq> writepos b"
      using rb_index_inj [of i "rb_length b" "readpos b"] rb_length_bound [of b] that
      by (auto simp: rb_write_index [OF assms(1)])
    then show ?thesis using assms(1) by (simp add: store_eq)
  qed
  moreover have "buffer (store b d) ! ((readpos b + rb_length b) mod BUFFER_SIZE) = d"
    using w assms(1) by (simp add: rb_write_index store_eq)
  moreover have "readpos (store b d) = readpos b" using assms(1) by (simp add: store_eq)
  ultimately show ?thesis by (simp add: contents_def rb_length_store [OF assms])
qed

lemma contents_fetch:
  assumes "rb_wf b" and "\<not> is_empty b"
  shows "contents b = fst (fetch b) # contents (snd (fetch b))"
proof -
  have r: "readpos b < BUFFER_SIZE" using assms(1) by (simp add: rb_wf_def)
  have "contents b = map (\<lambda>i. buffer b ! ((readpos b + i) mod BUFFER_SIZE)) (0 # map Suc [0..<rb_length (snd (fetch b))])"
    unfolding contents_def rb_length_fetch [OF assms] by (simp add: upt_conv_Cons map_Suc_upt del: upt_Suc)
  also have "\<dots> = fst (fetch b) # contents (snd (fetch b))"
    using assms(1) r by (simp add: contents_def fetch_eq mod_simps)
  finally show ?thesis .
qed

lemma contents_init: "length (buffer b) = BUFFER_SIZE \<Longrightarrow> rb_wf (init_buffer b) \<and> contents (init_buffer b) = []"
  by (simp add: init_buffer_def rb_wf_def contents_def rb_length_def BUFFER_SIZE_def)

lemma contents_empty: "rb_wf b \<Longrightarrow> is_empty b \<longleftrightarrow> contents b = []"
  by (simp add: rb_length_empty contents_def)

lemma contents_full: "rb_wf b \<Longrightarrow> is_full b \<longleftrightarrow> length (contents b) = BUFFER_SIZE - 1"
  by (simp add: rb_length_full contents_def)

section \<open>Bounded queues\<close>

text \<open>
  What the programs rely on: a queue of bounded capacity, first in, first out. The lemmas follow a stream of
  values through it: what has come out, what is inside and what is still to go in make up the stream.
\<close>

locale bounded_fifo =
  fixes wf :: "'b \<Rightarrow> bool" and view :: "'b \<Rightarrow> 'a list" and put :: "'b \<Rightarrow> 'a \<Rightarrow> 'b"
    and get :: "'b \<Rightarrow> 'a \<times> 'b" and full :: "'b \<Rightarrow> bool" and empty :: "'b \<Rightarrow> bool" and cap :: nat
  assumes put_wf: "wf b \<Longrightarrow> wf (put b x)"
    and get_wf: "wf b \<Longrightarrow> wf (snd (get b))"
    and put_view: "wf b \<Longrightarrow> \<not> full b \<Longrightarrow> view (put b x) = view b @ [x]"
    and get_view: "wf b \<Longrightarrow> \<not> empty b \<Longrightarrow> view b = fst (get b) # view (snd (get b))"
    and full_view: "wf b \<Longrightarrow> full b \<longleftrightarrow> length (view b) = cap"
    and empty_view: "wf b \<Longrightarrow> empty b \<longleftrightarrow> view b = []"
    and cap_pos: "0 < cap"
begin

lemma flow_put: "wf b \<Longrightarrow> \<not> full b \<Longrightarrow> src = out @ view b @ x # rest \<Longrightarrow> src = out @ view (put b x) @ rest"
  by (simp add: put_view)

lemma flow_get: "wf b \<Longrightarrow> \<not> empty b \<Longrightarrow> src = out @ view b @ rest \<Longrightarrow>
    src = (out @ [fst (get b)]) @ view (snd (get b)) @ rest"
  by (simp add: get_view [of b])

lemma not_full_and_empty: "wf b \<Longrightarrow> full b \<Longrightarrow> \<not> empty b"
  using cap_pos by (auto simp: full_view empty_view)

end

interpretation rb: bounded_fifo rb_wf contents store fetch is_full is_empty "BUFFER_SIZE - 1"
  by unfold_locales
    (simp_all add: rb_wf_store rb_wf_fetch contents_store contents_fetch [symmetric] contents_full contents_empty,
      simp add: BUFFER_SIZE_def)

section \<open>What the producer sends\<close>

definition item :: "nat \<Rightarrow> int" where
  "item k = (if k < ITEMS then int k else OVER)"

definition stream :: "int list" where
  "stream = map item [0..<ITEMS + 1]"

lemma stream_eq: "stream = map int [0..<ITEMS] @ [OVER]"
  by (simp add: stream_def item_def)

lemma stream_split: "k \<le> ITEMS \<Longrightarrow> map item [k..<ITEMS + 1] = item k # map item [k + 1..<ITEMS + 1]"
  by (simp add: upt_conv_Cons del: upt_Suc)

lemma length_stream [simp]: "length stream = ITEMS + 1"
  by (simp add: stream_def)

text \<open>The end mark comes last.\<close>

lemma stream_over:
  assumes "stream = (xs @ [OVER]) @ ys"
  shows "xs = map int [0..<ITEMS] \<and> ys = []"
proof (cases ys rule: rev_exhaust)
  case Nil
  then show ?thesis using assms by (simp add: stream_eq)
next
  case (snoc zs z)
  then have "OVER \<in> set (map int [0..<ITEMS])" using assms by (auto simp: stream_eq)
  then show ?thesis by (auto simp: OVER_def)
qed

section \<open>The program with a mutex and conditions\<close>

text \<open>
  The bodies of \<open>put\<close> and \<open>get\<close> of \<open>ex2.c\<close> between taking the mutex and giving it up: \<open>None\<close> if the loop
  calls \<open>pthread_cond_wait\<close>. After a wake-up the thread owns the mutex again and tests the condition again.
\<close>

definition put :: "prodcons \<Rightarrow> int \<Rightarrow> prodcons option" where
  "put b data = (if is_full b then None else Some (store b data))"

definition get :: "prodcons \<Rightarrow> (int \<times> prodcons) option" where
  "get b = (if is_empty b then None else Some (fetch b))"

datatype ppc = P_print | P_put | P_wait | P_woken | P_end

datatype cpc = C_get | C_wait | C_woken | C_got int | C_end

record ex2 =
  buf :: prodcons
  loop_n :: nat
  pp :: ppc
  cc :: cpc
  left :: "int list"
  right :: "int list"

text \<open>
  One step of the producer or of the consumer. \<open>loop_n\<close> is the loop variable of the producer, \<open>ITEMS\<close> when it
  puts the end mark; \<open>left\<close> and \<open>right\<close> are the numbers printed by the producer and by the consumer. A signal
  of a condition wakes the other thread if that waits for the condition.
\<close>

inductive ex2_step :: "ex2 \<Rightarrow> ex2 \<Rightarrow> bool" where
  produce: "pp s = P_print \<Longrightarrow> loop_n s < ITEMS \<Longrightarrow>
    ex2_step s (s\<lparr>pp := P_put, left := left s @ [int (loop_n s)]\<rparr>)"
| finish: "pp s = P_print \<Longrightarrow> loop_n s = ITEMS \<Longrightarrow> ex2_step s (s\<lparr>pp := P_put\<rparr>)"
| put_some: "pp s = P_put \<or> pp s = P_woken \<Longrightarrow> put (buf s) (item (loop_n s)) = Some b \<Longrightarrow>
    ex2_step s (s\<lparr>buf := b, loop_n := loop_n s + 1, pp := if loop_n s < ITEMS then P_print else P_end,
      cc := if cc s = C_wait then C_woken else cc s\<rparr>)"
| put_none: "pp s = P_put \<or> pp s = P_woken \<Longrightarrow> put (buf s) (item (loop_n s)) = None \<Longrightarrow> ex2_step s (s\<lparr>pp := P_wait\<rparr>)"
| get_some: "cc s = C_get \<or> cc s = C_woken \<Longrightarrow> get (buf s) = Some (d, b) \<Longrightarrow>
    ex2_step s (s\<lparr>buf := b, cc := C_got d, pp := if pp s = P_wait then P_woken else pp s\<rparr>)"
| get_none: "cc s = C_get \<or> cc s = C_woken \<Longrightarrow> get (buf s) = None \<Longrightarrow> ex2_step s (s\<lparr>cc := C_wait\<rparr>)"
| consume: "cc s = C_got d \<Longrightarrow> d \<noteq> OVER \<Longrightarrow> ex2_step s (s\<lparr>cc := C_get, right := right s @ [d]\<rparr>)"
| stop: "cc s = C_got OVER \<Longrightarrow> ex2_step s (s\<lparr>cc := C_end\<rparr>)"

definition ex2_start :: ex2 where
  "ex2_start = \<lparr>buf = init_buffer \<lparr>buffer = replicate BUFFER_SIZE 0, readpos = 0, writepos = 0\<rparr>, loop_n = 0,
     pp = P_print, cc = C_get, left = [], right = []\<rparr>"

inductive ex2_reach :: "ex2 \<Rightarrow> bool" where
  start: "ex2_reach ex2_start"
| step: "ex2_reach s \<Longrightarrow> ex2_step s s' \<Longrightarrow> ex2_reach s'"

inductive_cases ex2_stepE: "ex2_step s s'"

text \<open>What the consumer has taken out of the buffer.\<close>

definition taken :: "cpc \<Rightarrow> int list \<Rightarrow> int list" where
  "taken c out = out @ (case c of C_got d \<Rightarrow> [d] | C_end \<Rightarrow> [OVER] | _ \<Rightarrow> [])"

lemma taken_simps [simp]:
  "taken C_get out = out" "taken C_wait out = out" "taken C_woken out = out" "taken (C_got d) out = out @ [d]"
  "taken C_end out = out @ [OVER]"
  by (simp_all add: taken_def)

definition ex2_inv :: "ex2 \<Rightarrow> bool" where
  "ex2_inv s \<longleftrightarrow> rb_wf (buf s) \<and> loop_n s \<le> ITEMS + 1 \<and> (pp s = P_end \<longleftrightarrow> loop_n s = ITEMS + 1) \<and>
     stream = taken (cc s) (right s) @ contents (buf s) @ map item [loop_n s..<ITEMS + 1] \<and> OVER \<notin> set (right s) \<and>
     left s = map int [0..<min ITEMS (loop_n s + (if pp s = P_print then 0 else 1))] \<and>
     (pp s = P_wait \<longrightarrow> is_full (buf s)) \<and> (cc s = C_wait \<longrightarrow> is_empty (buf s))"

lemma ex2_inv_start: "ex2_inv ex2_start"
  using contents_init [of "\<lparr>buffer = replicate BUFFER_SIZE 0, readpos = 0, writepos = 0\<rparr>"]
  by (simp add: ex2_inv_def ex2_start_def stream_def del: upt_Suc)

lemma ex2_inv_put:
  assumes "ex2_inv s" and "pp s = P_put \<or> pp s = P_woken" and "\<not> is_full (buf s)"
  shows "ex2_inv (s\<lparr>buf := store (buf s) (item (loop_n s)), loop_n := loop_n s + 1,
    pp := if loop_n s < ITEMS then P_print else P_end, cc := if cc s = C_wait then C_woken else cc s\<rparr>)"
proof -
  let ?c = "if cc s = C_wait then C_woken else cc s"
  have n: "loop_n s \<le> ITEMS" using assms(1,2) by (auto simp: ex2_inv_def)
  have t: "taken ?c (right s) = taken (cc s) (right s)" by simp
  have "stream = taken (cc s) (right s) @ contents (buf s) @ item (loop_n s) # map item [loop_n s + 1..<ITEMS + 1]"
    using assms(1) unfolding ex2_inv_def stream_split [OF n] by blast
  then have "stream = taken ?c (right s) @ contents (store (buf s) (item (loop_n s))) @ map item [loop_n s + 1..<ITEMS + 1]"
    unfolding t by (rule rb.flow_put [rotated 2]) (use assms in \<open>simp_all add: ex2_inv_def\<close>)
  then show ?thesis using assms n rb_wf_store unfolding ex2_inv_def by (auto simp del: upt_Suc)
qed

lemma ex2_inv_get:
  assumes "ex2_inv s" and "cc s = C_get \<or> cc s = C_woken" and "\<not> is_empty (buf s)"
  shows "ex2_inv (s\<lparr>buf := snd (fetch (buf s)), cc := C_got (fst (fetch (buf s))), pp := if pp s = P_wait then P_woken else pp s\<rparr>)"
proof -
  have "stream = right s @ contents (buf s) @ map item [loop_n s..<ITEMS + 1]"
    using assms(1,2) by (auto simp: ex2_inv_def simp del: upt_Suc)
  then have "stream = (right s @ [fst (fetch (buf s))]) @ contents (snd (fetch (buf s))) @ map item [loop_n s..<ITEMS + 1]"
    by (rule rb.flow_get [rotated 2]) (use assms in \<open>simp_all add: ex2_inv_def\<close>)
  then show ?thesis using assms rb_wf_fetch unfolding ex2_inv_def by (auto simp del: upt_Suc)
qed

lemma ex2_inv_step: "ex2_step s s' \<Longrightarrow> ex2_inv s \<Longrightarrow> ex2_inv s'"
proof (induction rule: ex2_step.induct)
  case (put_some s b)
  then show ?case using ex2_inv_put [of s] by (auto simp: put_def split: if_splits)
next
  case (get_some s d b)
  then show ?case using ex2_inv_get [of s] by (auto simp: get_def split: if_splits)
next
  case (produce s)
  then have "min ITEMS (loop_n s + 1) = loop_n s + 1" "min ITEMS (loop_n s) = loop_n s" by simp_all
  then have "map int [0..<min ITEMS (loop_n s + 1)] = map int [0..<min ITEMS (loop_n s)] @ [int (loop_n s)]" by simp
  with produce show ?case by (auto simp: ex2_inv_def simp del: upt_Suc)
qed (auto simp: ex2_inv_def put_def get_def min_def simp del: upt_Suc split: if_splits)

lemma ex2_reach_inv: "ex2_reach s \<Longrightarrow> ex2_inv s"
  by (induction rule: ex2_reach.induct) (auto intro: ex2_inv_start ex2_inv_step)

text \<open>A program that cannot go on has done everything.\<close>

lemma ex2_stuck_final:
  assumes "ex2_inv s" and "\<not> (\<exists>s'. ex2_step s s')"
  shows "left s = map int [0..<ITEMS] \<and> right s = map int [0..<ITEMS]"
proof -
  have n: "pp s \<noteq> P_end \<Longrightarrow> loop_n s \<le> ITEMS" using assms(1) by (auto simp: ex2_inv_def)
  have p: "pp s = P_wait \<or> pp s = P_end"
  proof (cases "pp s")
    case P_print
    then show ?thesis using assms(2) n produce [of s] finish [of s] by (cases "loop_n s < ITEMS") auto
  next
    case P_put
    then show ?thesis
      using assms(2) put_some [of s] put_none [of s] by (cases "put (buf s) (item (loop_n s))") auto
  next
    case P_woken
    then show ?thesis
      using assms(2) put_some [of s] put_none [of s] by (cases "put (buf s) (item (loop_n s))") auto
  qed auto
  have c: "cc s = C_wait \<or> cc s = C_end"
  proof (cases "cc s")
    case C_get
    then show ?thesis using assms(2) get_some [of s] get_none [of s] by (cases "get (buf s)") auto
  next
    case C_woken
    then show ?thesis using assms(2) get_some [of s] get_none [of s] by (cases "get (buf s)") auto
  next
    case (C_got d)
    then show ?thesis using assms(2) consume [of s d] stop [of s] by (cases "d = OVER") auto
  qed auto
  have w: "rb_wf (buf s)" and st: "stream = taken (cc s) (right s) @ contents (buf s) @ map item [loop_n s..<ITEMS + 1]"
    and nov: "OVER \<notin> set (right s)" using assms(1) by (simp_all add: ex2_inv_def del: upt_Suc)
  have e: "cc s = C_end"
  proof (rule ccontr)
    assume "cc s \<noteq> C_end"
    then have cw: "cc s = C_wait" using c by simp
    then have em: "is_empty (buf s)" using assms(1) by (simp add: ex2_inv_def)
    have "pp s \<noteq> P_wait" using assms(1) em rb.not_full_and_empty [OF w] by (auto simp: ex2_inv_def)
    then have "loop_n s = ITEMS + 1" using p assms(1) by (simp add: ex2_inv_def)
    then have "stream = right s" using st cw em contents_empty [OF w] by simp
    moreover have "OVER \<in> set stream" by (simp add: stream_eq)
    ultimately show False using nov by simp
  qed
  then have "stream = (right s @ [OVER]) @ contents (buf s) @ map item [loop_n s..<ITEMS + 1]" using st by simp
  from stream_over [OF this] have r: "right s = map int [0..<ITEMS]" "contents (buf s) = []" by auto
  then have "pp s \<noteq> P_wait" using assms(1) rb.not_full_and_empty [OF w] contents_empty [OF w] by (auto simp: ex2_inv_def)
  then have "pp s = P_end" using p by simp
  then have "left s = map int [0..<ITEMS]" using assms(1) by (simp add: ex2_inv_def del: upt_Suc)
  with r show ?thesis by simp
qed

text \<open>Every step brings the program nearer to its end.\<close>

fun p_weight :: "ppc \<Rightarrow> nat" where
  "p_weight P_print = 3" | "p_weight P_put = 2" | "p_weight P_woken = 2" | "p_weight P_wait = 1" | "p_weight P_end = 0"

fun c_weight :: "cpc \<Rightarrow> nat" where
  "c_weight (C_got d) = 3" | "c_weight C_get = 2" | "c_weight C_woken = 2" | "c_weight C_wait = 1" | "c_weight C_end = 0"

definition ex2_measure :: "ex2 \<Rightarrow> nat" where
  "ex2_measure s = 10 * (ITEMS + 1 - loop_n s) + 10 * (ITEMS + 1 - length (taken (cc s) (right s))) +
     p_weight (pp s) + c_weight (cc s)"

lemma ex2_measure_step:
  assumes "ex2_step s s'" and "ex2_inv s"
  shows "ex2_measure s' < ex2_measure s"
  using assms
proof (induction rule: ex2_step.induct)
  case (put_some s b)
  then have "loop_n s \<le> ITEMS" by (auto simp: ex2_inv_def)
  with put_some show ?case by (cases "cc s") (auto simp: ex2_measure_def)
next
  case (get_some s d b)
  then have st: "stream = right s @ contents (buf s) @ map item [loop_n s..<ITEMS + 1]" and ne: "contents (buf s) \<noteq> []"
    using contents_empty [of "buf s"] by (auto simp: ex2_inv_def get_def simp del: upt_Suc split: if_splits)
  from arg_cong [OF st, of length] ne have "length (right s) \<le> ITEMS" by (cases "contents (buf s)") auto
  with get_some show ?case by (cases "pp s") (auto simp: ex2_measure_def)
qed (auto simp: ex2_measure_def)

text \<open>
  A program that comes nearer to its end with every step and has one possible output at the end: every run
  is finite, and that output is the one with which it ends.
\<close>

locale finishing =
  fixes start :: "'s" and step :: "'s \<Rightarrow> 's \<Rightarrow> bool" and reach :: "'s \<Rightarrow> bool" and m :: "'s \<Rightarrow> nat"
    and out :: "'s \<Rightarrow> 'o" and outcome :: "'o"
  assumes reach_start: "reach start"
    and reach_step: "reach s \<Longrightarrow> step s s' \<Longrightarrow> reach s'"
    and nearer: "reach s \<Longrightarrow> step s s' \<Longrightarrow> m s' < m s"
    and final: "reach s \<Longrightarrow> \<not> (\<exists>s'. step s s') \<Longrightarrow> out s = outcome"
begin

lemma reaches_stuck: "reach s \<Longrightarrow> \<exists>t. reach t \<and> \<not> (\<exists>t'. step t t')"
proof (induction "m s" arbitrary: s rule: less_induct)
  case less
  show ?case
  proof (cases "\<exists>s'. step s s'")
    case True
    then obtain s' where "step s s'" by blast
    with reach_step nearer less show ?thesis by blast
  qed (use less.prems in blast)
qed

lemma outcomes: "{out s |s. reach s \<and> \<not> (\<exists>s'. step s s')} = {outcome}"
proof -
  obtain t where "reach t" "\<not> (\<exists>t'. step t t')" using reaches_stuck [OF reach_start] by blast
  with final show ?thesis by auto
qed

lemma no_infinite_run: "\<not> (\<exists>f. f 0 = start \<and> (\<forall>i. step (f i) (f (Suc i))))"
proof
  assume "\<exists>f. f 0 = start \<and> (\<forall>i. step (f i) (f (Suc i)))"
  then obtain f where f: "f 0 = start" "\<forall>i. step (f i) (f (Suc i))" by blast
  have r: "reach (f i)" for i by (induction i) (use f reach_start reach_step in auto)
  have "m (f i) + i \<le> m (f 0)" for i
  proof (induction i)
    case (Suc i)
    moreover have "m (f (Suc i)) < m (f i)" using nearer r f(2) by blast
    ultimately show ?case by simp
  qed simp
  from this [of "Suc (m (f 0))"] show False by simp
qed

end

interpretation e2: finishing ex2_start ex2_step ex2_reach ex2_measure "\<lambda>s. (left s, right s)"
  "(map int [0..<ITEMS], map int [0..<ITEMS])"
proof
  fix s s'
  show "ex2_reach ex2_start" by (rule ex2_reach.intros)
  show "ex2_reach s \<Longrightarrow> ex2_step s s' \<Longrightarrow> ex2_reach s'" by (rule ex2_reach.intros)
  show "ex2_reach s \<Longrightarrow> ex2_step s s' \<Longrightarrow> ex2_measure s' < ex2_measure s"
    by (blast intro: ex2_measure_step ex2_reach_inv)
  show "ex2_reach s \<Longrightarrow> \<not> (\<exists>s'. ex2_step s s') \<Longrightarrow>
    (left s, right s) = (map int [0..<ITEMS], map int [0..<ITEMS])"
    using ex2_stuck_final [OF ex2_reach_inv] by simp
qed

text \<open>
  C28. The producer-consumer program of \<open>ex2.c\<close>. Every run of the two threads is finite, whatever their
  interleaving, and when it is over, the numbers from 0 to 9999 have been printed exactly twice, in order, once
  by the producer and once by the consumer: these are the only outputs with which a run can end.
\<close>

theorem ex2_prints_every_number_twice:
  "{(left s, right s) |s. ex2_reach s \<and> \<not> (\<exists>s'. ex2_step s s')} = {(map int [0..<ITEMS], map int [0..<ITEMS])} \<and>
   (\<nexists>f. f 0 = ex2_start \<and> (\<forall>i. ex2_step (f i) (f (Suc i))))"
  using e2.outcomes e2.no_infinite_run by simp

section \<open>The program with semaphores\<close>

datatype ppc5 = Q_print | Q_wait | Q_store | Q_post | Q_end

datatype cpc5 = D_wait | D_fetch | D_post int | D_got int | D_end

record ex5 =
  buf5 :: prodcons
  sem_read :: nat
  sem_write :: nat
  loop_n5 :: nat
  pp5 :: ppc5
  cc5 :: cpc5
  left5 :: "int list"
  right5 :: "int list"

text \<open>
  One step of the producer or of the consumer of \<open>ex5.c\<close>. There is no mutex: between the operations on the
  semaphores the two threads access the buffer independently of each other.
\<close>

inductive ex5_step :: "ex5 \<Rightarrow> ex5 \<Rightarrow> bool" where
  produce5: "pp5 s = Q_print \<Longrightarrow> loop_n5 s < ITEMS \<Longrightarrow>
    ex5_step s (s\<lparr>pp5 := Q_wait, left5 := left5 s @ [int (loop_n5 s)]\<rparr>)"
| finish5: "pp5 s = Q_print \<Longrightarrow> loop_n5 s = ITEMS \<Longrightarrow> ex5_step s (s\<lparr>pp5 := Q_wait\<rparr>)"
| wait_write: "pp5 s = Q_wait \<Longrightarrow> 0 < sem_write s \<Longrightarrow> ex5_step s (s\<lparr>pp5 := Q_store, sem_write := sem_write s - 1\<rparr>)"
| store_item: "pp5 s = Q_store \<Longrightarrow> ex5_step s (s\<lparr>pp5 := Q_post, buf5 := store (buf5 s) (item (loop_n5 s))\<rparr>)"
| post_read: "pp5 s = Q_post \<Longrightarrow> ex5_step s (s\<lparr>sem_read := sem_read s + 1, loop_n5 := loop_n5 s + 1,
    pp5 := if loop_n5 s < ITEMS then Q_print else Q_end\<rparr>)"
| wait_read: "cc5 s = D_wait \<Longrightarrow> 0 < sem_read s \<Longrightarrow> ex5_step s (s\<lparr>cc5 := D_fetch, sem_read := sem_read s - 1\<rparr>)"
| fetch_item: "cc5 s = D_fetch \<Longrightarrow> fetch (buf5 s) = (d, b) \<Longrightarrow> ex5_step s (s\<lparr>cc5 := D_post d, buf5 := b\<rparr>)"
| post_write: "cc5 s = D_post d \<Longrightarrow> ex5_step s (s\<lparr>cc5 := D_got d, sem_write := sem_write s + 1\<rparr>)"
| consume5: "cc5 s = D_got d \<Longrightarrow> d \<noteq> OVER \<Longrightarrow> ex5_step s (s\<lparr>cc5 := D_wait, right5 := right5 s @ [d]\<rparr>)"
| stop5: "cc5 s = D_got OVER \<Longrightarrow> ex5_step s (s\<lparr>cc5 := D_end\<rparr>)"

definition ex5_start :: ex5 where
  "ex5_start = \<lparr>buf5 = init_buffer \<lparr>buffer = replicate BUFFER_SIZE 0, readpos = 0, writepos = 0\<rparr>,
     sem_read = 0, sem_write = BUFFER_SIZE - 1, loop_n5 = 0, pp5 = Q_print, cc5 = D_wait, left5 = [], right5 = []\<rparr>"

inductive ex5_reach :: "ex5 \<Rightarrow> bool" where
  start5: "ex5_reach ex5_start"
| step5: "ex5_reach s \<Longrightarrow> ex5_step s s' \<Longrightarrow> ex5_reach s'"

definition taken5 :: "cpc5 \<Rightarrow> int list \<Rightarrow> int list" where
  "taken5 c out = out @ (case c of D_post d \<Rightarrow> [d] | D_got d \<Rightarrow> [d] | D_end \<Rightarrow> [OVER] | _ \<Rightarrow> [])"

lemma taken5_simps [simp]:
  "taken5 D_wait out = out" "taken5 D_fetch out = out" "taken5 (D_post d) out = out @ [d]"
  "taken5 (D_got d) out = out @ [d]" "taken5 D_end out = out @ [OVER]"
  by (simp_all add: taken5_def)

text \<open>
  The invariant: the counts of the semaphores and the threads between two operations account for every cell of
  the buffer.
\<close>

definition d_posting :: "cpc5 \<Rightarrow> nat" where
  "d_posting c = (case c of D_post _ \<Rightarrow> 1 | _ \<Rightarrow> 0)"

lemma d_posting_simps [simp]:
  "d_posting D_wait = 0" "d_posting D_fetch = 0" "d_posting (D_post d) = 1" "d_posting (D_got d) = 0" "d_posting D_end = 0"
  by (simp_all add: d_posting_def)

definition ex5_inv :: "ex5 \<Rightarrow> bool" where
  "ex5_inv s \<longleftrightarrow> rb_wf (buf5 s) \<and> loop_n5 s \<le> ITEMS + 1 \<and> (pp5 s = Q_end \<longleftrightarrow> loop_n5 s = ITEMS + 1) \<and>
     stream = taken5 (cc5 s) (right5 s) @ contents (buf5 s) @
       map item [loop_n5 s + (if pp5 s = Q_post then 1 else 0)..<ITEMS + 1] \<and> OVER \<notin> set (right5 s) \<and>
     left5 s = map int [0..<min ITEMS (loop_n5 s + (if pp5 s = Q_print then 0 else 1))] \<and>
     length (contents (buf5 s)) = sem_read s + (if pp5 s = Q_post then 1 else 0) + (if cc5 s = D_fetch then 1 else 0) \<and>
     length (contents (buf5 s)) + sem_write s + (if pp5 s = Q_store then 1 else 0) + d_posting (cc5 s) = BUFFER_SIZE - 1"

lemma ex5_inv_start: "ex5_inv ex5_start"
  using contents_init [of "\<lparr>buffer = replicate BUFFER_SIZE 0, readpos = 0, writepos = 0\<rparr>"]
  by (simp add: ex5_inv_def ex5_start_def stream_def del: upt_Suc)

lemma ex5_inv_store:
  assumes "ex5_inv s" and "pp5 s = Q_store"
  shows "ex5_inv (s\<lparr>pp5 := Q_post, buf5 := store (buf5 s) (item (loop_n5 s))\<rparr>)"
proof -
  have n: "loop_n5 s \<le> ITEMS" and w: "rb_wf (buf5 s)" and nf: "\<not> is_full (buf5 s)"
    using assms contents_full [of "buf5 s"] by (auto simp: ex5_inv_def)
  have "stream = taken5 (cc5 s) (right5 s) @ contents (buf5 s) @ map item [loop_n5 s..<ITEMS + 1]"
    using assms by (simp add: ex5_inv_def del: upt_Suc)
  then have "stream = taken5 (cc5 s) (right5 s) @ contents (buf5 s) @ item (loop_n5 s) # map item [loop_n5 s + 1..<ITEMS + 1]"
    unfolding stream_split [OF n] .
  from rb.flow_put [OF w nf this] show ?thesis
    using assms n rb_wf_store [OF w] contents_store [OF w nf] unfolding ex5_inv_def by (auto simp del: upt_Suc)
qed

lemma ex5_inv_fetch:
  assumes "ex5_inv s" and "cc5 s = D_fetch"
  shows "ex5_inv (s\<lparr>cc5 := D_post (fst (fetch (buf5 s))), buf5 := snd (fetch (buf5 s))\<rparr>)"
proof -
  have w: "rb_wf (buf5 s)" and ne: "\<not> is_empty (buf5 s)"
    using assms contents_empty [of "buf5 s"] by (auto simp: ex5_inv_def)
  let ?rest = "map item [loop_n5 s + (if pp5 s = Q_post then 1 else 0)..<ITEMS + 1]"
  have "stream = right5 s @ contents (buf5 s) @ ?rest" using assms by (simp add: ex5_inv_def del: upt_Suc)
  from rb.flow_get [OF w ne this] have "stream = (right5 s @ [fst (fetch (buf5 s))]) @ contents (snd (fetch (buf5 s))) @ ?rest" .
  moreover have "length (contents (buf5 s)) = length (contents (snd (fetch (buf5 s)))) + 1"
    using contents_fetch [OF w ne] by (metis length_Cons Suc_eq_plus1)
  ultimately show ?thesis using assms rb_wf_fetch [OF w] unfolding ex5_inv_def by (auto simp del: upt_Suc)
qed

lemma ex5_inv_step: "ex5_step s s' \<Longrightarrow> ex5_inv s \<Longrightarrow> ex5_inv s'"
proof (induction rule: ex5_step.induct)
  case (store_item s)
  then show ?case using ex5_inv_store by blast
next
  case (fetch_item s d b)
  then show ?case using ex5_inv_fetch [of s] by simp
next
  case (produce5 s)
  then have "min ITEMS (loop_n5 s + 1) = loop_n5 s + 1" "min ITEMS (loop_n5 s) = loop_n5 s" by simp_all
  then have "map int [0..<min ITEMS (loop_n5 s + 1)] = map int [0..<min ITEMS (loop_n5 s)] @ [int (loop_n5 s)]" by simp
  with produce5 show ?case by (auto simp: ex5_inv_def simp del: upt_Suc)
qed (auto simp: ex5_inv_def min_def simp del: upt_Suc split: if_splits)

lemma ex5_reach_inv: "ex5_reach s \<Longrightarrow> ex5_inv s"
  by (induction rule: ex5_reach.induct) (auto intro: ex5_inv_start ex5_inv_step)

lemma ex5_stuck_final:
  assumes "ex5_inv s" and "\<not> (\<exists>s'. ex5_step s s')"
  shows "left5 s = map int [0..<ITEMS] \<and> right5 s = map int [0..<ITEMS]"
proof -
  have st: "stream = taken5 (cc5 s) (right5 s) @ contents (buf5 s) @ map item [loop_n5 s + (if pp5 s = Q_post then 1 else 0)..<ITEMS + 1]"
    and nov: "OVER \<notin> set (right5 s)" and bound: "loop_n5 s \<le> ITEMS + 1" "pp5 s = Q_end \<longleftrightarrow> loop_n5 s = ITEMS + 1"
    using assms(1) by (simp_all add: ex5_inv_def del: upt_Suc)
  have p: "pp5 s = Q_end \<or> (pp5 s = Q_wait \<and> sem_write s = 0)"
  proof (cases "pp5 s")
    case Q_print
    then have "loop_n5 s < ITEMS \<or> loop_n5 s = ITEMS" using bound by auto
    then show ?thesis using assms(2) Q_print ex5_step.produce5 ex5_step.finish5 by blast
  qed (use assms(2) in \<open>auto intro: ex5_step.intros\<close>)
  have c: "cc5 s = D_end \<or> (cc5 s = D_wait \<and> sem_read s = 0)"
  proof (cases "cc5 s")
    case D_fetch
    then show ?thesis using assms(2) ex5_step.fetch_item [of s "fst (fetch (buf5 s))" "snd (fetch (buf5 s))"] by auto
  next
    case (D_got d)
    then show ?thesis using assms(2) ex5_step.consume5 [of s d] ex5_step.stop5 [of s] by (cases "d = OVER") auto
  qed (use assms(2) in \<open>auto intro: ex5_step.intros\<close>)
  have e: "cc5 s = D_end"
  proof (rule ccontr)
    assume "cc5 s \<noteq> D_end"
    then have cw: "cc5 s = D_wait" "sem_read s = 0" using c by simp_all
    then have em: "contents (buf5 s) = []" using assms(1) p by (auto simp: ex5_inv_def)
    then have "pp5 s \<noteq> Q_wait" using assms(1) p cw by (auto simp: ex5_inv_def BUFFER_SIZE_def)
    then have "stream = right5 s" using st cw em p bound by simp
    moreover have "OVER \<in> set stream" by (simp add: stream_eq)
    ultimately show False using nov by simp
  qed
  then have "stream = (right5 s @ [OVER]) @ contents (buf5 s) @
    map item [loop_n5 s + (if pp5 s = Q_post then 1 else 0)..<ITEMS + 1]" using st by simp
  from stream_over [OF this] have r: "right5 s = map int [0..<ITEMS]" "contents (buf5 s) = []" by auto
  then have "pp5 s \<noteq> Q_wait" using assms(1) p e by (auto simp: ex5_inv_def BUFFER_SIZE_def)
  then have "left5 s = map int [0..<ITEMS]" using p assms(1) by (simp add: ex5_inv_def del: upt_Suc)
  with r show ?thesis by simp
qed

fun p_weight5 :: "ppc5 \<Rightarrow> nat" where
  "p_weight5 Q_print = 4" | "p_weight5 Q_wait = 3" | "p_weight5 Q_store = 2" | "p_weight5 Q_post = 1" | "p_weight5 Q_end = 0"

fun c_weight5 :: "cpc5 \<Rightarrow> nat" where
  "c_weight5 (D_post d) = 5" | "c_weight5 (D_got d) = 4" | "c_weight5 D_wait = 3" | "c_weight5 D_fetch = 2" | "c_weight5 D_end = 0"

definition ex5_measure :: "ex5 \<Rightarrow> nat" where
  "ex5_measure s = 10 * (ITEMS + 1 - loop_n5 s) + 10 * (ITEMS + 1 - length (taken5 (cc5 s) (right5 s))) +
     p_weight5 (pp5 s) + c_weight5 (cc5 s)"

lemma ex5_measure_step:
  assumes "ex5_step s s'" and "ex5_inv s"
  shows "ex5_measure s' < ex5_measure s"
  using assms
proof (induction rule: ex5_step.induct)
  case (post_read s)
  then have "loop_n5 s \<le> ITEMS" by (auto simp: ex5_inv_def)
  with post_read show ?case by (cases "cc5 s") (auto simp: ex5_measure_def)
next
  case (fetch_item s d b)
  then have st: "stream = right5 s @ contents (buf5 s) @ map item [loop_n5 s + (if pp5 s = Q_post then 1 else 0)..<ITEMS + 1]"
    and ne: "contents (buf5 s) \<noteq> []"
    by (auto simp: ex5_inv_def simp del: upt_Suc)
  from arg_cong [OF st, of length] ne have "length (right5 s) \<le> ITEMS" by (cases "contents (buf5 s)") auto
  with fetch_item show ?case by (cases "pp5 s") (auto simp: ex5_measure_def)
qed (auto simp: ex5_measure_def)

interpretation e5: finishing ex5_start ex5_step ex5_reach ex5_measure "\<lambda>s. (left5 s, right5 s)"
  "(map int [0..<ITEMS], map int [0..<ITEMS])"
proof
  fix s s'
  show "ex5_reach ex5_start" by (rule ex5_reach.intros)
  show "ex5_reach s \<Longrightarrow> ex5_step s s' \<Longrightarrow> ex5_reach s'" by (rule ex5_reach.intros)
  show "ex5_reach s \<Longrightarrow> ex5_step s s' \<Longrightarrow> ex5_measure s' < ex5_measure s"
    by (blast intro: ex5_measure_step ex5_reach_inv)
  show "ex5_reach s \<Longrightarrow> \<not> (\<exists>s'. ex5_step s s') \<Longrightarrow>
    (left5 s, right5 s) = (map int [0..<ITEMS], map int [0..<ITEMS])"
    using ex5_stuck_final [OF ex5_reach_inv] by simp
qed

text \<open>
  C29. The producer-consumer program of \<open>ex5.c\<close>, in which no mutex protects the buffer. Every run of the two
  threads is finite, whatever their interleaving, and it ends with the numbers from 0 to 9999 printed
  exactly twice, in order, once by the producer and once by the consumer. In every state on the way the two
  semaphores together count at most \<open>BUFFER_SIZE - 1\<close> cells, the producer never writes into a full buffer and
  the consumer never reads from an empty one.
\<close>

theorem ex5_prints_every_number_twice:
  "{(left5 s, right5 s) |s. ex5_reach s \<and> \<not> (\<exists>s'. ex5_step s s')} = {(map int [0..<ITEMS], map int [0..<ITEMS])} \<and>
   (\<nexists>f. f 0 = ex5_start \<and> (\<forall>i. ex5_step (f i) (f (Suc i)))) \<and>
   {s. ex5_reach s} \<inter> ({s. BUFFER_SIZE - 1 < sem_read s + sem_write s} \<union> {s. pp5 s = Q_store \<and> is_full (buf5 s)} \<union>
     {s. cc5 s = D_fetch \<and> is_empty (buf5 s)}) = {}"
proof (intro conjI)
  show "{s. ex5_reach s} \<inter> ({s. BUFFER_SIZE - 1 < sem_read s + sem_write s} \<union> {s. pp5 s = Q_store \<and> is_full (buf5 s)} \<union>
     {s. cc5 s = D_fetch \<and> is_empty (buf5 s)}) = {}"
  proof (rule equals0I)
    fix s
    assume s: "s \<in> {s. ex5_reach s} \<inter> ({s. BUFFER_SIZE - 1 < sem_read s + sem_write s} \<union>
      {s. pp5 s = Q_store \<and> is_full (buf5 s)} \<union> {s. cc5 s = D_fetch \<and> is_empty (buf5 s)})"
    then have "ex5_inv s" using ex5_reach_inv by simp
    with s contents_full [of "buf5 s"] contents_empty [of "buf5 s"] show False by (auto simp: ex5_inv_def)
  qed
qed (use e5.outcomes e5.no_infinite_run in simp_all)

section \<open>Two threads that write\<close>

text \<open>
  The program \<open>ex1.c\<close>: the main thread creates two threads, each of which writes its letter 10000 times, and joins them in
  the order of their creation. \<open>run_a\<close> and \<open>run_b\<close> are the loop variables of the threads, \<open>None\<close> before their
  creation; \<open>main1\<close> counts the calls that the main thread has made. Creation succeeds.
\<close>

definition LETTERS :: nat where "LETTERS = 10000"

record ex1 =
  run_a :: "nat option"
  run_b :: "nat option"
  out1 :: string
  main1 :: nat

inductive ex1_step :: "ex1 \<Rightarrow> ex1 \<Rightarrow> bool" where
  create_a: "main1 s = 0 \<Longrightarrow> ex1_step s (s\<lparr>run_a := Some 0, main1 := 1\<rparr>)"
| create_b: "main1 s = 1 \<Longrightarrow> ex1_step s (s\<lparr>run_b := Some 0, main1 := 2\<rparr>)"
| join_a: "main1 s = 2 \<Longrightarrow> run_a s = Some LETTERS \<Longrightarrow> ex1_step s (s\<lparr>main1 := 3\<rparr>)"
| join_b: "main1 s = 3 \<Longrightarrow> run_b s = Some LETTERS \<Longrightarrow> ex1_step s (s\<lparr>main1 := 4\<rparr>)"
| write_a: "run_a s = Some i \<Longrightarrow> i < LETTERS \<Longrightarrow>
    ex1_step s (s\<lparr>run_a := Some (i + 1), out1 := out1 s @ [CHR ''a'']\<rparr>)"
| write_b: "run_b s = Some i \<Longrightarrow> i < LETTERS \<Longrightarrow>
    ex1_step s (s\<lparr>run_b := Some (i + 1), out1 := out1 s @ [CHR ''b'']\<rparr>)"

definition ex1_start :: ex1 where
  "ex1_start = \<lparr>run_a = None, run_b = None, out1 = [], main1 = 0\<rparr>"

inductive ex1_reach :: "ex1 \<Rightarrow> bool" where
  start: "ex1_reach ex1_start"
| step: "ex1_reach s \<Longrightarrow> ex1_step s s' \<Longrightarrow> ex1_reach s'"

definition written :: "nat option \<Rightarrow> nat" where
  "written r = (case r of None \<Rightarrow> 0 | Some i \<Rightarrow> i)"

definition ex1_inv :: "ex1 \<Rightarrow> bool" where
  "ex1_inv s \<longleftrightarrow> main1 s \<le> 4 \<and> (run_a s \<noteq> None \<longleftrightarrow> 1 \<le> main1 s) \<and> (run_b s \<noteq> None \<longleftrightarrow> 2 \<le> main1 s) \<and>
     (3 \<le> main1 s \<longrightarrow> run_a s = Some LETTERS) \<and> (4 \<le> main1 s \<longrightarrow> run_b s = Some LETTERS) \<and>
     written (run_a s) \<le> LETTERS \<and> written (run_b s) \<le> LETTERS \<and>
     count_list (out1 s) (CHR ''a'') = written (run_a s) \<and> count_list (out1 s) (CHR ''b'') = written (run_b s) \<and>
     length (out1 s) = written (run_a s) + written (run_b s)"

lemma ex1_inv_step: "ex1_step s s' \<Longrightarrow> ex1_inv s \<Longrightarrow> ex1_inv s'"
  by (induction rule: ex1_step.induct) (auto simp: ex1_inv_def written_def)

lemma ex1_reach_inv: "ex1_reach s \<Longrightarrow> ex1_inv s"
  by (induction rule: ex1_reach.induct) (auto intro: ex1_inv_step, simp add: ex1_inv_def ex1_start_def written_def)

definition ex1_measure :: "ex1 \<Rightarrow> nat" where
  "ex1_measure s = (4 - main1 s) + (LETTERS - written (run_a s)) + (LETTERS - written (run_b s))"

lemma ex1_measure_step: "ex1_step s s' \<Longrightarrow> ex1_inv s \<Longrightarrow> ex1_measure s' < ex1_measure s"
  by (induction rule: ex1_step.induct) (auto simp: ex1_inv_def ex1_measure_def written_def)

lemma ex1_stuck:
  assumes "ex1_inv s" and "\<not> (\<exists>s'. ex1_step s s')"
  shows "main1 s = 4"
proof -
  have "main1 s \<noteq> 0" "main1 s \<noteq> 1" using assms(2) create_a create_b by blast+
  moreover have "i = LETTERS" if "run_a s = Some i" for i
    using that assms write_a [of s i] by (fastforce simp: ex1_inv_def written_def)
  then have "main1 s \<noteq> 2" using assms join_a [of s] by (cases "run_a s") (auto simp: ex1_inv_def)
  moreover have "i = LETTERS" if "run_b s = Some i" for i
    using that assms write_b [of s i] by (fastforce simp: ex1_inv_def written_def)
  then have "main1 s \<noteq> 3" using assms join_b [of s] by (cases "run_b s") (auto simp: ex1_inv_def)
  ultimately show ?thesis using assms(1) unfolding ex1_inv_def by linarith
qed

interpretation e1: finishing ex1_start ex1_step ex1_reach ex1_measure
  "\<lambda>s. (count_list (out1 s) (CHR ''a''), count_list (out1 s) (CHR ''b''), length (out1 s), main1 s)"
  "(LETTERS, LETTERS, 2 * LETTERS, 4)"
proof
  fix s s'
  show "ex1_reach ex1_start" by (rule ex1_reach.intros)
  show "ex1_reach s \<Longrightarrow> ex1_step s s' \<Longrightarrow> ex1_reach s'" by (rule ex1_reach.intros)
  show "ex1_reach s \<Longrightarrow> ex1_step s s' \<Longrightarrow> ex1_measure s' < ex1_measure s"
    by (blast intro: ex1_measure_step ex1_reach_inv)
  assume r: "ex1_reach s" and n: "\<not> (\<exists>s'. ex1_step s s')"
  from ex1_reach_inv [OF r] ex1_stuck [OF ex1_reach_inv [OF r] n]
  show "(count_list (out1 s) (CHR ''a''), count_list (out1 s) (CHR ''b''), length (out1 s), main1 s) =
    (LETTERS, LETTERS, 2 * LETTERS, 4)" by (auto simp: ex1_inv_def written_def)
qed

text \<open>
  The program of \<open>ex1.c\<close> ends, whatever the interleaving, after both threads have been joined, and has then written each of
  the two letters 10000 times and nothing else.
\<close>

theorem ex1_writes_all_letters:
  "{(count_list (out1 s) (CHR ''a''), count_list (out1 s) (CHR ''b''), length (out1 s), main1 s) |s.
      ex1_reach s \<and> \<not> (\<exists>s'. ex1_step s s')} = {(LETTERS, LETTERS, 2 * LETTERS, 4)} \<and>
   (\<nexists>f. f 0 = ex1_start \<and> (\<forall>i. ex1_step (f i) (f (Suc i))))"
  using e1.outcomes e1.no_infinite_run by simp

end
