(* ===== verification/Libc_Lock.thy ===== *)
theory Libc_Lock
  imports Mutex Cancel
begin

text \<open>
  What the headers offer around the functions of the library: the pairs of macros for cleanup handlers (\<open>pthread.h\<close>), the
  locks of the C library (\<open>libc-lock.h\<close>), which do nothing in a program that is not linked with the
  thread library, their names for streams (\<open>stdio-lock.h\<close>), the weak definitions for such programs (\<open>weaks.c\<close>), and
  the system calls that are cancellation points (\<open>wrapsyscall.c\<close>).

  The macros of a pair open and close a block, so each pair is a function with the code between
  them as an argument; the buffer is the local variable of the block. \<open>linked\<close> says that the weak symbols of the
  thread library are not NULL.
\<close>

section \<open>Blocks with a cleanup handler\<close>

definition cleanup_block ::
  "env \<Rightarrow> pthread_t \<Rightarrow> addr \<Rightarrow> addr \<Rightarrow> addr \<Rightarrow> bool \<Rightarrow> (st \<Rightarrow> 'a res) \<Rightarrow> st \<Rightarrow> 'a res"
where
  "cleanup_block E self buffer rout arg execute body s =
     and_then (body (pthread_cleanup_push self buffer rout arg s)) (\<lambda>r s.
       Some (Ret r, pthread_cleanup_pop E self buffer execute s))"

definition cleanup_block_defer_np ::
  "env \<Rightarrow> pthread_t \<Rightarrow> addr \<Rightarrow> addr \<Rightarrow> addr \<Rightarrow> bool \<Rightarrow> (st \<Rightarrow> 'a res) \<Rightarrow> st \<Rightarrow> 'a res"
where
  "cleanup_block_defer_np E self buffer rout arg execute body s =
     and_then (body (pthread_cleanup_push_defer self buffer rout arg s)) (\<lambda>r s.
     and_then (pthread_cleanup_pop_restore E self buffer execute s) (\<lambda>_ s.
       Some (Ret r, s)))"

section \<open>Locks of the C library\<close>

definition libc_lock_init :: "bool \<Rightarrow> addr \<Rightarrow> st \<Rightarrow> int \<times> st" where
  "libc_lock_init linked NAME s = (if linked then pthread_mutex_init NAME None s else (0, s))"

definition libc_lock_init_recursive :: "bool \<Rightarrow> addr \<Rightarrow> st \<Rightarrow> st" where
  "libc_lock_init_recursive linked NAME s =
     (if linked then
        let attr = snd (pthread_mutexattr_init \<lparr>mutexkind = 0\<rparr>);
            attr = snd (pthread_mutexattr_setkind_np attr PTHREAD_MUTEX_RECURSIVE_NP)
        in snd (pthread_mutex_init NAME (Some attr) s)
      else s)"

definition libc_lock_fini :: "bool \<Rightarrow> addr \<Rightarrow> st \<Rightarrow> (int \<times> st) option" where
  "libc_lock_fini linked NAME s = (if linked then pthread_mutex_destroy NAME s else Some (0, s))"

definition libc_lock_lock :: "bool \<Rightarrow> env \<Rightarrow> pthread_t \<Rightarrow> addr \<Rightarrow> st \<Rightarrow> int res" where
  "libc_lock_lock linked E self NAME s = (if linked then pthread_mutex_lock E self NAME s else Some (Ret 0, s))"

definition libc_lock_trylock :: "bool \<Rightarrow> pthread_t \<Rightarrow> addr \<Rightarrow> st \<Rightarrow> (int \<times> st) option" where
  "libc_lock_trylock linked self NAME s = (if linked then pthread_mutex_trylock self NAME s else Some (0, s))"

definition libc_lock_unlock :: "bool \<Rightarrow> addr \<Rightarrow> st \<Rightarrow> (int \<times> st) option" where
  "libc_lock_unlock linked NAME s = (if linked then pthread_mutex_unlock NAME s else Some (0, s))"

definition libc_cleanup_region_start :: "bool \<Rightarrow> pthread_t \<Rightarrow> addr \<Rightarrow> addr \<Rightarrow> addr \<Rightarrow> st \<Rightarrow> st" where
  "libc_cleanup_region_start linked self buffer FCT ARG s =
     (if linked then pthread_cleanup_push_defer self buffer FCT ARG s else s)"

definition libc_cleanup_region_end :: "bool \<Rightarrow> env \<Rightarrow> pthread_t \<Rightarrow> addr \<Rightarrow> bool \<Rightarrow> st \<Rightarrow> unit res" where
  "libc_cleanup_region_end linked E self buffer DOIT s =
     (if linked then pthread_cleanup_pop_restore E self buffer DOIT s else Some (Ret (), s))"

definition libc_cleanup_region ::
  "bool \<Rightarrow> env \<Rightarrow> pthread_t \<Rightarrow> addr \<Rightarrow> addr \<Rightarrow> addr \<Rightarrow> bool \<Rightarrow> (st \<Rightarrow> 'a res) \<Rightarrow> st \<Rightarrow> 'a res"
where
  "libc_cleanup_region linked E self buffer FCT ARG DOIT body s =
     and_then (body (libc_cleanup_region_start linked self buffer FCT ARG s)) (\<lambda>r s.
     and_then (libc_cleanup_region_end linked E self buffer DOIT s) (\<lambda>_ s.
       Some (Ret r, s)))"

text \<open>The names for streams.\<close>

definition IO_lock_init :: "bool \<Rightarrow> addr \<Rightarrow> st \<Rightarrow> st" where
  "IO_lock_init = libc_lock_init_recursive"

definition IO_lock_fini :: "bool \<Rightarrow> addr \<Rightarrow> st \<Rightarrow> (int \<times> st) option" where
  "IO_lock_fini = libc_lock_fini"

section \<open>Programs without the thread library\<close>

text \<open>
  The C library has weak definitions of functions of the thread library for programs that are not linked with
  it (\<open>weaks.c\<close>): most of them return 0, \<open>pthread_equal\<close> returns 1, and \<open>pthread_exit\<close> ends the process.
  \<open>weak_call\<close> gives what a call of the function with a name does, \<open>None\<close> if there is no such definition.
\<close>

definition pthread_return_0 :: "st \<Rightarrow> int res" where
  "pthread_return_0 s = Some (Ret 0, s)"

definition pthread_return_1 :: "st \<Rightarrow> int res" where
  "pthread_return_1 s = Some (Ret 1, s)"

definition weak_pthread_exit :: "st \<Rightarrow> int res" where
  "weak_pthread_exit s = Some (Exit 0, s)"

definition weak_aliases_0 :: "string list" where
  "weak_aliases_0 = [
    ''pthread_attr_init'', ''pthread_attr_destroy'', ''pthread_attr_setdetachstate'',
    ''pthread_attr_getdetachstate'', ''pthread_attr_setschedparam'', ''pthread_attr_getschedparam'',
    ''pthread_attr_setschedpolicy'', ''pthread_attr_getschedpolicy'', ''pthread_attr_setinheritsched'',
    ''pthread_attr_getinheritsched'', ''pthread_attr_setscope'', ''pthread_attr_getscope'',
    ''pthread_mutex_init'', ''pthread_mutex_destroy'', ''pthread_mutex_lock'', ''pthread_mutex_unlock'',
    ''pthread_mutexattr_setkind_np'', ''pthread_mutexattr_getkind_np'', ''pthread_condattr_init'',
    ''pthread_condattr_destroy'', ''pthread_setschedparam'', ''pthread_getschedparam'',
    ''pthread_setcancelstate'', ''pthread_setcanceltype'', ''pthread_self'', ''pthread_cond_init'',
    ''pthread_cond_destroy'', ''pthread_cond_wait'', ''pthread_cond_signal'', ''pthread_cond_broadcast'']"

definition weak_call :: "string \<Rightarrow> (st \<Rightarrow> int res) option" where
  "weak_call name =
     (if name \<in> set weak_aliases_0 then Some pthread_return_0
      else if name = ''pthread_equal'' then Some pthread_return_1
      else if name = ''pthread_exit'' then Some weak_pthread_exit
      else None)"

section \<open>The wrapped system calls\<close>

text \<open>
  The calls with their arguments. The variadic ones have one optional argument, which the wrapper reads in any
  case.
\<close>

datatype wrapped_call =
    Close int
  | Fcntl int int int
  | Fsync int
  | Lseek int int int
  | Msync addr "32 word" int
  | Nanosleep addr addr
  | Open addr int "32 word"
  | Pause
  | Read int addr "32 word"
  | System addr
  | Tcdrain int
  | Wait addr
  | Waitpid int addr int
  | Write int addr "32 word"

text \<open>\<open>libc\<close> stands for the functions \<open>__libc_close\<close>, \<open>__libc_fcntl\<close> and so on.\<close>

definition wrapped_syscall :: "(wrapped_call \<Rightarrow> st \<Rightarrow> int res) \<Rightarrow> pthread_t \<Rightarrow> wrapped_call \<Rightarrow> st \<Rightarrow> int res" where
  "wrapped_syscall libc self c s = cancelable_syscall self (libc c) s"

section \<open>Properties\<close>

text \<open>
  What the code of a block may do to the cleanup handlers: it uses only the buffers \<open>own\<close> of the blocks nested in it,
  and it has popped them when it returns. When it leaves in another way, handlers of nested blocks may
  still be in the list, above those from before.
\<close>

definition block_body :: "pthread_t \<Rightarrow> addr set \<Rightarrow> (st \<Rightarrow> 'a res) \<Rightarrow> bool" where
  "block_body self own body \<longleftrightarrow> (\<forall>s bs f s'. cleanup_stack self bs s \<longrightarrow> set bs \<inter> own = {} \<longrightarrow> body s = Some (f, s') \<longrightarrow>
     (\<forall>b. b \<notin> own \<longrightarrow> cleanup_bufs s' b = cleanup_bufs s b) \<and>
     (case f of Ret _ \<Rightarrow> cleanup_stack self bs s' | _ \<Rightarrow> \<exists>inner. set inner \<subseteq> own \<and> cleanup_stack self (inner @ bs) s'))"

lemma block_bodyD:
  assumes "block_body self own body" and "cleanup_stack self bs s" and "set bs \<inter> own = {}" and "body s = Some (f, s')"
  shows "b \<notin> own \<Longrightarrow> cleanup_bufs s' b = cleanup_bufs s b"
    and "\<exists>inner. set inner \<subseteq> own \<and> cleanup_stack self (inner @ bs) s' \<and> (\<forall>r. f = Ret r \<longrightarrow> inner = [])"
proof -
  have "(\<forall>b. b \<notin> own \<longrightarrow> cleanup_bufs s' b = cleanup_bufs s b) \<and>
     (case f of Ret _ \<Rightarrow> cleanup_stack self bs s' | _ \<Rightarrow> \<exists>inner. set inner \<subseteq> own \<and> cleanup_stack self (inner @ bs) s')"
    using assms unfolding block_body_def by blast
  then show "b \<notin> own \<Longrightarrow> cleanup_bufs s' b = cleanup_bufs s b"
    "\<exists>inner. set inner \<subseteq> own \<and> cleanup_stack self (inner @ bs) s' \<and> (\<forall>r. f = Ret r \<longrightarrow> inner = [])"
    by (cases f; force)+
qed

lemma pop_stack:
  assumes "tame E" and "cleanup_stack self (buffer # bs) s"
  shows "cleanup_stack self bs (pthread_cleanup_pop E self buffer execute s)"
    and "klog (pthread_cleanup_pop E self buffer execute s) =
      klog s @ (if execute then [Call (routine (cleanup_bufs s buffer)) (cb_arg (cleanup_bufs s buffer))] else [])"
  using assms by (simp_all add: pthread_cleanup_pop_def cleanup_stack_def tame_def Let_def)

text \<open>The state in which the code of a block ends: its handler is below those of the nested blocks, and above the others.\<close>

lemma block_body_end:
  assumes "block_body self own body" and "cleanup_stack self bs s" and "buffer \<noteq> NULL" and "buffer \<notin> own" and "set bs \<inter> own = {}"
    and "buffer \<notin> set bs" and "body (pthread_cleanup_push self buffer rout arg s) = Some (f, s')"
  shows "\<exists>inner. set inner \<subseteq> own \<and> cleanup_stack self (inner @ buffer # bs) s' \<and> (\<forall>r. f = Ret r \<longrightarrow> inner = [])"
    and "routine (cleanup_bufs s' buffer) = rout" and "cb_arg (cleanup_bufs s' buffer) = arg"
    and "b \<notin> insert buffer own \<Longrightarrow> cleanup_bufs s' b = cleanup_bufs s b"
proof -
  note st = cleanup_push_stack(1) [OF assms(2,3,6), of rout arg]
  have d: "set (buffer # bs) \<inter> own = {}" using assms(4,5) by simp
  note D = block_bodyD [OF assms(1) st d assms(7)]
  show "\<exists>inner. set inner \<subseteq> own \<and> cleanup_stack self (inner @ buffer # bs) s' \<and> (\<forall>r. f = Ret r \<longrightarrow> inner = [])" by (rule D(2))
  show "routine (cleanup_bufs s' buffer) = rout" "cb_arg (cleanup_bufs s' buffer) = arg"
    using D(1) [OF assms(4)] by (simp_all add: pthread_cleanup_push_def Let_def)
  show "b \<notin> insert buffer own \<Longrightarrow> cleanup_bufs s' b = cleanup_bufs s b"
    using D(1) [of b] by (simp add: pthread_cleanup_push_def Let_def)
qed

lemma pop_bufs: "tame E \<Longrightarrow> cleanup_bufs (pthread_cleanup_pop E self buffer execute s) = cleanup_bufs s"
  by (simp add: pthread_cleanup_pop_def tame_def Let_def)

text \<open>So blocks nest.\<close>

lemma cleanup_block_body:
  assumes "tame E" and "block_body self own body" and "buffer \<noteq> NULL" and "buffer \<notin> own"
  shows "block_body self (insert buffer own) (cleanup_block E self buffer rout arg execute body)"
  unfolding block_body_def
proof (intro allI impI)
  fix s bs f s'
  assume a: "cleanup_stack self bs s" "set bs \<inter> insert buffer own = {}"
    "cleanup_block E self buffer rout arg execute body s = Some (f, s')"
  then obtain f1 s1 where s1: "body (pthread_cleanup_push self buffer rout arg s) = Some (f1, s1)"
    by (cases "body (pthread_cleanup_push self buffer rout arg s)") (auto simp: cleanup_block_def)
  have d: "set bs \<inter> own = {}" "buffer \<notin> set bs" using a(2) by auto
  note B = block_body_end [OF assms(2) a(1) assms(3,4) d s1]
  obtain inner where inner: "set inner \<subseteq> own" "cleanup_stack self (inner @ buffer # bs) s1" "\<And>r. f1 = Ret r \<Longrightarrow> inner = []"
    using B(1) by blast
  show "(\<forall>b. b \<notin> insert buffer own \<longrightarrow> cleanup_bufs s' b = cleanup_bufs s b) \<and>
     (case f of Ret _ \<Rightarrow> cleanup_stack self bs s'
      | _ \<Rightarrow> \<exists>inner. set inner \<subseteq> insert buffer own \<and> cleanup_stack self (inner @ bs) s')"
  proof (cases "\<exists>r. f1 = Ret r")
    case True
    then obtain r where r: "f1 = Ret r" ..
    then have e: "f = Ret r" "s' = pthread_cleanup_pop E self buffer execute s1" using a(3) s1 by (auto simp: cleanup_block_def)
    with pop_stack(1) [OF assms(1), of self buffer bs s1 execute] inner(2,3) r pop_bufs [OF assms(1)] B(4) show ?thesis by simp
  next
    case False
    then have e: "s' = s1" "\<nexists>r. f = Ret r" using a(3) s1 by (cases f1; auto simp: cleanup_block_def)+
    have "set (inner @ [buffer]) \<subseteq> insert buffer own" "cleanup_stack self ((inner @ [buffer]) @ bs) s'"
      using inner(1,2) e(1) by auto
    then have "\<exists>inner. set inner \<subseteq> insert buffer own \<and> cleanup_stack self (inner @ bs) s'" by blast
    then show ?thesis using B(4) e by (cases f) simp_all
  qed
qed

text \<open>
  C35. A block between \<open>pthread_cleanup_push\<close> and \<open>pthread_cleanup_pop\<close>, in which other blocks may be nested, with buffers of
  their own. If the code in it returns, the block returns the same, the handlers of the thread are those from
  before, and the routine has been called once, with its argument, exactly if \<open>pthread_cleanup_pop\<close> was given a nonzero
  argument. If the code leaves the block by \<open>pthread_exit\<close> or is cancelled in it, \<open>__pthread_perform_cleanup\<close> calls
  the handlers of the nested blocks that it has left, if there are any, then the routine, once and with its argument, then
  those of the blocks around it. The routines themselves leave the buffers alone.
\<close>

theorem cleanup_block_guards:
  assumes "tame E" and "block_body self own body" and "cleanup_stack self bs s" and "buffer \<noteq> NULL" and "buffer \<notin> own"
    and "set bs \<inter> own = {}" and "buffer \<notin> set bs"
    and "body (pthread_cleanup_push self buffer rout arg s) = Some (f, s')"
  shows "case f of
      Ret r \<Rightarrow> \<exists>s''. cleanup_block E self buffer rout arg execute body s = Some (Ret r, s'') \<and>
        cleanup_stack self bs s'' \<and> klog s'' = klog s' @ (if execute then [Call rout arg] else [])
    | PExit v \<Rightarrow> cleanup_block E self buffer rout arg execute body s = Some (PExit v, s') \<and>
        (\<exists>inner s''. set inner \<subseteq> own \<and> cleanup_stack self (inner @ buffer # bs) s' \<and>
          pthread_perform_cleanup E self s' = Some s'' \<and> klog s'' = klog s' @
          map (\<lambda>b. Call (routine (cleanup_bufs s' b)) (cb_arg (cleanup_bufs s' b))) inner @ Call rout arg #
          map (\<lambda>b. Call (routine (cleanup_bufs s b)) (cb_arg (cleanup_bufs s b))) bs)
    | Exit c \<Rightarrow> cleanup_block E self buffer rout arg execute body s = Some (Exit c, s')
    | Jump \<Rightarrow> cleanup_block E self buffer rout arg execute body s = Some (Jump, s')"
proof -
  note B = block_body_end [OF assms(2-8)]
  obtain inner where inner: "set inner \<subseteq> own" "cleanup_stack self (inner @ buffer # bs) s'" "\<And>r. f = Ret r \<Longrightarrow> inner = []"
    using B(1) by blast
  show ?thesis
  proof (cases f)
    case (Ret r)
    with assms(8) pop_stack [OF assms(1), of self buffer bs s' execute] inner B(2,3) show ?thesis by (simp add: cleanup_block_def)
  next
    case (PExit v)
    have "map (\<lambda>c. Call (routine (cleanup_bufs s' c)) (cb_arg (cleanup_bufs s' c))) bs =
        map (\<lambda>c. Call (routine (cleanup_bufs s c)) (cb_arg (cleanup_bufs s c))) bs"
    proof (rule map_cong [OF refl])
      fix c assume "c \<in> set bs"
      then have "c \<notin> insert buffer own" using assms(6,7) by auto
      then show "Call (routine (cleanup_bufs s' c)) (cb_arg (cleanup_bufs s' c)) =
        Call (routine (cleanup_bufs s c)) (cb_arg (cleanup_bufs s c))" by (simp add: B(4))
    qed
    with PExit assms(8) perform_cleanup_loop_runs [OF assms(1) inner(2) [unfolded cleanup_stack_def]] inner(1,2) B(2,3) show ?thesis
      by (simp add: cleanup_block_def pthread_perform_cleanup_def) blast
  qed (use assms(8) in \<open>simp_all add: cleanup_block_def\<close>)
qed

text \<open>A block in which another one is left by \<open>pthread_exit\<close>.\<close>

theorem cleanup_block_guards_witness:
  "\<exists>s''. pthread_perform_cleanup prompt_env 8
      (snd (the (cleanup_block prompt_env 8 100 2 22 False
        (cleanup_block prompt_env 8 200 3 33 True (\<lambda>s. Some (PExit 5, s) :: unit res)) zero_st))) = Some s'' \<and>
    (\<exists>before. klog s'' = before @ [Call 2 22])"
proof -
  let ?inner = "cleanup_block prompt_env 8 200 3 33 True (\<lambda>s. Some (PExit 5, s) :: unit res)"
  let ?s1 = "pthread_cleanup_push 8 200 3 33 (pthread_cleanup_push 8 100 2 22 zero_st)"
  have "block_body 8 {} (\<lambda>s. Some (PExit 5, s) :: unit res)" by (auto simp: block_body_def intro: exI [of _ "[]"])
  from cleanup_block_body [OF tame_prompt this, of 200] have b: "block_body 8 {200} ?inner" by simp
  have c: "cleanup_stack 8 [] zero_st" by (simp add: cleanup_stack_def zero_st_def zero_descr_def)
  have r: "?inner (pthread_cleanup_push 8 100 2 22 zero_st) = Some (PExit 5, ?s1)" by (simp add: cleanup_block_def)
  from cleanup_block_guards [OF tame_prompt b c _ _ _ _ r, of False] show ?thesis by auto
qed

text \<open>
  A region of the C library with a handler: without the thread library it is just the code in it;
  with it, when the code returns, the cancellation type and the handlers are those from before the
  region, or the thread is cancelled because a cancellation came during the region.
\<close>

theorem libc_region_restores:
  assumes "tame E" and "block_body self own body" and "cleanup_stack self bs s" and "buffer \<noteq> NULL" and "buffer \<notin> set bs"
    and "set (buffer # bs) \<inter> own = {}"
    and "\<And>f a s. p_canceltype (descr (snd (call_env E f a s)) self) = p_canceltype (descr s self)"
    and "libc_cleanup_region linked E self buffer FCT ARG DOIT body s = Some (Ret r, s'')"
  shows "if linked then cleanup_stack self bs s'' \<and> p_canceltype (descr s'' self) = p_canceltype (descr s self) \<and>
      \<not> async_cancel_pending self s''
    else body s = Some (Ret r, s'')"
proof (cases linked)
  case True
  let ?s1 = "pthread_cleanup_push_defer self buffer FCT ARG s"
  obtain s' where s': "body ?s1 = Some (Ret r, s')" "pthread_cleanup_pop_restore E self buffer DOIT s' = Some (Ret (), s'')"
    using assms(8) True
    by (auto simp: libc_cleanup_region_def libc_cleanup_region_start_def libc_cleanup_region_end_def dest!: and_then_RetD)
  note D = block_bodyD [OF assms(2) cleanup_push_stack(2) [OF assms(3-5), of FCT ARG] assms(6) s'(1)]
  have b: "cb_canceltype (cleanup_bufs s' buffer) = p_canceltype (descr s self)"
    using D(1) [of buffer] assms(6) by (simp add: pthread_cleanup_push_defer_def Let_def)
  have st: "cleanup_stack self (buffer # bs) s'" using D(2) by auto
  show ?thesis using True s'(2) st b assms(1)
    by (auto simp: pthread_cleanup_pop_restore_def cleanup_stack_def tame_def Let_def async_cancel_pending_def split: if_splits)
next
  case False
  then show ?thesis
    using assms(8) by (auto simp: libc_cleanup_region_def libc_cleanup_region_start_def libc_cleanup_region_end_def dest!: and_then_RetD)
qed

text \<open>
  The comment on \<open>__libc_lock_fini\<close> says that the lock must be locked; \<open>pthread_mutex_destroy\<close> refuses exactly such a lock.
\<close>

lemma libc_lock_fini_held:
  assumes "m_spinlock (mutexes s mu) = 0" and "m_count (mutexes s mu) > 0"
  shows "\<exists>s'. libc_lock_fini True mu s = Some (EBUSY, s')"
  using assms by (simp add: libc_lock_fini_def pthread_mutex_destroy_def acquire_mutex_eq Let_def)

text \<open>
  Without the thread library the functions for mutexes and those of the C library agree: a lock, the code in it and the unlock
  succeed and are just the code, whether they are called through the macros or through the weak
  definitions. But there is no weak \<open>pthread_mutex_trylock\<close>.
\<close>

lemma single_threaded_locks:
  "weak_call ''pthread_mutex_lock'' = Some (libc_lock_lock False E self mu)"
  "weak_call ''pthread_mutex_unlock'' = Some (\<lambda>s. map_option (\<lambda>(r, s). (Ret r, s)) (libc_lock_unlock False mu s))"
  "weak_call ''pthread_mutex_trylock'' = None"
  by (auto simp: weak_call_def weak_aliases_0_def pthread_return_0_def libc_lock_lock_def libc_lock_unlock_def)

end
