(* ===== verification/Accumulate.thy ===== *)
theory Accumulate
  imports Join
begin

text \<open>
  The string accumulator of \<open>Examples/ex4.c\<close>: every thread that calls \<open>str_accumulate\<close> has a buffer of its own, which
  it finds through a key for thread-specific data; the first call of all creates the key.

  The state holds the one of the library, the two static variables, the blocks of memory by their
  addresses, and the number of calls of \<open>malloc\<close>. What the n-th of these calls returns is the argument \<open>mal\<close>; the
  contents of a block that it returns are those the memory happens to have.
\<close>

record accus =
  a_st :: st
  str_key :: nat
  str_alloc_key_once :: lockword
  a_mem :: "addr \<Rightarrow> string"
  a_mallocs :: nat

definition ACCU_SIZE :: nat where "ACCU_SIZE = 1024"

text \<open>The static variables before the first call.\<close>

definition accus_init :: "st \<Rightarrow> (addr \<Rightarrow> string) \<Rightarrow> accus" where
  "accus_init s m = \<lparr>a_st = s, str_key = 0, str_alloc_key_once = 0, a_mem = m, a_mallocs = 0\<rparr>"

text \<open>\<open>strcat\<close> into a block \<open>b\<close>: the result is the new contents of the block.\<close>

definition strcat :: "string \<Rightarrow> string \<Rightarrow> string mem" where
  "strcat b s =
     (let d = c_str b @ c_str s
      in if length d < length b then Fine (d @ CHR 0x00 # drop (Suc (length d)) b) else Smashed)"

text \<open>A call of \<open>pthread_key_create\<close> that fails leaves \<open>str_key\<close> as it was; its return code is not tested.\<close>

definition str_alloc_key :: "env \<Rightarrow> addr \<Rightarrow> pthread_t \<Rightarrow> accus \<Rightarrow> accus option" where
  "str_alloc_key E destroy_accu self x =
     (case pthread_key_create E self destroy_accu (a_st x) of
        Some (Ret (_, Some k), s) \<Rightarrow> Some (x\<lparr>a_st := s, str_key := k\<rparr>)
      | Some (Ret (_, None), s) \<Rightarrow> Some (x\<lparr>a_st := s\<rparr>)
      | _ \<Rightarrow> None)"

text \<open>\<open>str_accumulate\<close> from the end of \<open>pthread_once\<close> on.\<close>

definition append_accu :: "addr \<Rightarrow> string \<Rightarrow> accus \<Rightarrow> (addr \<times> accus) mem" where
  "append_accu p str x =
     (case strcat (a_mem x p) str of
        Fine b \<Rightarrow> Fine (p, x\<lparr>a_mem := (a_mem x)(p := b)\<rparr>)
      | Smashed \<Rightarrow> Smashed)"

definition use_accu :: "(nat \<Rightarrow> addr option) \<Rightarrow> pthread_t \<Rightarrow> string \<Rightarrow> accus \<Rightarrow> (addr \<times> accus) mem" where
  "use_accu mal self str x =
     (let accu = pthread_getspecific self (str_key x) (a_st x)
      in if accu = NULL then
           let new = mal (a_mallocs x); x = x\<lparr>a_mallocs := a_mallocs x + 1\<rparr>
           in case new of
                None \<Rightarrow> Fine (NULL, x)
              | Some p \<Rightarrow> append_accu p str (x\<lparr>a_st := snd (pthread_setspecific self (str_key x) p (a_st x))\<rparr>)
         else append_accu accu str x)"

text \<open>The call of \<open>pthread_once\<close>: a test-and-set of the control word, and the routine if it was free.\<close>

definition begin_once :: "accus \<Rightarrow> bool \<times> accus" where
  "begin_once x =
     (let (old, once_control) = testandset (str_alloc_key_once x)
      in (old = 0, x\<lparr>str_alloc_key_once := once_control\<rparr>))"

definition str_accumulate ::
  "env \<Rightarrow> addr \<Rightarrow> (nat \<Rightarrow> addr option) \<Rightarrow> pthread_t \<Rightarrow> string \<Rightarrow> accus \<Rightarrow> (addr \<times> accus) mem option"
where
  "str_accumulate E destroy_accu mal self str x = do {
     let (first, x) = begin_once x;
     x \<leftarrow> (if first then str_alloc_key E destroy_accu self x else Some x);
     Some (use_accu mal self str x) }"

text \<open>Calls of several threads, in the order in which they take place, with the strings they return.\<close>

fun str_calls ::
  "env \<Rightarrow> addr \<Rightarrow> (nat \<Rightarrow> addr option) \<Rightarrow> (pthread_t \<times> string) list \<Rightarrow> accus \<Rightarrow> (string list \<times> accus) mem option"
where
  "str_calls E destroy_accu mal [] x = Some (Fine ([], x))"
| "str_calls E destroy_accu mal ((t, str) # cs) x = do {
     r \<leftarrow> str_accumulate E destroy_accu mal t str x;
     (case r of Smashed \<Rightarrow> Some Smashed
      | Fine (p, x) \<Rightarrow> do {
          q \<leftarrow> str_calls E destroy_accu mal cs x;
          (case q of Smashed \<Rightarrow> Some Smashed | Fine (outs, y) \<Rightarrow> Some (Fine (c_str (a_mem x p) # outs, y))) }) }"

text \<open>
  The destructor of the key frees the buffer of the thread: here the addresses are collected that have been freed. The
  exit of a thread calls the destructors, of which those of other keys are no concern here.
\<close>

definition str_alloc_destroy_accu :: "addr \<Rightarrow> addr list \<Rightarrow> addr list" where
  "str_alloc_destroy_accu accu freed = freed @ [accu]"

definition exit_frees :: "addr \<Rightarrow> pthread_t \<Rightarrow> accus \<Rightarrow> addr list \<Rightarrow> addr list" where
  "exit_frees destroy_accu self x freed =
     fold (\<lambda>(f, data) freed. if f = destroy_accu then str_alloc_destroy_accu data freed else freed)
       (destructor_calls self (a_st x)) freed"

text \<open>The calls of \<open>process\<close> and of \<open>main\<close>.\<close>

definition process_calls :: "pthread_t \<Rightarrow> string \<Rightarrow> (pthread_t \<times> string) list" where
  "process_calls self arg = [(self, ''Result of ''), (self, arg), (self, '' thread'')]"

definition main_calls :: "pthread_t \<Rightarrow> (pthread_t \<times> string) list" where
  "main_calls self = [(self, ''Result of ''), (self, ''initial thread'')]"

section \<open>Separate accumulators\<close>

text \<open>What the calls return if every thread has an accumulator of its own, with the contents \<open>g\<close> at first.\<close>

fun own :: "(pthread_t \<times> string) list \<Rightarrow> (pthread_t \<Rightarrow> string) \<Rightarrow> string list" where
  "own [] g = []"
| "own ((t, str) # cs) g = (g t @ str) # own cs (g(t := g t @ str))"

text \<open>The characters that are still to come for a thread.\<close>

definition to_come :: "pthread_t \<Rightarrow> (pthread_t \<times> string) list \<Rightarrow> nat" where
  "to_come t cs = sum_list (map (\<lambda>(u, str). if u = t then length str else 0) cs)"

text \<open>
  The threads of \<open>dom f\<close> have a buffer, thread \<open>t\<close> the one of \<open>malloc\<close> number \<open>f t\<close>, which holds \<open>g t\<close>. The other
  blocks have the contents \<open>m\<close>.
\<close>

definition accus_inv ::
  "nat \<Rightarrow> (nat \<Rightarrow> addr) \<Rightarrow> (addr \<Rightarrow> string) \<Rightarrow> (pthread_t \<Rightarrow> nat option) \<Rightarrow> (pthread_t \<Rightarrow> string) \<Rightarrow> accus \<Rightarrow> bool"
where
  "accus_inv N blk m f g x \<longleftrightarrow>
     str_alloc_key_once x \<noteq> 0 \<and> str_key x < PTHREAD_KEYS_MAX \<and>
     (\<forall>t. length (p_specific (descr (a_st x) t)) = PTHREAD_KEYS_MAX \<and>
       p_specific (descr (a_st x) t) ! str_key x = (case f t of None \<Rightarrow> NULL | Some n \<Rightarrow> blk n)) \<and>
     (\<forall>t n. f t = Some n \<longrightarrow> n < a_mallocs x \<and> c_str (a_mem x (blk n)) = g t \<and> length (a_mem x (blk n)) = ACCU_SIZE) \<and>
     (\<forall>n. a_mallocs x \<le> n \<longrightarrow> n < N \<longrightarrow> a_mem x (blk n) = m (blk n)) \<and> a_mallocs x \<le> N \<and> (\<forall>t u n. f t = Some n \<longrightarrow> f u = Some n \<longrightarrow> t = u)"

lemma strcat_fits:
  assumes "CHR 0x00 \<notin> set str" and "length (c_str b @ str) < length b"
  shows "\<exists>b'. strcat b str = Fine b' \<and> c_str b' = c_str b @ str \<and> length b' = length b"
  using assms c_str_append [of "c_str b @ str"] c_str_no_zero [of b]
  by (simp add: strcat_def Let_def c_str_id)

text \<open>One call of a thread that has a buffer, and the first call of a thread.\<close>

lemma accumulate_again:
  assumes "inj_on blk {..<N}" and "\<And>n. n < N \<Longrightarrow> blk n \<noteq> NULL" and "accus_inv N blk m f g x" and "f t = Some n"
    and "CHR 0x00 \<notin> set str" and "length (g t @ str) < ACCU_SIZE"
  shows "\<exists>y. str_accumulate E destroy_accu mal t str x = Some (Fine (blk n, y)) \<and>
    c_str (a_mem y (blk n)) = g t @ str \<and> accus_inv N blk m f (g(t := g t @ str)) y \<and> a_mallocs y = a_mallocs x"
proof -
  note I = assms(3) [unfolded accus_inv_def]
  define x1 where "x1 = x\<lparr>str_alloc_key_once := 1\<rparr>"
  have b: "begin_once x = (False, x1)" using I by (simp add: begin_once_def testandset_def x1_def)
  have n: "n < a_mallocs x" "n < N" using I assms(4) by force+
  have eq: "blk k = blk n \<longleftrightarrow> k = n" if "k < N" for k using inj_on_eq_iff [OF assms(1), of k n] that n by simp
  have c: "c_str (a_mem x (blk n)) = g t" "length (a_mem x (blk n)) = ACCU_SIZE" using I assms(4) by auto
  obtain b' where b': "strcat (a_mem x (blk n)) str = Fine b'" "c_str b' = g t @ str" "length b' = ACCU_SIZE"
    using strcat_fits [OF assms(5), of "a_mem x (blk n)"] assms(6) c by auto
  have p: "pthread_getspecific t (str_key x) (a_st x) = blk n"
    using I assms(4) by (simp add: pthread_getspecific_def)
  define y where "y = x1\<lparr>a_mem := (a_mem x)(blk n := b')\<rparr>"
  have "str_accumulate E destroy_accu mal t str x = Some (Fine (blk n, y))"
    using p assms(2) [of n] n b'(1) by (simp add: str_accumulate_def b use_accu_def x1_def append_accu_def y_def Let_def)
  moreover have "accus_inv N blk m f (g(t := g t @ str)) y"
    unfolding accus_inv_def
  proof (intro conjI allI impI)
    fix u k assume u: "f u = Some k"
    have "k = n \<longleftrightarrow> u = t" "k < N" using u assms(4) I by force+
    then show "c_str (a_mem y (blk k)) = (g(t := g t @ str)) u" "length (a_mem y (blk k)) = ACCU_SIZE"
      using I u b' eq [of k] by (auto simp: y_def x1_def)
    show "k < a_mallocs y" using I u by (auto simp: y_def x1_def)
  next
    fix k assume "a_mallocs y \<le> k" "k < N"
    then show "a_mem y (blk k) = m (blk k)" using I n eq [of k] by (auto simp: y_def x1_def)
  qed (use I in \<open>auto simp: y_def x1_def\<close>)
  ultimately show ?thesis using b' by (auto simp: y_def x1_def)
qed

lemma accumulate_first:
  assumes "inj_on blk {..<N}" and "\<And>n. n < N \<Longrightarrow> blk n \<noteq> NULL" and "accus_inv N blk m f g x" and "f t = None" and "n = a_mallocs x" and "n < N" and "mal n = Some (blk n)"
    and z: "CHR 0x00 \<notin> set str" and len: "length (m (blk n)) = ACCU_SIZE" and fits: "length (c_str (m (blk n)) @ str) < ACCU_SIZE"
  shows "\<exists>y. str_accumulate E destroy_accu mal t str x = Some (Fine (blk n, y)) \<and>
    c_str (a_mem y (blk n)) = c_str (m (blk n)) @ str \<and>
    accus_inv N blk m (f(t \<mapsto> n)) (g(t := c_str (m (blk n)) @ str)) y \<and> a_mallocs y = a_mallocs x + 1"
proof -
  note I = assms(3) [unfolded accus_inv_def]
  define x1 where "x1 = x\<lparr>str_alloc_key_once := 1\<rparr>"
  have b: "begin_once x = (False, x1)" using I by (simp add: begin_once_def testandset_def x1_def)
  have eq: "blk k = blk n \<longleftrightarrow> k = n" if "k < N" for k using inj_on_eq_iff [OF assms(1), of k n] that assms(6) by simp
  have c: "a_mem x (blk n) = m (blk n)" using I assms(5,6) by auto
  obtain b' where b': "strcat (m (blk n)) str = Fine b'" "c_str b' = c_str (m (blk n)) @ str" "length b' = ACCU_SIZE"
    using strcat_fits [OF z, of "m (blk n)"] len fits by auto
  have p: "pthread_getspecific t (str_key x) (a_st x) = NULL"
    using I assms(4) by (simp add: pthread_getspecific_def)
  define y where "y = x1\<lparr>a_mallocs := a_mallocs x + 1,
    a_st := upd_th t (\<lambda>d. d\<lparr>p_specific := (p_specific d)[str_key x := blk n]\<rparr>) (a_st x), a_mem := (a_mem x)(blk n := b')\<rparr>"
  have "str_accumulate E destroy_accu mal t str x = Some (Fine (blk n, y))"
    using p b'(1) c I assms(5,7)
    by (simp add: str_accumulate_def b use_accu_def x1_def append_accu_def y_def pthread_setspecific_def)
  moreover have "accus_inv N blk m (f(t \<mapsto> n)) (g(t := c_str (m (blk n)) @ str)) y"
    unfolding accus_inv_def
  proof (intro conjI allI impI)
    fix u k assume u: "(f(t \<mapsto> n)) u = Some k"
    have lt: "u \<noteq> t \<Longrightarrow> k < n" using u I assms(5) by auto
    have "k < N" using lt u assms(6) by (cases "u = t") auto
    moreover have "k = n \<longleftrightarrow> u = t" using lt u by auto
    ultimately show "c_str (a_mem y (blk k)) = (g(t := c_str (m (blk n)) @ str)) u" "length (a_mem y (blk k)) = ACCU_SIZE"
      using I u b' eq [of k] by (auto simp: y_def x1_def)
    show "k < a_mallocs y" using lt u assms(5) by (cases "u = t") (auto simp: y_def x1_def)
  next
    fix u u' k assume "(f(t \<mapsto> n)) u = Some k" "(f(t \<mapsto> n)) u' = Some k"
    moreover have "f w \<noteq> Some n" for w using I assms(5) by auto
    ultimately show "u = u'" using I by (metis fun_upd_apply option.inject)
  qed (use I assms(5,6) eq in \<open>auto simp: y_def x1_def\<close>)
  ultimately show ?thesis using b' by (auto simp: y_def x1_def)
qed

text \<open>Both cases: \<open>v\<close> is what the buffer of the thread holds before the call.\<close>

lemma accumulate_call:
  assumes "inj_on blk {..<N}" and "\<And>n. n < N \<Longrightarrow> blk n \<noteq> NULL" and "\<And>n. n < N \<Longrightarrow> length (m (blk n)) = ACCU_SIZE"
    and "\<And>n. n < N \<Longrightarrow> mal n = Some (blk n)" and I: "accus_inv N blk m f g x" and "a_mallocs x < N"
    and n: "n = (case f t of None \<Rightarrow> a_mallocs x | Some n \<Rightarrow> n)" and v: "v = (if f t = None then c_str (m (blk n)) else g t)"
    and "CHR 0x00 \<notin> set str" and "length (v @ str) < ACCU_SIZE"
  shows "\<exists>y. str_accumulate E destroy_accu mal t str x = Some (Fine (blk n, y)) \<and>
    c_str (a_mem y (blk n)) = v @ str \<and> accus_inv N blk m (f(t \<mapsto> n)) (g(t := v @ str)) y \<and> a_mallocs y \<le> a_mallocs x + 1"
proof (cases "f t")
  case None
  then have e: "n = a_mallocs x" "v = c_str (m (blk n))" using n v by simp_all
  have "n < N" using e assms(6) by simp
  have "length (c_str (m (blk n)) @ str) < ACCU_SIZE" using assms(10) unfolding e(2) .
  with accumulate_first [of blk N m f g x t n mal str E destroy_accu, OF assms(1,2) I None e(1) \<open>n < N\<close>
      assms(4) [OF \<open>n < N\<close>] assms(9) assms(3) [OF \<open>n < N\<close>]]
  obtain y where "str_accumulate E destroy_accu mal t str x = Some (Fine (blk n, y))"
    "c_str (a_mem y (blk n)) = v @ str" "accus_inv N blk m (f(t \<mapsto> n)) (g(t := v @ str)) y"
    "a_mallocs y = a_mallocs x + 1" unfolding e(2) [symmetric] by blast
  then show ?thesis by (intro exI [of _ y]) simp
next
  case (Some k)
  then have e: "k = n" "v = g t" "f(t \<mapsto> n) = f" using n v by auto
  from accumulate_again [OF assms(1,2) I Some assms(9), of E destroy_accu mal]
  show ?thesis using assms(10) e by auto
qed

text \<open>Any sequence of calls, from a state in which the key exists.\<close>

lemma to_come_simps [simp]:
  "to_come t [] = 0" "to_come t ((u, str) # cs) = (if u = t then length str else 0) + to_come t cs"
  by (simp_all add: to_come_def)

lemma to_come_le: "to_come t cs \<le> sum_list (map (\<lambda>(u, str). length str) cs)"
  by (induction cs) auto

lemma accumulate_keeps_key:
  assumes "str_alloc_key_once x \<noteq> 0" and "str_accumulate E destroy_accu mal t str x = Some (Fine (p, y))"
  shows "pthread_keys (a_st y) = pthread_keys (a_st x) \<and> str_key y = str_key x"
  using assms
  by (auto simp: str_accumulate_def begin_once_def testandset_def use_accu_def append_accu_def pthread_setspecific_def Let_def
      split: if_splits option.splits mem.splits)

lemma calls_separate:
  assumes "inj_on blk {..<N}" and "\<And>n. n < N \<Longrightarrow> blk n \<noteq> NULL" and "\<And>n. n < N \<Longrightarrow> length (m (blk n)) = ACCU_SIZE"
    and "\<And>n. n < N \<Longrightarrow> mal n = Some (blk n)"
  shows "accus_inv N blk m f g x \<Longrightarrow> a_mallocs x + length cs \<le> N \<Longrightarrow>
    (\<And>t str. (t, str) \<in> set cs \<Longrightarrow> CHR 0x00 \<notin> set str) \<Longrightarrow>
    (\<And>t n. f t = Some n \<Longrightarrow> length (g t) + to_come t cs < ACCU_SIZE) \<Longrightarrow>
    (\<And>t n. n < N \<Longrightarrow> length (c_str (m (blk n))) + to_come t cs < ACCU_SIZE) \<Longrightarrow>
    \<exists>b y. str_calls E destroy_accu mal cs x =
        Some (Fine (own cs (\<lambda>t. if f t = None then c_str (m (blk (b t))) else g t), y)) \<and>
      (\<forall>t n. f t = Some n \<longrightarrow> b t = n) \<and> inj_on b (dom f \<union> fst ` set cs) \<and> b ` (dom f \<union> fst ` set cs) \<subseteq> {..<N} \<and>
      pthread_keys (a_st y) = pthread_keys (a_st x) \<and> str_key y = str_key x \<and>
      (\<forall>t. p_specific (descr (a_st y) t) ! str_key x = (if t \<in> dom f \<union> fst ` set cs then blk (b t) else NULL))"
proof (induction cs arbitrary: f g x)
  case Nil
  have "inj_on (\<lambda>t. the (f t)) (dom f)" "(\<lambda>t. the (f t)) ` dom f \<subseteq> {..<N}"
    using Nil(1) by (fastforce simp: accus_inv_def inj_on_def)+
  moreover have "p_specific (descr (a_st x) t) ! str_key x = (if t \<in> dom f then blk (the (f t)) else NULL)" for t
    using Nil(1) by (simp add: accus_inv_def domIff split: option.split)
  ultimately show ?case by (intro exI [of _ "\<lambda>t. the (f t)"]) auto
next
  case (Cons c cs)
  obtain t str where c: "c = (t, str)" by fastforce
  have lt: "a_mallocs x < N" using Cons.prems(2) by simp
  define n where "n = (case f t of None \<Rightarrow> a_mallocs x | Some n \<Rightarrow> n)"
  define v where "v = (if f t = None then c_str (m (blk n)) else g t)"
  have len: "length (v @ str) + to_come t cs < ACCU_SIZE"
  proof (cases "f t")
    case None
    with Cons.prems(5) [of n t] lt c show ?thesis by (simp add: v_def n_def)
  next
    case (Some k)
    with Cons.prems(4) [of t k] c show ?thesis by (simp add: v_def)
  qed
  obtain y where y: "str_accumulate E destroy_accu mal t str x = Some (Fine (blk n, y))"
    "c_str (a_mem y (blk n)) = v @ str" "accus_inv N blk m (f(t \<mapsto> n)) (g(t := v @ str)) y" "a_mallocs y \<le> a_mallocs x + 1"
    using accumulate_call [OF assms Cons.prems(1) lt n_def v_def, of str E destroy_accu] len Cons.prems(3) [of t str] c by auto
  have "length ((g(t := v @ str)) u) + to_come u cs < ACCU_SIZE" if "(f(t \<mapsto> n)) u = Some k" for u k
    using len Cons.prems(4) [of u k] that c by (cases "u = t") auto
  moreover have "length (c_str (m (blk k))) + to_come u cs < ACCU_SIZE" if "k < N" for u k
    using Cons.prems(5) [OF that, of u] c by simp
  moreover have "a_mallocs y + length cs \<le> N" using y(4) Cons.prems(2) by simp
  ultimately obtain b z where
    b: "str_calls E destroy_accu mal cs y = Some (Fine (own cs
          (\<lambda>u. if (f(t \<mapsto> n)) u = None then c_str (m (blk (b u))) else (g(t := v @ str)) u), z))"
      "\<And>u k. (f(t \<mapsto> n)) u = Some k \<Longrightarrow> b u = k" "inj_on b (dom (f(t \<mapsto> n)) \<union> fst ` set cs)"
      "b ` (dom (f(t \<mapsto> n)) \<union> fst ` set cs) \<subseteq> {..<N}" "pthread_keys (a_st z) = pthread_keys (a_st y)" "str_key z = str_key y"
      "\<And>u. p_specific (descr (a_st z) u) ! str_key y = (if u \<in> dom (f(t \<mapsto> n)) \<union> fst ` set cs then blk (b u) else NULL)"
    using Cons.IH [OF y(3)] Cons.prems(3) by (smt (verit) list.set_intros(2))
  have k: "pthread_keys (a_st y) = pthread_keys (a_st x)" "str_key y = str_key x"
    using accumulate_keeps_key [OF _ y(1)] Cons.prems(1) by (simp_all add: accus_inv_def)
  have "b t = n" using b(2) [of t] by simp
  then have "(\<lambda>u. if (f(t \<mapsto> n)) u = None then c_str (m (blk (b u))) else (g(t := v @ str)) u) =
      (\<lambda>u. if f u = None then c_str (m (blk (b u))) else g u)(t := v @ str)"
    and "(if f t = None then c_str (m (blk (b t))) else g t) = v" by (auto simp: v_def)
  with b(1) y(1,2) c have "str_calls E destroy_accu mal (c # cs) x =
      Some (Fine (own (c # cs) (\<lambda>u. if f u = None then c_str (m (blk (b u))) else g u), z))" by simp
  moreover have "b u = k" if "f u = Some k" for u k
    using b(2) [of u k] that \<open>b t = n\<close> by (cases "u = t") (auto simp: n_def)
  moreover have "dom f \<union> fst ` set (c # cs) = dom (f(t \<mapsto> n)) \<union> fst ` set cs" using c by auto
  ultimately show ?case using b(3-7) k by (intro exI [of _ b] exI [of _ z]) simp
qed

text \<open>The first call of all allocates the key.\<close>

definition key_available :: "st \<Rightarrow> bool" where
  "key_available s \<longleftrightarrow> (\<forall>t. keys_wf t s) \<and> (\<exists>k < PTHREAD_KEYS_MAX. \<not> in_use (pthread_keys s ! k)) \<and>
     (\<forall>t. \<forall>k < PTHREAD_KEYS_MAX. \<not> in_use (pthread_keys s ! k) \<longrightarrow> p_specific (descr s t) ! k = NULL)"

lemma first_call:
  assumes "key_available s"
  shows "\<exists>x. accus_inv N blk m Map.empty (\<lambda>_. []) x \<and> a_mallocs x = 0 \<and>
    pthread_keys (a_st x) = (pthread_keys s)[str_key x := \<lparr>in_use = True, destr = destroy_accu\<rparr>] \<and>
    (\<forall>t str. str_accumulate E destroy_accu mal t str (accus_init s m) = str_accumulate E destroy_accu mal t str x)"
proof -
  obtain k where k: "key_search (pthread_keys s) 0 = Some k"
    using assms key_search_None [of "pthread_keys s" 0] unfolding key_available_def
    by (cases "key_search (pthread_keys s) 0") auto
  define x where "x = \<lparr>a_st = s\<lparr>pthread_keys := (pthread_keys s)[k := \<lparr>in_use = True, destr = destroy_accu\<rparr>]\<rparr>,
    str_key = k, str_alloc_key_once = 1, a_mem = m, a_mallocs = 0\<rparr>"
  have "mutexes s (pthread_keys_mutex s) = PTHREAD_MUTEX_INITIALIZER"
    using assms by (simp add: key_available_def keys_wf_def)
  from key_create_eq [OF this] k
  have "str_accumulate E destroy_accu mal t str (accus_init s m) = Some (use_accu mal t str x)" for t str
    by (simp add: str_accumulate_def begin_once_def testandset_def accus_init_def str_alloc_key_def x_def)
  moreover have "str_accumulate E destroy_accu mal t str x = Some (use_accu mal t str x)" for t str
    by (simp add: str_accumulate_def begin_once_def testandset_def x_def)
  moreover have "accus_inv N blk m Map.empty (\<lambda>_. []) x"
    using key_search_Some [OF k] assms by (auto simp: accus_inv_def x_def key_available_def keys_wf_def)
  ultimately show ?thesis by (intro exI [of _ x]) (simp add: x_def)
qed

text \<open>A thread that exits frees what it has under the key, if no other key has this destructor.\<close>

lemma exit_frees_value:
  assumes "key < PTHREAD_KEYS_MAX" and "length (pthread_keys s) = PTHREAD_KEYS_MAX" and "destroy_accu \<noteq> NULL"
    and "\<And>k. k < PTHREAD_KEYS_MAX \<Longrightarrow> destr (pthread_keys s ! k) \<noteq> destroy_accu"
    and "pthread_keys (a_st x) = (pthread_keys s)[key := \<lparr>in_use = True, destr = destroy_accu\<rparr>]"
    and "v = p_specific (descr (a_st x) t) ! key"
  shows "exit_frees destroy_accu t x [] = (if v = NULL then [] else [v])"
proof -
  let ?e = "\<lambda>i. (destr (pthread_keys (a_st x) ! i), p_specific (descr (a_st x) t) ! i)"
  let ?P = "\<lambda>(f, data). f \<noteq> NULL \<and> data \<noteq> NULL"
  have f: "fold (\<lambda>(f, data) freed. if f = destroy_accu then str_alloc_destroy_accu data freed else freed) cs r =
    r @ map snd (filter (\<lambda>c. fst c = destroy_accu) cs)" for cs r
    by (induction cs arbitrary: r) (auto simp: str_alloc_destroy_accu_def)
  have "[0..<PTHREAD_KEYS_MAX] = [0..<key] @ key # [Suc key..<PTHREAD_KEYS_MAX]"
    using assms(1) upt_add_eq_append [of 0 key "PTHREAD_KEYS_MAX - key"] by (simp add: upt_conv_Cons del: PTHREAD_KEYS_MAX_def upt_Suc)
  moreover have other: "destr (pthread_keys (a_st x) ! i) \<noteq> destroy_accu" if "i < PTHREAD_KEYS_MAX" "i \<noteq> key" for i
    using that assms(4,5) by simp
  then have none: "filter (\<lambda>c. fst c = destroy_accu) (filter ?P (map ?e is)) = []" if "set is \<subseteq> {..<PTHREAD_KEYS_MAX} - {key}" for "is"
    using that by (fastforce simp: filter_empty_conv simp del: PTHREAD_KEYS_MAX_def)
  have "filter (\<lambda>c. fst c = destroy_accu) (filter ?P (map ?e [0..<key])) = []"
    by (rule none) (use assms(1) in auto)
  moreover have "filter (\<lambda>c. fst c = destroy_accu) (filter ?P (map ?e [Suc key..<PTHREAD_KEYS_MAX])) = []"
    by (rule none) auto
  moreover have "?e key = (destroy_accu, v)" using assms(1,2,5,6) by simp
  ultimately show ?thesis using assms(3)
    by (simp add: exit_frees_def f destructor_calls_def del: PTHREAD_KEYS_MAX_def filter_filter upt_Suc filter_map)
qed

section \<open>Properties\<close>

text \<open>
  C22. The accumulator of \<open>ex4.c\<close> is separate for every thread. In any sequence of calls by any threads, in which
  \<open>malloc\<close> returns a new block each time, there is a block for each thread, different ones for different
  threads, such that every call returns what its thread has passed so far, in order, whatever the
  others do, as long as the text fits into the buffer. What comes first in the buffer is what the new block happened
  to contain, since it is not cleared. When a thread exits, the destructor of the key frees its own block, once, and
  nothing if the thread has none.
\<close>

theorem accumulators_separate:
  assumes "key_available s" and "inj_on blk {..<length cs}" and "\<And>n. n < length cs \<Longrightarrow> blk n \<noteq> NULL"
    and "\<And>n. n < length cs \<Longrightarrow> length (m (blk n)) = ACCU_SIZE" and "\<And>n. n < length cs \<Longrightarrow> mal n = Some (blk n)"
    and "\<And>t str. (t, str) \<in> set cs \<Longrightarrow> CHR 0x00 \<notin> set str"
    and "\<And>t n. n < length cs \<Longrightarrow> length (c_str (m (blk n))) + to_come t cs < ACCU_SIZE"
  shows "\<exists>p y. str_calls E destroy_accu mal cs (accus_init s m) = Some (Fine (own cs (\<lambda>t. c_str (m (p t))), y)) \<and>
    inj_on p (fst ` set cs) \<and> p ` fst ` set cs \<subseteq> blk ` {..<length cs} \<and>
    (destroy_accu \<noteq> NULL \<longrightarrow> (\<forall>k < PTHREAD_KEYS_MAX. destr (pthread_keys s ! k) \<noteq> destroy_accu) \<longrightarrow> cs \<noteq> [] \<longrightarrow>
      (\<forall>t. exit_frees destroy_accu t y [] = (if t \<in> fst ` set cs then [p t] else [])))"
proof -
  obtain x where x: "accus_inv (length cs) blk m Map.empty (\<lambda>_. []) x" "a_mallocs x = 0"
    "pthread_keys (a_st x) = (pthread_keys s)[str_key x := \<lparr>in_use = True, destr = destroy_accu\<rparr>]"
    "\<And>t str. str_accumulate E destroy_accu mal t str (accus_init s m) = str_accumulate E destroy_accu mal t str x"
    using first_call [OF assms(1)] by blast
  have le: "a_mallocs x + length cs \<le> length cs" using x(2) by simp
  let ?e = "\<lambda>_. None :: nat option"
  have "\<exists>b y. str_calls E destroy_accu mal cs x =
        Some (Fine (own cs (\<lambda>t. if ?e t = None then c_str (m (blk (b t))) else []), y)) \<and>
      (\<forall>t n. ?e t = Some n \<longrightarrow> b t = n) \<and> inj_on b (dom ?e \<union> fst ` set cs) \<and> b ` (dom ?e \<union> fst ` set cs) \<subseteq> {..<length cs} \<and>
      pthread_keys (a_st y) = pthread_keys (a_st x) \<and> str_key y = str_key x \<and>
      (\<forall>t. p_specific (descr (a_st y) t) ! str_key x = (if t \<in> dom ?e \<union> fst ` set cs then blk (b t) else NULL))"
  proof (rule calls_separate [OF assms(2)])
    show "accus_inv (length cs) blk m ?e (\<lambda>_. []) x" by (rule x(1))
    show "a_mallocs x + length cs \<le> length cs" by (rule le)
  qed (simp_all add: assms(3-5,7), rule assms(6))
  then obtain b y where b: "str_calls E destroy_accu mal cs x = Some (Fine (own cs (\<lambda>t. c_str (m (blk (b t)))), y))"
    "inj_on b (fst ` set cs)" "b ` fst ` set cs \<subseteq> {..<length cs}" and y: "pthread_keys (a_st y) = pthread_keys (a_st x)"
      "\<And>t. p_specific (descr (a_st y) t) ! str_key x = (if t \<in> fst ` set cs then blk (b t) else NULL)" by auto
  have inj: "inj_on (\<lambda>t. blk (b t)) (fst ` set cs)"
    using comp_inj_on [OF b(2) inj_on_subset [OF assms(2) b(3)]] by (simp add: o_def)
  have im: "(\<lambda>t. blk (b t)) ` fst ` set cs \<subseteq> blk ` {..<length cs}" using b(3) by auto
  have "blk (b t) \<noteq> NULL" if "t \<in> fst ` set cs" for t using assms(3) [of "b t"] b(3) that by blast
  then have fr: "exit_frees destroy_accu t y [] = (if t \<in> fst ` set cs then [blk (b t)] else [])"
    if "destroy_accu \<noteq> NULL" "\<forall>k < PTHREAD_KEYS_MAX. destr (pthread_keys s ! k) \<noteq> destroy_accu" for t
    using exit_frees_value [of "str_key x" s destroy_accu y _ t] that x(1,3) y assms(1)
    by (auto simp: accus_inv_def key_available_def keys_wf_def)
  show ?thesis
  proof (cases cs)
    case Nil
    then show ?thesis by simp
  next
    case (Cons c cs')
    then have "str_calls E destroy_accu mal cs (accus_init s m) = str_calls E destroy_accu mal cs x"
      by (cases c) (simp add: x(4))
    from trans [OF this b(1)] inj im fr show ?thesis by (intro exI [of _ "\<lambda>t. blk (b t)"] exI [of _ y]) simp
  qed
qed

text \<open>The program itself, in one of its interleavings, with memory that is clear and the threads 8, 16 and 24.\<close>

definition ex4_calls :: "(pthread_t \<times> string) list" where
  "ex4_calls = hd (main_calls 8) # concat (map (\<lambda>(a, b). [a, b])
     (zip (process_calls 16 ''first'') (process_calls 24 ''second''))) @ tl (main_calls 8)"

theorem accumulators_separate_witness:
  "\<exists>y. str_calls prompt_env 4 (\<lambda>n. Some (of_nat n + 64)) ex4_calls
      (accus_init zero_st (\<lambda>_. replicate ACCU_SIZE (CHR 0x00))) =
    Some (Fine ([''Result of '', ''Result of '', ''Result of '', ''Result of first'', ''Result of second'',
      ''Result of first thread'', ''Result of second thread'', ''Result of initial thread''], y)) \<and>
    (\<exists>a b. a \<noteq> b \<and> exit_frees 4 16 y [] = [a] \<and> exit_frees 4 24 y [] = [b]) \<and> exit_frees 4 32 y [] = []"
proof -
  have c: "ex4_calls = [(8, ''Result of ''), (16, ''Result of ''), (24, ''Result of ''), (16, ''first''), (24, ''second''),
      (16, '' thread''), (24, '' thread''), (8, ''initial thread'')]"
    by (simp add: ex4_calls_def main_calls_def process_calls_def)
  have k: "key_available zero_st"
    unfolding key_available_def
  proof (intro conjI allI impI)
    show "\<exists>k < PTHREAD_KEYS_MAX. \<not> in_use (pthread_keys zero_st ! k)"
      by (intro exI [of _ 0]) (simp add: zero_st_def)
  qed (simp_all add: keys_wf_zero, simp add: zero_st_def zero_descr_def)
  have n8: "n = 0 \<or> n = 1 \<or> n = 2 \<or> n = 3 \<or> n = 4 \<or> n = 5 \<or> n = 6 \<or> n = 7" if "n < length ex4_calls" for n
    using that unfolding c by auto
  have "inj_on (\<lambda>n. of_nat n + 64 :: addr) {0, 1, 2, 3, 4, 5, 6, 7}" by simp
  then have i: "inj_on (\<lambda>n. of_nat n + 64 :: addr) {..<length ex4_calls}"
    by (rule inj_on_subset) (use n8 in blast)
  have z: "of_nat n + 64 \<noteq> NULL" if "n < length ex4_calls" for n
    using n8 [OF that] by auto
  have e: "c_str (replicate ACCU_SIZE (CHR 0x00)) = []" by (simp add: c_str_def ACCU_SIZE_def)
  have "to_come t ex4_calls < ACCU_SIZE" for t
    using to_come_le [of t ex4_calls] by (simp add: c ACCU_SIZE_def)
  moreover have "CHR 0x00 \<notin> set str" if "(t, str) \<in> set ex4_calls" for t str using that by (auto simp: c)
  moreover have "destr (pthread_keys zero_st ! k) \<noteq> 4" if "k < PTHREAD_KEYS_MAX" for k using that by (simp add: zero_st_def)
  moreover have "ex4_calls \<noteq> []" by (simp add: c)
  ultimately obtain p y where
    r: "str_calls prompt_env 4 (\<lambda>n. Some (of_nat n + 64)) ex4_calls (accus_init zero_st (\<lambda>_. replicate ACCU_SIZE (CHR 0x00))) =
      Some (Fine (own ex4_calls (\<lambda>t. []), y))" "inj_on p (fst ` set ex4_calls)"
      "\<And>t. exit_frees 4 t y [] = (if t \<in> fst ` set ex4_calls then [p t] else [])"
    using accumulators_separate [of zero_st "\<lambda>n. of_nat n + 64" ex4_calls "\<lambda>_. replicate ACCU_SIZE (CHR 0x00)"
        "\<lambda>n. Some (of_nat n + 64)" prompt_env 4, OF k i z] by (auto simp: e)
  have "p 16 \<noteq> p 24" using inj_onD [OF r(2), of 16 24] by (auto simp: c)
  moreover have "own ex4_calls (\<lambda>t. []) = [''Result of '', ''Result of '', ''Result of '', ''Result of first'', ''Result of second'',
      ''Result of first thread'', ''Result of second thread'', ''Result of initial thread'']" by (simp add: c)
  moreover have "16 \<in> fst ` set ex4_calls" "24 \<in> fst ` set ex4_calls" "32 \<notin> fst ` set ex4_calls" by (simp_all add: c)
  ultimately show ?thesis using r(1,3) by (intro exI [of _ y]) simp
qed

text \<open>
  \<open>pthread_once\<close> does not wait for a routine that another thread is running. When a thread calls \<open>str_accumulate\<close>
  while the first caller has won the test-and-set and not yet created the key, it goes on with \<open>str_key\<close> 0. If key 0
  belongs to another part of the program and has the value \<open>v\<close> in this thread, the text is appended there. (In the
  program itself \<open>main\<close> makes the first call before it creates the other threads.)
\<close>

theorem once_returns_too_early:
  assumes "p_specific (descr s t) ! 0 = v" and "v \<noteq> NULL" and "strcat (m v) str = Fine b"
  shows "\<exists>x y. begin_once (accus_init s m) = (True, x) \<and>
    str_accumulate E destroy_accu mal t str x = Some (Fine (v, y)) \<and> a_mem y = m(v := b) \<and> a_mallocs y = 0"
  using assms
  by (simp add: str_accumulate_def begin_once_def accus_init_def testandset_def use_accu_def append_accu_def
      pthread_getspecific_def Let_def)

end
