(* ===== verification/Search.thy ===== *)
theory Search
  imports Main
begin

text \<open>
  The search program \<open>Examples/ex3.c\<close>: five threads look for a number, each from a random place on; the first one to find
  it takes the lock, which nobody releases, and cancels the others. The steps of the main thread are the two halves of
  \<open>pthread_create\<close>, the start of the new thread and the store into \<open>threads[i]\<close>; those of a searching thread
  are a round of its loop, a call of \<open>pthread_mutex_trylock\<close>, and a round of the loop that cancels the others.
  Cancellation is deferred: it takes effect in \<open>pthread_testcancel\<close>.

  The threads are the numbers below \<open>NUM_THREADS\<close>. \<open>seed t\<close> is the number at which thread \<open>t\<close> begins,
  \<open>rand() & 0xFFFFFF\<close>. A call \<open>pthread_cancel(threads[j])\<close> with an entry of \<open>threads\<close> that has not been stored yet
  dereferences a null pointer: \<open>crashed\<close>.
\<close>

definition NUM_THREADS :: nat where "NUM_THREADS = 5"

abbreviation span :: nat where "span \<equiv> 0x1000000"

datatype search_pc = Unborn | Searching | Found | Cancelling nat | Finished | Cancelled

record search_state =
  spawned :: nat
  stored :: nat
  lock :: bool
  tries :: "nat option"
  spc :: "nat \<Rightarrow> search_pc"
  val_i :: "nat \<Rightarrow> nat"
  ntries :: "nat \<Rightarrow> nat"
  canceled :: "nat \<Rightarrow> bool"
  crashed :: bool

text \<open>A round of the loop \<open>while (1)\<close> of \<open>search\<close>.\<close>

definition search_round :: "nat \<Rightarrow> nat \<Rightarrow> search_state \<Rightarrow> search_state" where
  "search_round num t x =
     (let i = (val_i x t + 1) mod span;
          n = ntries x t + 1;
          x = x\<lparr>val_i := (val_i x)(t := i), ntries := (ntries x)(t := n)\<rparr>
      in if num = i then x\<lparr>spc := (spc x)(t := Found)\<rparr>
         else if n mod 100 = 0 \<and> canceled x t then x\<lparr>spc := (spc x)(t := Cancelled)\<rparr>
         else x)"

text \<open>A call of \<open>pthread_mutex_trylock\<close>, with what follows each of its results.\<close>

definition search_trylock :: "nat \<Rightarrow> search_state \<Rightarrow> search_state" where
  "search_trylock t x =
     (if lock x then if canceled x t then x\<lparr>spc := (spc x)(t := Cancelled)\<rparr> else x
      else x\<lparr>lock := True, tries := Some (ntries x t), spc := (spc x)(t := Cancelling 0)\<rparr>)"

text \<open>A round of the loop over \<open>threads\<close>.\<close>

definition search_cancel :: "nat \<Rightarrow> nat \<Rightarrow> search_state \<Rightarrow> search_state" where
  "search_cancel t j x =
     (if j \<ge> NUM_THREADS then x\<lparr>spc := (spc x)(t := Finished)\<rparr>
      else if stored x \<le> j then x\<lparr>crashed := True\<rparr>
      else x\<lparr>spc := (spc x)(t := Cancelling (j + 1)), canceled := (if j = t then canceled x else (canceled x)(j := True))\<rparr>)"

inductive search_step :: "nat \<Rightarrow> (nat \<Rightarrow> nat) \<Rightarrow> search_state \<Rightarrow> search_state \<Rightarrow> bool" for num seed where
  spawn: "\<not> crashed x \<Longrightarrow> spawned x = stored x \<Longrightarrow> t = spawned x \<Longrightarrow> t < NUM_THREADS \<Longrightarrow>
     search_step num seed x (x\<lparr>spawned := t + 1, spc := (spc x)(t := Searching), val_i := (val_i x)(t := seed t),
       ntries := (ntries x)(t := 0)\<rparr>)"
| store: "\<not> crashed x \<Longrightarrow> stored x < spawned x \<Longrightarrow> search_step num seed x (x\<lparr>stored := spawned x\<rparr>)"
| round: "\<not> crashed x \<Longrightarrow> spc x t = Searching \<Longrightarrow> search_step num seed x (search_round num t x)"
| trylock: "\<not> crashed x \<Longrightarrow> spc x t = Found \<Longrightarrow> search_step num seed x (search_trylock t x)"
| cancel: "\<not> crashed x \<Longrightarrow> spc x t = Cancelling j \<Longrightarrow> search_step num seed x (search_cancel t j x)"

definition search_start :: search_state where
  "search_start = \<lparr>spawned = 0, stored = 0, lock = False, tries = None, spc = (\<lambda>_. Unborn), val_i = (\<lambda>_. 0),
     ntries = (\<lambda>_. 0), canceled = (\<lambda>_. False), crashed = False\<rparr>"

inductive search_reach :: "nat \<Rightarrow> (nat \<Rightarrow> nat) \<Rightarrow> search_state \<Rightarrow> bool" for num seed where
  start: "search_reach num seed search_start"
| step: "search_reach num seed x \<Longrightarrow> search_step num seed x y \<Longrightarrow> search_reach num seed y"

section \<open>The invariant\<close>

text \<open>The thread that holds the lock has found the number; how far it has got with the others, \<open>d\<close>.\<close>

fun progress :: "search_pc \<Rightarrow> nat option" where
  "progress (Cancelling j) = Some j"
| "progress Finished = Some NUM_THREADS"
| "progress _ = None"

definition search_inv :: "nat \<Rightarrow> (nat \<Rightarrow> nat) \<Rightarrow> search_state \<Rightarrow> bool" where
  "search_inv num seed x \<longleftrightarrow>
     stored x \<le> spawned x \<and> spawned x \<le> NUM_THREADS \<and> spawned x \<le> stored x + 1 \<and>
     (\<forall>t. spc x t = Unborn \<longleftrightarrow> spawned x \<le> t) \<and>
     (\<forall>t. val_i x t < span) \<and>
     (\<forall>t. spc x t \<noteq> Unborn \<longrightarrow> val_i x t = (seed t + ntries x t) mod span) \<and>
     (\<forall>t. spc x t = Found \<or> progress (spc x t) \<noteq> None \<longrightarrow> val_i x t = num) \<and>
     (\<forall>t. spc x t = Cancelled \<longrightarrow> canceled x t) \<and>
     (\<forall>t. canceled x t \<longrightarrow> lock x) \<and>
     (lock x \<longrightarrow> (\<exists>t. progress (spc x t) \<noteq> None \<and> tries x = Some (ntries x t))) \<and>
     (\<forall>t d. progress (spc x t) = Some d \<longrightarrow> lock x \<and> d \<le> NUM_THREADS \<and> (\<forall>j < d. j < stored x \<and> (j \<noteq> t \<longrightarrow> canceled x j))) \<and>
     (\<forall>t u. progress (spc x t) \<noteq> None \<longrightarrow> progress (spc x u) \<noteq> None \<longrightarrow> t = u)"

lemma search_inv_start: "search_inv num seed search_start"
  by (simp add: search_inv_def search_start_def)

lemma search_invD:
  assumes "search_inv num seed x"
  shows "stored x \<le> spawned x" "spawned x \<le> NUM_THREADS" "spawned x \<le> stored x + 1"
    "spc x t = Unborn \<longleftrightarrow> spawned x \<le> t" "val_i x t < span"
    "spc x t \<noteq> Unborn \<Longrightarrow> val_i x t = (seed t + ntries x t) mod span"
    "spc x t = Found \<or> progress (spc x t) \<noteq> None \<Longrightarrow> val_i x t = num"
    "spc x t = Cancelled \<Longrightarrow> canceled x t" "canceled x t \<Longrightarrow> lock x"
    "lock x \<Longrightarrow> \<exists>t. progress (spc x t) \<noteq> None \<and> tries x = Some (ntries x t)"
    "progress (spc x t) = Some d \<Longrightarrow> lock x" "progress (spc x t) = Some d \<Longrightarrow> d \<le> NUM_THREADS"
    "progress (spc x t) = Some d \<Longrightarrow> j < d \<Longrightarrow> j < stored x"
    "progress (spc x t) = Some d \<Longrightarrow> j < d \<Longrightarrow> j \<noteq> t \<Longrightarrow> canceled x j"
    "progress (spc x t) \<noteq> None \<Longrightarrow> progress (spc x u) \<noteq> None \<Longrightarrow> t = u"
  using assms unfolding search_inv_def by (blast | metis)+

text \<open>A change of one thread that does not hold the lock.\<close>

lemma search_inv_local:
  assumes I: "search_inv num seed x" and "spc x t \<noteq> Unborn" and "progress (spc x t) = None"
    and "c \<noteq> Unborn" and "progress c = None" and "v = (seed t + n) mod span"
    and "c = Found \<Longrightarrow> v = num" and "c = Cancelled \<Longrightarrow> canceled x t"
  shows "search_inv num seed (x\<lparr>spc := (spc x)(t := c), val_i := (val_i x)(t := v), ntries := (ntries x)(t := n)\<rparr>)"
    (is "search_inv num seed ?y")
proof -
  note D = search_invD [OF I]
  have p: "progress (spc ?y u) = progress (spc x u)" for u using assms(3,5) by simp
  have "progress (spc x u) \<noteq> None \<Longrightarrow> u \<noteq> t" for u using assms(3) by auto
  then have w: "progress (spc x u) \<noteq> None \<Longrightarrow> ntries ?y u = ntries x u" for u by auto
  show ?thesis unfolding search_inv_def p
  proof (intro conjI allI impI)
    fix u
    show "spc ?y u = Unborn \<longleftrightarrow> spawned ?y \<le> u" using D(4) [of u] assms(2,4) by auto
    show "val_i ?y u < span" using D(5) [of u] assms(6) by simp
    show "val_i ?y u = (seed u + ntries ?y u) mod span" if "spc ?y u \<noteq> Unborn"
      using D(6) [of u] assms(6) that by auto
    show "val_i ?y u = num" if "spc ?y u = Found \<or> progress (spc x u) \<noteq> None"
      using D(7) [of u] assms(3,7) that by (cases "u = t") auto
    show "canceled ?y u" if "spc ?y u = Cancelled" using D(8) [of u] assms(8) that by (cases "u = t") auto
  next
    assume "lock ?y"
    then obtain u where "progress (spc x u) \<noteq> None" "tries x = Some (ntries x u)" using D(10) by auto
    then show "\<exists>u. progress (spc x u) \<noteq> None \<and> tries ?y = Some (ntries ?y u)"
      using w [of u] by (intro exI [of _ u]) simp
  qed (use D in auto)
qed

lemma search_inv_round:
  assumes "search_inv num seed x" and "spc x t = Searching"
  shows "search_inv num seed (search_round num t x)"
proof -
  let ?v = "(val_i x t + 1) mod span" and ?n = "ntries x t + 1"
  define c where "c = (if num = ?v then Found else if ?n mod 100 = 0 \<and> canceled x t then Cancelled else Searching)"
  have "?v = (seed t + ?n) mod span"
    using search_invD(6) [OF assms(1), of t] assms(2) by (simp add: mod_Suc_eq)
  then have "search_inv num seed (x\<lparr>spc := (spc x)(t := c), val_i := (val_i x)(t := ?v), ntries := (ntries x)(t := ?n)\<rparr>)"
    using assms by (intro search_inv_local) (auto simp: c_def split: if_splits)
  moreover have "search_round num t x = x\<lparr>spc := (spc x)(t := c), val_i := (val_i x)(t := ?v), ntries := (ntries x)(t := ?n)\<rparr>"
    using assms(2) by (cases x) (auto simp: search_round_def c_def Let_def)
  ultimately show ?thesis by simp
qed

lemma search_inv_trylock:
  assumes I: "search_inv num seed x" and f: "spc x t = Found"
  shows "search_inv num seed (search_trylock t x)"
proof (cases "lock x")
  case True
  have "search_inv num seed (x\<lparr>spc := (spc x)(t := Cancelled), val_i := (val_i x)(t := val_i x t), ntries := (ntries x)(t := ntries x t)\<rparr>)"
    if "canceled x t" using that f search_invD(6) [OF I, of t] by (intro search_inv_local [OF I]) auto
  with True I show ?thesis by (simp add: search_trylock_def)
next
  case False
  note D = search_invD [OF I]
  have none: "progress (spc x u) = None" "\<not> canceled x u" for u
    using D(9) [of u] D(11) [of u] False by (cases "progress (spc x u)"; auto)+
  let ?y = "x\<lparr>lock := True, tries := Some (ntries x t), spc := (spc x)(t := Cancelling 0)\<rparr>"
  have p: "progress (spc ?y u) = (if u = t then Some 0 else None)" for u using none by simp
  have "search_inv num seed ?y" unfolding search_inv_def p
  proof (intro conjI allI impI)
    fix u
    show "spc ?y u = Unborn \<longleftrightarrow> spawned ?y \<le> u" using D(4) [of u] f by auto
    show "val_i ?y u = num" if "spc ?y u = Found \<or> (if u = t then Some 0 else None) \<noteq> None"
      using D(7) [of u] f that by (auto split: if_splits)
    show "val_i ?y u = (seed u + ntries ?y u) mod span" if "spc ?y u \<noteq> Unborn"
      using D(6) [of u] f that by (auto split: if_splits)
  qed (use D none f in \<open>auto split: if_splits\<close>)
  with False show ?thesis by (simp add: search_trylock_def)
qed

lemma search_inv_cancel:
  assumes I: "search_inv num seed x" and f: "spc x t = Cancelling j"
  shows "search_inv num seed (search_cancel t j x)"
proof -
  note D = search_invD [OF I]
  have pt: "progress (spc x t) = Some j" using f by simp
  have none: "progress (spc x u) = None" if "u \<noteq> t" for u using D(15) [of u t] that f by (cases "progress (spc x u)") auto
  have tr: "tries x = Some (ntries x t)" "lock x" using D(10) D(11) [OF pt] none by (auto, metis option.distinct(1))
  have j: "j \<le> NUM_THREADS" using D(12) [OF pt] .
  define c where "c = (if j \<ge> NUM_THREADS then Finished else Cancelling (j + 1))"
  define k where "k = (if j \<ge> NUM_THREADS then j else j + 1)"
  define a where "a = (if j \<ge> NUM_THREADS \<or> j = t then canceled x else (canceled x)(j := True))"
  have pc: "progress c = Some k" "k \<le> NUM_THREADS" using j by (auto simp: c_def k_def)
  have mono: "canceled x u \<Longrightarrow> a u" for u by (auto simp: a_def)
  let ?y = "x\<lparr>spc := (spc x)(t := c), canceled := a\<rparr>"
  have p: "progress (spc ?y u) = (if u = t then Some k else None)" for u using none pc by simp
  have "search_inv num seed ?y" if "j < NUM_THREADS \<Longrightarrow> j < stored x"
    unfolding search_inv_def p
  proof (intro conjI allI impI)
    fix u
    show "spc ?y u = Unborn \<longleftrightarrow> spawned ?y \<le> u" using D(4) [of u] f by (auto simp: c_def)
    show "val_i ?y u = num" if "spc ?y u = Found \<or> (if u = t then Some k else None) \<noteq> None"
      using D(7) [of u] f that by (auto split: if_splits)
    show "val_i ?y u = (seed u + ntries ?y u) mod span" if "spc ?y u \<noteq> Unborn"
      using D(6) [of u] f that by (auto split: if_splits)
    show "canceled ?y u" if "spc ?y u = Cancelled"
      using D(8) [of u] mono that by (cases "u = t") (auto simp: c_def split: if_splits)
    show "\<exists>u. (if u = t then Some k else None) \<noteq> None \<and> tries ?y = Some (ntries ?y u)" using tr by auto
  next
    fix u d i assume d: "(if u = t then Some k else None) = Some d" and i: "i < d"
    then have "i < j \<or> i = j \<and> j < NUM_THREADS" by (auto simp: k_def split: if_splits)
    then show "i < stored ?y" using D(13) [OF pt, of i] that by auto
    show "canceled ?y i" if "i \<noteq> u"
      using \<open>i < j \<or> _\<close> D(14) [OF pt, of i] d that by (auto simp: a_def split: if_splits)
  qed (use D tr pc in \<open>auto split: if_splits\<close>)
  moreover have "search_inv num seed (x\<lparr>crashed := True\<rparr>) = search_inv num seed x" by (simp add: search_inv_def)
  ultimately show ?thesis using I j by (auto simp: search_cancel_def c_def a_def split: if_splits)
qed

lemma search_inv_step:
  assumes "search_step num seed x y" and "search_inv num seed x" and "\<And>t. seed t < span"
  shows "search_inv num seed y"
  using assms(1)
proof cases
  case (spawn t)
  note D = search_invD [OF assms(2)]
  have u: "spc x t = Unborn" using D(4) [of t] spawn by simp
  let ?y = "x\<lparr>spawned := t + 1, spc := (spc x)(t := Searching), val_i := (val_i x)(t := seed t), ntries := (ntries x)(t := 0)\<rparr>"
  have p: "progress (spc ?y v) = progress (spc x v)" for v using u by simp
  have w: "progress (spc x v) \<noteq> None \<Longrightarrow> v \<noteq> t" for v using u by auto
  have "search_inv num seed ?y" unfolding search_inv_def p
  proof (intro conjI allI impI)
    fix v
    show "spc ?y v = Unborn \<longleftrightarrow> spawned ?y \<le> v" using D(4) [of v] spawn by auto
    show "val_i ?y v = num" if "spc ?y v = Found \<or> progress (spc x v) \<noteq> None"
      using D(7) [of v] w [of v] that by (cases "v = t") auto
    show "canceled ?y v" if "spc ?y v = Cancelled"
      using D(8) [of v] that by (cases "v = t") auto
  next
    assume "lock ?y"
    then obtain v where "progress (spc x v) \<noteq> None" "tries x = Some (ntries x v)" using D(10) by auto
    then show "\<exists>v. progress (spc x v) \<noteq> None \<and> tries ?y = Some (ntries ?y v)"
      using w [of v] by (intro exI [of _ v]) simp
  qed (use D assms(3) spawn in auto)
  then show ?thesis using spawn by simp
next
  case store
  note D = search_invD [OF assms(2)]
  let ?y = "x\<lparr>stored := spawned x\<rparr>"
  have p: "progress (spc ?y v) = progress (spc x v)" for v by simp
  have "j < stored ?y" if "progress (spc x t) = Some d" "j < d" for t d j using D(13) [OF that] store by simp
  then have "search_inv num seed ?y"
    unfolding search_inv_def p using D by (intro conjI allI impI) auto
  then show ?thesis using store by simp
qed (use assms(2) in \<open>auto intro: search_inv_round search_inv_trylock search_inv_cancel\<close>)

lemma search_reach_inv:
  assumes "search_reach num seed x" and "\<And>t. seed t < span"
  shows "search_inv num seed x"
  using assms(1) by induction (auto intro: search_inv_start search_inv_step assms(2))

section \<open>Termination\<close>

text \<open>The rounds after which a thread that has reached \<open>i\<close> finds the number, and the steps that are left.\<close>

definition distance :: "nat \<Rightarrow> nat \<Rightarrow> nat" where
  "distance num i = (if i < num then num - i else num + span - i)"

fun pc_work :: "search_pc \<Rightarrow> nat \<Rightarrow> nat" where
  "pc_work Unborn _ = 2 * span"
| "pc_work Searching d = NUM_THREADS + 3 + d"
| "pc_work Found _ = NUM_THREADS + 3"
| "pc_work (Cancelling j) _ = NUM_THREADS + 1 - j"
| "pc_work _ _ = 0"

definition work :: "nat \<Rightarrow> search_state \<Rightarrow> nat" where
  "work num x = (if crashed x then 0 else Suc (2 * (NUM_THREADS - stored x) - (spawned x - stored x) +
     (\<Sum>t < NUM_THREADS. pc_work (spc x t) (distance num (val_i x t)))))"

lemma distance_round:
  assumes "i < span" and "num < span" and "num \<noteq> (i + 1) mod span"
  shows "distance num ((i + 1) mod span) < distance num i"
proof (cases "i + 1 = span")
  case True
  then show ?thesis using assms by (auto simp: distance_def)
next
  case False
  then show ?thesis using assms by (auto simp: distance_def)
qed

lemma distance_bound: "i < span \<Longrightarrow> num < span \<Longrightarrow> 0 < distance num i \<and> distance num i \<le> span"
  by (auto simp: distance_def)

text \<open>A step of one thread, as far as the sum is concerned.\<close>

lemma sum_less:
  fixes f g :: "nat \<Rightarrow> nat"
  assumes "t < N" and "g t < f t" and "\<And>u. u \<noteq> t \<Longrightarrow> g u = f u"
  shows "(\<Sum>u < N. g u) < (\<Sum>u < N. f u)"
  using assms by (intro sum_strict_mono_ex1) (auto, metis order.refl less_imp_le)

lemma work_less:
  assumes "search_inv num seed x" and "\<not> crashed x" and "spc x t \<noteq> Unborn"
    and "spawned y = spawned x" and "stored y = stored x" and "\<And>u. u \<noteq> t \<Longrightarrow> spc y u = spc x u \<and> val_i y u = val_i x u"
    and "crashed y \<or> pc_work (spc y t) (distance num (val_i y t)) < pc_work (spc x t) (distance num (val_i x t))"
  shows "work num y < work num x"
proof -
  have "t < NUM_THREADS" using search_invD(2) [OF assms(1)] search_invD(4) [OF assms(1), of t] assms(3) by simp
  then show ?thesis using assms sum_less [of t NUM_THREADS] by (auto simp: work_def)
qed

lemma work_step:
  assumes I: "search_inv num seed x" and "search_step num seed x y" and "num < span" and "\<And>t. seed t < span" and "y \<noteq> x"
  shows "work num y < work num x"
  using assms(2)
proof cases
  case (spawn t)
  have u: "spc x t = Unborn" using search_invD(4) [OF I, of t] spawn by simp
  have "distance num (seed t) \<le> span" using distance_bound [OF assms(4) assms(3)] by blast
  then have "(\<Sum>u < NUM_THREADS. pc_work (spc y u) (distance num (val_i y u))) <
      (\<Sum>u < NUM_THREADS. pc_work (spc x u) (distance num (val_i x u)))"
    using spawn u by (intro sum_less [of t]) (auto simp: NUM_THREADS_def)
  with spawn show ?thesis by (simp add: work_def)
next
  case store
  with search_invD(2) [OF I] show ?thesis by (simp add: work_def)
next
  case (round t)
  have "val_i x t < span" by (rule search_invD(5) [OF I])
  from distance_round [OF this assms(3)] round distance_bound [OF this assms(3)] show ?thesis
    by (intro work_less [OF I, of t]) (auto simp: search_round_def Let_def)
next
  case (trylock t)
  with assms(5) show ?thesis
    by (intro work_less [OF I, of t]) (auto simp: search_trylock_def split: if_splits)
next
  case (cancel t j)
  have "j \<le> NUM_THREADS" using search_invD(12) [OF I, of t j] cancel by simp
  with cancel show ?thesis
    by (intro work_less [OF I, of t]) (auto simp: search_cancel_def split: if_splits)
qed

lemma search_progress:
  assumes I: "search_inv num seed x" and "\<not> crashed x" and stuck: "\<And>y. search_step num seed x y \<Longrightarrow> y = x"
  shows "\<exists>t < NUM_THREADS. spc x t = Finished \<and> tries x = Some (ntries x t) \<and>
    (\<forall>u < NUM_THREADS. u \<noteq> t \<longrightarrow> spc x u = Cancelled)"
proof -
  note D = search_invD [OF I]
  have "\<not> stored x < spawned x" using arg_cong [OF stuck [OF store [OF assms(2)]], of stored] by auto
  then have s: "spawned x = stored x" using D(1) by simp
  have "\<not> spawned x < NUM_THREADS"
    using arg_cong [OF stuck [OF spawn [OF assms(2) s refl]], of spawned] by auto
  then have all: "stored x = NUM_THREADS" "spawned x = NUM_THREADS" using s D(2) by simp_all
  have born: "spc x t \<noteq> Unborn \<longleftrightarrow> t < NUM_THREADS" for t using D(4) [of t] all by auto
  have "ntries (search_round num t x) t = ntries x t + 1" for t by (simp add: search_round_def Let_def)
  then have ns: "spc x t \<noteq> Searching" for t
    using arg_cong [OF stuck [OF round [OF assms(2), of t]], of "\<lambda>x. ntries x t"] by auto
  have "spc (search_cancel t j x) t \<noteq> Cancelling j" for t j using all by (simp add: search_cancel_def)
  then have nc: "spc x t \<noteq> Cancelling j" for t j
    using arg_cong [OF stuck [OF cancel [OF assms(2), of t j]], of "\<lambda>x. spc x t"] by auto
  have "spc (search_trylock t x) t \<noteq> Found" if "\<not> (lock x \<and> \<not> canceled x t)" for t
    using that by (auto simp: search_trylock_def)
  then have nf: "lock x \<and> \<not> canceled x t" if "spc x t = Found" for t
    using arg_cong [OF stuck [OF trylock [OF assms(2) that]], of "\<lambda>x. spc x t"] that by auto
  have "spc x 0 = Found \<or> spc x 0 = Finished \<or> spc x 0 = Cancelled"
    using ns [of 0] nc [of 0] born [of 0] by (cases "spc x 0") (auto simp: NUM_THREADS_def)
  then have "lock x" using nf [of 0] D(8,9) [of 0] D(11) [of 0] by auto
  then obtain t where t: "progress (spc x t) \<noteq> None" "tries x = Some (ntries x t)" using D(10) by blast
  then have f: "spc x t = Finished" using nc [of t] by (cases "spc x t") auto
  have "spc x u = Cancelled" if "u < NUM_THREADS" "u \<noteq> t" for u
  proof -
    have "canceled x u" using D(14) [of t NUM_THREADS u] f that by simp
    then have "spc x u \<noteq> Found" using nf [of u] by blast
    moreover have "spc x u \<noteq> Finished" using D(15) [of t u] t(1) that by auto
    ultimately show ?thesis using ns [of u] nc [of u] born [of u] that by (cases "spc x u") auto
  qed
  with f t(2) born [of t] show ?thesis by auto
qed

section \<open>Properties\<close>

text \<open>
  C21. The search ends. Whatever the order in which the threads run, every step of the program is a failed attempt of a waiting
  thread to take the lock, which changes nothing, or brings it nearer to its end. It stops only when the thread that has
  found the number, and no other, has finished, with the number of its own tries in \<open>tries\<close>, and all the others have
  been cancelled; or when a null pointer has been passed to \<open>pthread_cancel\<close>.
\<close>

theorem search_ends:
  assumes "search_reach num seed x" and "num < span" and "\<And>t. seed t < span"
  shows "(\<forall>y. search_step num seed x y \<longrightarrow> y = x \<or> work num y < work num x) \<and>
    (crashed x \<or> (\<exists>y. search_step num seed x y \<and> y \<noteq> x) \<or>
      (\<exists>t n. t < NUM_THREADS \<and> spc x t = Finished \<and> tries x = Some n \<and> (seed t + n) mod span = num \<and>
        (\<forall>u < NUM_THREADS. u \<noteq> t \<longrightarrow> spc x u = Cancelled)))"
proof -
  have I: "search_inv num seed x" using search_reach_inv [OF assms(1,3)] .
  have "\<exists>t n. t < NUM_THREADS \<and> spc x t = Finished \<and> tries x = Some n \<and> (seed t + n) mod span = num \<and>
      (\<forall>u < NUM_THREADS. u \<noteq> t \<longrightarrow> spc x u = Cancelled)"
    if nc: "\<not> crashed x" and stuck: "\<not> (\<exists>y. search_step num seed x y \<and> y \<noteq> x)"
  proof -
    obtain t where t: "t < NUM_THREADS" "spc x t = Finished" "tries x = Some (ntries x t)"
      "\<forall>u < NUM_THREADS. u \<noteq> t \<longrightarrow> spc x u = Cancelled"
      using search_progress [OF I nc] stuck by blast
    moreover have "(seed t + ntries x t) mod span = num"
      using search_invD(6,7) [OF I, of t] t(2) by simp
    ultimately show ?thesis by blast
  qed
  then show ?thesis using work_step [OF I _ assms(2,3)] by blast
qed

theorem search_ends_witness:
  "\<exists>y. search_step 5 (\<lambda>_. 4) search_start y \<and> work 5 y < work 5 search_start"
  using search_ends [OF search_reach.start, of 5 "\<lambda>_. 4"] by (auto simp: search_start_def)

text \<open>
  The program can crash. When the first thread finds the number before the main thread has created the others,
  it passes the empty entries of \<open>threads\<close> to \<open>pthread_cancel\<close>.
\<close>

theorem search_cancels_missing_thread:
  assumes "num < span" and "num = (seed 0 + 1) mod span"
  shows "\<exists>x. search_reach num seed x \<and> crashed x"
proof -
  let ?x1 = "search_start\<lparr>spawned := 1, spc := (\<lambda>_. Unborn)(0 := Searching), val_i := (\<lambda>_. 0)(0 := seed 0), ntries := (\<lambda>_. 0)(0 := 0)\<rparr>"
  let ?x2 = "?x1\<lparr>stored := 1\<rparr>"
  have "search_reach num seed ?x1"
    using search_reach.step [OF search_reach.start spawn [of search_start 0]] by (simp add: search_start_def NUM_THREADS_def)
  moreover have "search_step num seed ?x1 ?x2"
    using store [of ?x1 num seed] by (simp add: search_start_def)
  ultimately have "search_reach num seed ?x2" by (rule search_reach.step)
  moreover have "search_step num seed ?x2 (search_round num 0 ?x2)" by (rule round) (simp_all add: search_start_def)
  ultimately have r3: "search_reach num seed (search_round num 0 ?x2)" by (rule search_reach.step)
  let ?x3 = "search_round num 0 ?x2"
  have x3: "spc ?x3 0 = Found" "\<not> crashed ?x3" "\<not> lock ?x3" "stored ?x3 = 1"
    using assms by (simp_all add: search_round_def search_start_def Let_def)
  let ?x4 = "search_trylock 0 ?x3" and ?x5 = "search_cancel 0 0 (search_trylock 0 ?x3)"
  have r4: "search_reach num seed ?x4" by (rule search_reach.step [OF r3 trylock]) (use x3 in simp_all)
  have x4: "spc ?x4 0 = Cancelling 0" "\<not> crashed ?x4" "stored ?x4 = 1" using x3 by (simp_all add: search_trylock_def)
  have r5: "search_reach num seed ?x5" by (rule search_reach.step [OF r4 cancel]) (use x4 in simp_all)
  have x5: "spc ?x5 0 = Cancelling 1" "\<not> crashed ?x5" "stored ?x5 = 1"
    using x4 by (simp_all add: search_cancel_def NUM_THREADS_def)
  have "search_reach num seed (search_cancel 0 1 ?x5)" by (rule search_reach.step [OF r5 cancel]) (use x5 in simp_all)
  moreover have "crashed (search_cancel 0 1 x)" if "stored x = 1" for x
    using that by (simp add: search_cancel_def NUM_THREADS_def)
  ultimately show ?thesis using x5(3) by blast
qed

theorem search_cancels_missing_thread_witness:
  "\<exists>x. search_reach 5 (\<lambda>_. 4) x \<and> crashed x"
  by (rule search_cancels_missing_thread) simp_all

end
