(* ===== verification/Proxy_Pool.thy ===== *)
theory Proxy_Pool
  imports Prelude "HOL-Library.Multiset"
begin

text \<open>
  The pool of threads in the example program \<open>Examples/proxy.c\<close>. The main thread (\<open>server\<close>) accepts
  connections and hands each one to a thread of the pool, which it takes from the list \<open>free_q\<close> or creates
  anew, up to a maximal number; a thread (\<open>client\<close>) processes its connection, puts itself back into the
  list, and leaves the pool when it has waited for some time in vain. The list and the number of
  threads are protected by the mutex \<open>free_q_mu\<close>, the structure of each thread by a mutex of its own.

  A step is one section under a mutex, one signal of a condition, one end of a wait, or one step
  outside. The structures live in a heap; one that is not there has been freed, or was never allocated.
\<close>

record th_proxy_struct =
  next_free :: addr
  sock_in :: int

datatype server_pc = VAccept | VAlloc int | VWaitQ int | VGive addr int | VSignal addr

datatype client_pc = WGone | WCheck | WWaiting | WReady | WProcess int | WDone | WPush | WSignalQ

record pool =
  structs :: "addr \<Rightarrow> th_proxy_struct option"
  free_q :: addr
  thread_count :: int
  srv :: server_pc
  ctl :: "addr \<Rightarrow> client_pc"
  accepted :: "int list"
  served :: "int list"

definition nextf :: "(addr \<Rightarrow> th_proxy_struct option) \<Rightarrow> addr \<Rightarrow> addr" where
  "nextf h p = (case h p of None \<Rightarrow> NULL | Some b \<Rightarrow> next_free b)"

definition sockf :: "(addr \<Rightarrow> th_proxy_struct option) \<Rightarrow> addr \<Rightarrow> int" where
  "sockf h p = (case h p of None \<Rightarrow> - 1 | Some b \<Rightarrow> sock_in b)"

text \<open>\<open>new_proxy_th\<close> at an address that \<open>malloc\<close> has returned; the new thread begins its loop.\<close>

definition new_proxy_th :: "addr \<Rightarrow> pool \<Rightarrow> pool" where
  "new_proxy_th p x = x\<lparr>structs := (structs x)(p \<mapsto> \<lparr>next_free = NULL, sock_in = - 1\<rparr>), ctl := (ctl x)(p := WCheck)\<rparr>"

text \<open>
  One pass of the loop of \<open>alloc_proxy_th\<close>, with \<open>free_q_mu\<close> held. \<open>mem\<close> is the result of \<open>malloc\<close>, \<open>None\<close> if
  \<open>malloc\<close> or \<open>pthread_create\<close> fails. The value is \<open>th_proxy\<close>, which is NULL when the server has to wait.
\<close>

definition alloc_proxy_th :: "int \<Rightarrow> addr option \<Rightarrow> pool \<Rightarrow> addr \<times> pool" where
  "alloc_proxy_th max_proxy_threads mem x =
     (if free_q x \<noteq> NULL then (free_q x, x\<lparr>free_q := nextf (structs x) (free_q x)\<rparr>)
      else if thread_count x < max_proxy_threads then
        (case mem of None \<Rightarrow> (NULL, x)
         | Some p \<Rightarrow> let x = new_proxy_th p x in (p, x\<lparr>thread_count := thread_count x + 1\<rparr>))
      else (NULL, x))"

text \<open>
  The search of a thread for itself in the list: \<open>prev\<close> is the structure whose link \<open>th\<close> points to, NULL for
  \<open>free_q\<close> itself, and \<open>cur\<close> is \<open>*th\<close>.
\<close>

partial_function (option) seek :: "(addr \<Rightarrow> th_proxy_struct option) \<Rightarrow> addr \<Rightarrow> addr \<Rightarrow> addr \<Rightarrow> (addr \<times> addr) option" where
  "seek h p prev cur =
     (if cur = NULL \<or> cur = p then Some (prev, cur) else seek h p cur (nextf h cur))"

text \<open>The section of \<open>client\<close> after a wait that has timed out: the thread removes itself and is gone, if it is in the list.\<close>

definition client_timeout :: "addr \<Rightarrow> pool \<Rightarrow> pool option" where
  "client_timeout p x =
     (case seek (structs x) p NULL (free_q x) of None \<Rightarrow> None
      | Some (prev, cur) \<Rightarrow>
        if cur = p then
          let nx = nextf (structs x) p;
              x = (if prev = NULL then x\<lparr>free_q := nx\<rparr>
                   else x\<lparr>structs := (structs x)(prev := map_option (next_free_update (\<lambda>_. nx)) (structs x prev))\<rparr>)
          in Some (x\<lparr>thread_count := thread_count x - 1, structs := (structs x)(p := None), ctl := (ctl x)(p := WGone)\<rparr>)
        else Some (x\<lparr>ctl := (ctl x)(p := WCheck)\<rparr>))"

text \<open>The results of \<open>malloc\<close>; the creation of a thread fails only if \<open>fails\<close> holds.\<close>

definition memory :: "bool \<Rightarrow> pool \<Rightarrow> addr option \<Rightarrow> bool" where
  "memory fails x mem = (case mem of None \<Rightarrow> fails | Some p \<Rightarrow> p \<noteq> NULL \<and> structs x p = None)"

inductive pool_step :: "bool \<Rightarrow> int \<Rightarrow> pool \<Rightarrow> pool \<Rightarrow> bool" for fails m where
  accept: "srv x = VAccept \<Longrightarrow> 0 \<le> s \<Longrightarrow> pool_step fails m x (x\<lparr>srv := VAlloc s, accepted := accepted x @ [s]\<rparr>)"
| alloc: "srv x = VAlloc s \<Longrightarrow> memory fails x mem \<Longrightarrow> alloc_proxy_th m mem x = (p, x') \<Longrightarrow>
    pool_step fails m x (x'\<lparr>srv := if p \<noteq> NULL then VGive p s else VWaitQ s\<rparr>)"
| give: "srv x = VGive p s \<Longrightarrow> structs x p = Some b \<Longrightarrow>
    pool_step fails m x (x\<lparr>structs := (structs x)(p \<mapsto> b\<lparr>sock_in := s\<rparr>), srv := VSignal p\<rparr>)"
| signal: "srv x = VSignal p \<Longrightarrow>
    pool_step fails m x (x\<lparr>srv := VAccept, ctl := if ctl x p = WWaiting then (ctl x)(p := WCheck) else ctl x\<rparr>)"
| check: "ctl x p = WCheck \<Longrightarrow> structs x p = Some b \<Longrightarrow>
    pool_step fails m x (x\<lparr>ctl := (ctl x)(p := if sock_in b < 0 then WWaiting else WReady)\<rparr>)"
| timeout: "ctl x p = WWaiting \<Longrightarrow> client_timeout p x = Some x' \<Longrightarrow> pool_step fails m x x'"
| process: "ctl x p = WReady \<Longrightarrow> structs x p = Some b \<Longrightarrow> pool_step fails m x (x\<lparr>ctl := (ctl x)(p := WProcess (sock_in b))\<rparr>)"
| processed: "ctl x p = WProcess s \<Longrightarrow> pool_step fails m x (x\<lparr>ctl := (ctl x)(p := WDone), served := served x @ [s]\<rparr>)"
| reset: "ctl x p = WDone \<Longrightarrow> structs x p = Some b \<Longrightarrow>
    pool_step fails m x (x\<lparr>structs := (structs x)(p \<mapsto> b\<lparr>sock_in := - 1\<rparr>), ctl := (ctl x)(p := WPush)\<rparr>)"
| push: "ctl x p = WPush \<Longrightarrow> structs x p = Some b \<Longrightarrow>
    pool_step fails m x (x\<lparr>structs := (structs x)(p \<mapsto> b\<lparr>next_free := free_q x\<rparr>), free_q := p, ctl := (ctl x)(p := WSignalQ)\<rparr>)"
| signal_q: "ctl x p = WSignalQ \<Longrightarrow>
    pool_step fails m x (x\<lparr>ctl := (ctl x)(p := WCheck), srv := (case srv x of VWaitQ s \<Rightarrow> VAlloc s | v \<Rightarrow> v)\<rparr>)"

definition pool_start :: pool where
  "pool_start = \<lparr>structs = (\<lambda>_. None), free_q = NULL, thread_count = 0, srv = VAccept, ctl = (\<lambda>_. WGone),
     accepted = [], served = []\<rparr>"

inductive pool_reach :: "bool \<Rightarrow> int \<Rightarrow> pool \<Rightarrow> bool" for fails m where
  pool_init: "pool_reach fails m pool_start"
| pool_next: "pool_reach fails m x \<Longrightarrow> pool_step fails m x y \<Longrightarrow> pool_reach fails m y"

section \<open>The invariant\<close>

lemma nextf_simps [simp]:
  "nextf (h(p \<mapsto> b)) q = (if q = p then next_free b else nextf h q)"
  "nextf (h(p := None)) q = (if q = p then NULL else nextf h q)"
  by (simp_all add: nextf_def)

lemma sockf_simps [simp]:
  "sockf (h(p \<mapsto> b)) q = (if q = p then sock_in b else sockf h q)"
  "sockf (h(p := None)) q = (if q = p then - 1 else sockf h q)"
  by (simp_all add: sockf_def)

lemma structs_some: "h p = Some b \<Longrightarrow> next_free b = nextf h p \<and> sock_in b = sockf h p"
  by (simp add: nextf_def sockf_def)

definition idle :: "client_pc \<Rightarrow> bool" where
  "idle c \<longleftrightarrow> c = WCheck \<or> c = WWaiting \<or> c = WSignalQ"

definition busy :: "client_pc \<Rightarrow> bool" where
  "busy c \<longleftrightarrow> c = WReady \<or> c = WDone \<or> (\<exists>s. c = WProcess s)"

lemma pc_simps [simp]:
  "idle WCheck" "idle WWaiting" "idle WSignalQ" "\<not> idle WReady" "\<not> idle (WProcess s)" "\<not> idle WDone" "\<not> idle WPush" "\<not> idle WGone"
  "busy WReady" "busy (WProcess s)" "busy WDone" "\<not> busy WCheck" "\<not> busy WWaiting" "\<not> busy WSignalQ" "\<not> busy WPush" "\<not> busy WGone"
  by (simp_all add: idle_def busy_def)

lemma pc_cases: "idle c \<or> busy c \<or> c = WPush \<or> c = WGone"
  by (cases c) simp_all

text \<open>A thread of the pool is in the list, or about to get a connection, or has one, or is on its way into the list.\<close>

definition struct_ok :: "pool \<Rightarrow> addr list \<Rightarrow> addr \<Rightarrow> bool" where
  "struct_ok x fq p \<longleftrightarrow>
     (p \<in> set fq \<or> (\<exists>s. srv x = VGive p s) \<longrightarrow> sockf (structs x) p < 0 \<and> idle (ctl x p)) \<and>
     (\<forall>s. srv x = VGive p s \<longrightarrow> p \<notin> set fq) \<and>
     (idle (ctl x p) \<longrightarrow> p \<in> set fq \<or> (\<exists>s. srv x = VGive p s) \<or> 0 \<le> sockf (structs x) p) \<and>
     (busy (ctl x p) \<longrightarrow> 0 \<le> sockf (structs x) p) \<and> (\<forall>s. ctl x p = WProcess s \<longrightarrow> s = sockf (structs x) p) \<and>
     (ctl x p = WPush \<longrightarrow> sockf (structs x) p < 0) \<and>
     (ctl x p = WWaiting \<longrightarrow> 0 \<le> sockf (structs x) p \<longrightarrow> srv x = VSignal p)"

definition pool_shape :: "pool \<Rightarrow> addr list \<Rightarrow> bool" where
  "pool_shape x fq \<longleftrightarrow>
     chain (nextf (structs x)) NULL (free_q x) fq \<and> (\<forall>p. ctl x p = WGone \<longleftrightarrow> structs x p = None) \<and> structs x NULL = None \<and>
     (\<forall>p \<in> set fq. structs x p \<noteq> None) \<and> (\<forall>p s. srv x = VGive p s \<longrightarrow> structs x p \<noteq> None) \<and>
     (\<forall>p. structs x p \<noteq> None \<longrightarrow> struct_ok x fq p) \<and> (\<forall>s p. srv x = VWaitQ s \<longrightarrow> p \<in> set fq \<longrightarrow> ctl x p = WSignalQ) \<and>
     (\<forall>s. srv x = VAlloc s \<or> srv x = VWaitQ s \<longrightarrow> 0 \<le> s) \<and> (\<forall>s p. srv x = VGive p s \<longrightarrow> 0 \<le> s)"

lemma pool_shapeD:
  assumes "pool_shape x fq"
  shows "chain (nextf (structs x)) NULL (free_q x) fq" and "ctl x p = WGone \<longleftrightarrow> structs x p = None" and "structs x NULL = None"
    and "p \<in> set fq \<Longrightarrow> structs x p \<noteq> None" and "srv x = VGive p s \<Longrightarrow> structs x p \<noteq> None"
    and "structs x p \<noteq> None \<Longrightarrow> struct_ok x fq p" and "srv x = VWaitQ s \<Longrightarrow> p \<in> set fq \<Longrightarrow> ctl x p = WSignalQ"
    and "srv x = VAlloc s \<Longrightarrow> 0 \<le> s" and "srv x = VWaitQ s \<Longrightarrow> 0 \<le> s" and "srv x = VGive p s \<Longrightarrow> 0 \<le> s"
  using assms unfolding pool_shape_def by ((elim conjE)?, blast)+

text \<open>The search ends, and finds the thread if it is in the list.\<close>

lemma seek_chain:
  assumes "chain (nextf h) NULL cur fq" and "p \<noteq> NULL"
  shows "if p \<in> set fq
    then \<exists>as bs. fq = as @ p # bs \<and> p \<notin> set as \<and> seek h p prev cur = Some (last (prev # as), p)
    else \<exists>q. seek h p prev cur = Some (q, NULL)"
  using assms
proof (induction fq arbitrary: cur prev)
  case Nil
  then show ?case by (subst seek.simps) simp
next
  case (Cons a fq)
  then have c: "cur = a" "a \<noteq> NULL" "chain (nextf h) NULL (nextf h a) fq" by auto
  show ?case
  proof (cases "a = p")
    case True
    then have "seek h p prev cur = Some (prev, p)" using c by (subst seek.simps) simp
    then show ?thesis using True by (auto intro: exI [of _ "[]"])
  next
    case False
    then have s: "seek h p prev cur = seek h p a (nextf h a)" using c by (subst seek.simps) simp
    show ?thesis
    proof (cases "p \<in> set fq")
      case True
      then obtain as bs where "fq = as @ p # bs" "p \<notin> set as" "seek h p a (nextf h a) = Some (last (a # as), p)"
        using Cons.IH [OF c(3), of a] Cons.prems(2) by auto
      then have "a # fq = (a # as) @ p # bs \<and> p \<notin> set (a # as) \<and> seek h p prev cur = Some (last (prev # a # as), p)"
        using s False by auto
      then have "\<exists>as bs. a # fq = as @ p # bs \<and> p \<notin> set as \<and> seek h p prev cur = Some (last (prev # as), p)" by blast
      then show ?thesis using True by simp
    next
      case f: False
      then show ?thesis using Cons.IH [OF c(3), of a] Cons.prems(2) s False by auto
    qed
  qed
qed

text \<open>What the section after a time-out does to the list.\<close>

lemma client_timeout_cases:
  assumes "pool_shape x fq" and "ctl x p = WWaiting" and "client_timeout p x = Some x'"
  obtains (gone) as bs h f where "fq = as @ p # bs" and "p \<notin> set as" and "p \<notin> set bs"
      and "x' = x\<lparr>free_q := f, thread_count := thread_count x - 1, structs := h, ctl := (ctl x)(p := WGone)\<rparr>"
      and "chain (nextf h) NULL f (as @ bs)" and "h p = None"
      and "\<And>q. q \<noteq> p \<Longrightarrow> (h q = None \<longleftrightarrow> structs x q = None) \<and> sockf h q = sockf (structs x) q"
  | (stays) "p \<notin> set fq" and "x' = x\<lparr>ctl := (ctl x)(p := WCheck)\<rparr>"
proof -
  have p: "p \<noteq> NULL" using pool_shapeD(2) [OF assms(1), of p] pool_shapeD(3) [OF assms(1)] assms(2) by auto
  note c = pool_shapeD(1) [OF assms(1)]
  show thesis
  proof (cases "p \<in> set fq")
    case False
    then show thesis using seek_chain [OF c p, of NULL] assms(3) p by (intro stays) (auto simp: client_timeout_def)
  next
    case True
    then obtain as bs where ab: "fq = as @ p # bs" "p \<notin> set as" "seek (structs x) p NULL (free_q x) = Some (last (NULL # as), p)"
      using seek_chain [OF c p, of NULL] by auto
    have d: "distinct (as @ p # bs)" using chain_distinct [OF c] ab(1) by simp
    show thesis
    proof (cases as rule: rev_cases)
      case Nil
      then have f: "free_q x = p" "chain (nextf (structs x)) NULL (nextf (structs x) p) bs" using c ab(1) by auto
      moreover have "chain (nextf ((structs x)(p := None))) NULL (nextf (structs x) p) bs = chain (nextf (structs x)) NULL (nextf (structs x) p) bs"
        by (rule chain_cong) (use d in auto)
      ultimately show thesis using assms(3) ab d Nil p
        by (intro gone [of as bs "(structs x)(p := None)" "nextf (structs x) p"]) (auto simp: client_timeout_def Let_def)
    next
      case (snoc zs y)
      let ?h = "(structs x)(y := map_option (next_free_update (\<lambda>_. nextf (structs x) p)) (structs x y), p := None)"
      have y: "y \<noteq> NULL" "y \<noteq> p" "structs x y \<noteq> None" "y \<notin> set zs" "y \<notin> set bs"
        using chain_not_mem_stop [OF c] d ab snoc pool_shapeD(4) [OF assms(1), of y] by auto
      then obtain b where b: "structs x y = Some b" by auto
      have "chain (nextf ?h) NULL (free_q x) (zs @ y # bs)"
        by (rule chain_unlink [of "nextf (structs x)" _ _ _ _ p]) (use c ab snoc d y b in auto)
      then show thesis using assms(3) ab d y b snoc structs_some [of "structs x" y b]
        by (intro gone [of as bs ?h "free_q x"]) (auto simp: client_timeout_def Let_def)
    qed
  qed
qed

section \<open>Every step keeps the shape of the pool\<close>

text \<open>A step that changes one thread of the pool, or the server, or both.\<close>

lemma struct_ok_other:
  assumes "struct_ok x fq q" and "ctl y q = ctl x q" and "sockf (structs y) q = sockf (structs x) q"
    and "q \<in> set fq' \<longleftrightarrow> q \<in> set fq" and "\<And>s. srv y = VGive q s \<longleftrightarrow> srv x = VGive q s"
    and "ctl x q = WWaiting \<Longrightarrow> 0 \<le> sockf (structs x) q \<Longrightarrow> srv x = VSignal q \<Longrightarrow> srv y = VSignal q"
  shows "struct_ok y fq' q"
  using assms unfolding struct_ok_def by auto

lemma pool_shapeI:
  assumes "chain (nextf (structs x)) NULL (free_q x) fq" and "\<And>p. ctl x p = WGone \<longleftrightarrow> structs x p = None"
    and "structs x NULL = None" and "\<And>p. p \<in> set fq \<Longrightarrow> structs x p \<noteq> None"
    and "\<And>p s. srv x = VGive p s \<Longrightarrow> structs x p \<noteq> None \<and> 0 \<le> s" and "\<And>p. structs x p \<noteq> None \<Longrightarrow> struct_ok x fq p"
    and "\<And>p s. srv x = VWaitQ s \<Longrightarrow> p \<in> set fq \<Longrightarrow> ctl x p = WSignalQ"
    and "\<And>s. srv x = VAlloc s \<or> srv x = VWaitQ s \<Longrightarrow> 0 \<le> s"
  shows "pool_shape x fq"
  using assms unfolding pool_shape_def by blast

lemma alloc_proxy_th_cases:
  assumes "memory fails x mem" and "alloc_proxy_th m mem x = (p, x')"
  obtains (list) "free_q x \<noteq> NULL" "p = free_q x" "x' = x\<lparr>free_q := nextf (structs x) p\<rparr>"
  | (new) "free_q x = NULL" "p \<noteq> NULL" "structs x p = None" "thread_count x < m"
      "x' = (new_proxy_th p x)\<lparr>thread_count := thread_count x + 1\<rparr>"
  | (none) "free_q x = NULL" "p = NULL" "x' = x" "fails \<or> m \<le> thread_count x"
proof (cases "free_q x = NULL")
  case False
  with assms(2) show thesis by (intro list) (auto simp: alloc_proxy_th_def)
next
  case True
  note empty = this
  show thesis
  proof (cases "thread_count x < m")
    case True
    with empty assms show thesis
      by (cases mem) (auto simp: alloc_proxy_th_def memory_def new_proxy_th_def Let_def intro: none new)
  next
    case False
    with empty assms(2) show thesis by (intro none) (auto simp: alloc_proxy_th_def)
  qed
qed

lemma pool_shape_step:
  assumes "pool_step fails m x y" and "pool_shape x fq"
  shows "\<exists>fq'. pool_shape y fq'"
  using assms
proof (induction rule: pool_step.induct)
  case (accept x s)
  note D = pool_shapeD [OF accept.prems]
  have "struct_ok (x\<lparr>srv := VAlloc s, accepted := accepted x @ [s]\<rparr>) fq q" if "structs x q \<noteq> None" for q
    by (rule struct_ok_other [OF D(6) [OF that]]) (use accept in auto)
  then show ?case using D(1-4) accept by (intro exI [of _ fq] pool_shapeI) auto
next
  case (give x p s b)
  note D = pool_shapeD [OF give.prems]
  let ?y = "x\<lparr>structs := (structs x)(p \<mapsto> b\<lparr>sock_in := s\<rparr>), srv := VSignal p\<rparr>"
  have p: "sockf (structs x) p < 0" "idle (ctl x p)" "p \<notin> set fq" "0 \<le> s" using D(6) [of p] D(10) give by (auto simp: struct_ok_def)
  have c: "nextf ((structs x)(p \<mapsto> b\<lparr>sock_in := s\<rparr>)) = nextf (structs x)" using give by (auto simp: nextf_def)
  have "struct_ok ?y fq q" if "structs x q \<noteq> None" for q
  proof (cases "q = p")
    case True
    then show ?thesis using p pc_cases [of "ctl x p"] by (auto simp: struct_ok_def idle_def)
  next
    case False
    then show ?thesis by (intro struct_ok_other [OF D(6) [OF that]]) (use give in auto)
  qed
  then have ok: "struct_ok ?y fq q" if "structs ?y q \<noteq> None" for q using that give by (cases "q = p") auto
  have "p \<noteq> NULL" "ctl x p \<noteq> WGone" using D(2) [of p] D(3) give by auto
  then have "pool_shape ?y fq" using D(1-4) give by (intro pool_shapeI ok) (auto simp: c split: if_splits)
  then show ?case by blast
next
  case (signal x p)
  note D = pool_shapeD [OF signal.prems]
  let ?y = "x\<lparr>srv := VAccept, ctl := if ctl x p = WWaiting then (ctl x)(p := WCheck) else ctl x\<rparr>"
  have "struct_ok ?y fq q" if "structs x q \<noteq> None" for q
  proof (cases "q = p")
    case True
    then show ?thesis using D(6) [OF that] signal by (auto simp: struct_ok_def)
  next
    case False
    then show ?thesis by (intro struct_ok_other [OF D(6) [OF that]]) (use signal in auto)
  qed
  moreover have "ctl x p = WWaiting \<Longrightarrow> structs x p \<noteq> None" using D(2) [of p] by auto
  ultimately show ?case using D(1-4) signal by (intro exI [of _ fq] pool_shapeI) auto
next
  case (check x p b)
  note D = pool_shapeD [OF check.prems]
  let ?y = "x\<lparr>ctl := (ctl x)(p := if sock_in b < 0 then WWaiting else WReady)\<rparr>"
  have "struct_ok ?y fq q" if "structs x q \<noteq> None" for q
  proof (cases "q = p")
    case True
    then show ?thesis using D(6) [OF that] check structs_some [of "structs x" p b] by (auto simp: struct_ok_def)
  next
    case False
    then show ?thesis by (intro struct_ok_other [OF D(6) [OF that]]) auto
  qed
  moreover have "ctl ?y q = WSignalQ" if "srv x = VWaitQ s" "q \<in> set fq" for q s
    using D(7) [OF that] check by auto
  ultimately show ?case using D(1-5,8-10) check by (intro exI [of _ fq] pool_shapeI) auto
next
  case (process x p b)
  note D = pool_shapeD [OF process.prems]
  let ?y = "x\<lparr>ctl := (ctl x)(p := WProcess (sock_in b))\<rparr>"
  have "struct_ok ?y fq q" if "structs x q \<noteq> None" for q
  proof (cases "q = p")
    case True
    then show ?thesis using D(6) [OF that] process structs_some [of "structs x" p b] by (auto simp: struct_ok_def)
  next
    case False
    then show ?thesis by (intro struct_ok_other [OF D(6) [OF that]]) auto
  qed
  moreover have "ctl ?y q = WSignalQ" if "srv x = VWaitQ s" "q \<in> set fq" for q s
    using D(7) [OF that] process by auto
  ultimately show ?case using D(1-5,8-10) process by (intro exI [of _ fq] pool_shapeI) auto
next
  case (processed x p s)
  note D = pool_shapeD [OF processed.prems]
  let ?y = "x\<lparr>ctl := (ctl x)(p := WDone), served := served x @ [s]\<rparr>"
  have "struct_ok ?y fq q" if "structs x q \<noteq> None" for q
  proof (cases "q = p")
    case True
    then show ?thesis using D(6) [OF that] processed by (auto simp: struct_ok_def)
  next
    case False
    then show ?thesis by (intro struct_ok_other [OF D(6) [OF that]]) auto
  qed
  moreover have "ctl ?y q = WSignalQ" if "srv x = VWaitQ s" "q \<in> set fq" for q s
    using D(7) [OF that] processed by auto
  moreover have "structs x p \<noteq> None" using D(2) [of p] processed by simp
  ultimately show ?case using D(1-5,8-10) processed by (intro exI [of _ fq] pool_shapeI) auto
next
  case (reset x p b)
  note D = pool_shapeD [OF reset.prems]
  let ?y = "x\<lparr>structs := (structs x)(p \<mapsto> b\<lparr>sock_in := - 1\<rparr>), ctl := (ctl x)(p := WPush)\<rparr>"
  have c: "nextf ((structs x)(p \<mapsto> b\<lparr>sock_in := - 1\<rparr>)) = nextf (structs x)" using reset by (auto simp: nextf_def)
  have "struct_ok ?y fq q" if "structs x q \<noteq> None" for q
  proof (cases "q = p")
    case True
    then show ?thesis using D(6) [OF that] reset by (auto simp: struct_ok_def)
  next
    case False
    then show ?thesis by (intro struct_ok_other [OF D(6) [OF that]]) auto
  qed
  moreover have "ctl ?y q = WSignalQ" if "srv x = VWaitQ s" "q \<in> set fq" for q s
    using D(7) [OF that] reset by auto
  ultimately show ?case using D(1-5,8-10) reset by (intro exI [of _ fq] pool_shapeI) (auto simp: c split: if_splits)
next
  case (push x p b)
  note D = pool_shapeD [OF push.prems]
  let ?y = "x\<lparr>structs := (structs x)(p \<mapsto> b\<lparr>next_free := free_q x\<rparr>), free_q := p, ctl := (ctl x)(p := WSignalQ)\<rparr>"
  have p: "p \<notin> set fq" "p \<noteq> NULL" using D(3) D(6) [of p] push by (auto simp: struct_ok_def)
  have "chain (nextf (structs ?y)) NULL (free_q x) fq = chain (nextf (structs x)) NULL (free_q x) fq"
    by (rule chain_cong) (use p in auto)
  then have c: "chain (nextf (structs ?y)) NULL p (p # fq)" using D(1) p by simp
  have "struct_ok ?y (p # fq) q" if "structs x q \<noteq> None" for q
  proof (cases "q = p")
    case True
    then show ?thesis using D(6) [OF that] push structs_some [of "structs x" p b] by (auto simp: struct_ok_def)
  next
    case False
    then show ?thesis by (intro struct_ok_other [OF D(6) [OF that]]) auto
  qed
  moreover have "ctl ?y q = WSignalQ" if "srv x = VWaitQ s" "q \<in> set (p # fq)" for q s
    using D(7) [OF that(1)] that(2) by auto
  ultimately show ?case using c D(2-5,8-10) push by (intro exI [of _ "p # fq"] pool_shapeI) (auto split: if_splits)
next
  case (signal_q x p)
  note D = pool_shapeD [OF signal_q.prems]
  let ?y = "x\<lparr>ctl := (ctl x)(p := WCheck), srv := (case srv x of VWaitQ s \<Rightarrow> VAlloc s | v \<Rightarrow> v)\<rparr>"
  have "struct_ok ?y fq q" if "structs x q \<noteq> None" for q
  proof (cases "q = p")
    case True
    then show ?thesis using D(6) [OF that] signal_q by (auto simp: struct_ok_def split: server_pc.splits)
  next
    case False
    then show ?thesis by (intro struct_ok_other [OF D(6) [OF that]]) (auto split: server_pc.splits)
  qed
  moreover have "structs x p \<noteq> None" using D(2) [of p] signal_q by auto
  ultimately show ?case using D(1-5,8-10) signal_q by (intro exI [of _ fq] pool_shapeI) (auto split: server_pc.splits)
next
  case (timeout x p x')
  note D = pool_shapeD [OF timeout.prems]
  from timeout.prems timeout.hyps show ?case
  proof (cases rule: client_timeout_cases)
    case (gone as bs h f)
    have srvs: "srv x' = srv x" "structs x' = h" using gone(4) by simp_all
    have ok: "struct_ok x' (as @ bs) q" if "structs x' q \<noteq> None" for q
    proof -
      have q: "q \<noteq> p" using that gone(6) srvs by auto
      then have s: "structs x q \<noteq> None" using that gone(7) [of q] srvs by simp
      show ?thesis by (rule struct_ok_other [OF D(6) [OF s]]) (use q gone(1-5) gone(7) [OF q] in auto)
    qed
    have nw: "srv x \<noteq> VWaitQ s" for s using D(7) [of s p] gone(1) timeout by auto
    have ng: "srv x \<noteq> VGive p s" for s using D(6) [of p] D(4) [of p] gone(1) by (auto simp: struct_ok_def)
    have "pool_shape x' (as @ bs)"
    proof (rule pool_shapeI)
      show "chain (nextf (structs x')) NULL (free_q x') (as @ bs)" using gone(4,5) by simp
      show "ctl x' q = WGone \<longleftrightarrow> structs x' q = None" for q using gone(4,6) gone(7) [of q] D(2) [of q] by (cases "q = p") auto
      show "structs x' NULL = None" using gone(4,6) gone(7) [of NULL] D(3) by (cases "NULL = p") auto
      show "structs x' q \<noteq> None" if "q \<in> set (as @ bs)" for q
      proof -
        have "q \<noteq> p" using gone(2,3) that by auto
        then show ?thesis using gone(1,4) gone(7) [of q] D(4) [of q] that by auto
      qed
      show "structs x' q \<noteq> None \<and> 0 \<le> s" if "srv x' = VGive q s" for q s
        using srvs gone(7) [of q] D(5,10) [of q s] ng [of s] that by (cases "q = p") auto
    qed (use ok nw srvs D(8) in auto)
    then show ?thesis by blast
  next
    case stays
    have "struct_ok x' fq q" if "structs x q \<noteq> None" for q
    proof (cases "q = p")
      case True
      then show ?thesis using D(6) [OF that] timeout stays by (auto simp: struct_ok_def)
    next
      case False
      then show ?thesis by (intro struct_ok_other [OF D(6) [OF that]]) (use stays in auto)
    qed
    moreover have "structs x p \<noteq> None" using D(2) [of p] timeout by auto
    ultimately show ?thesis using D(1-5,7-10) timeout stays by (intro exI [of _ fq] pool_shapeI) auto
  qed
next
  case (alloc x s mem p x')
  note D = pool_shapeD [OF alloc.prems]
  let ?y = "x'\<lparr>srv := if p \<noteq> NULL then VGive p s else VWaitQ s\<rparr>"
  have s: "0 \<le> s" using D(8) alloc by simp
  from alloc.hyps(2,3) show ?case
  proof (cases rule: alloc_proxy_th_cases)
    case list
    then obtain bs where fq: "fq = p # bs" "chain (nextf (structs x)) NULL (nextf (structs x) p) bs"
      using D(1) by (auto simp: chain_not_stop)
    have d: "p \<notin> set bs" using chain_distinct [OF D(1)] fq by simp
    have p: "structs x p \<noteq> None" using D(4) fq by simp
    have "struct_ok ?y bs q" if "structs x q \<noteq> None" for q
    proof (cases "q = p")
      case True
      then show ?thesis using D(6) [OF that] list fq d by (auto simp: struct_ok_def idle_def)
    next
      case False
      then show ?thesis by (intro struct_ok_other [OF D(6) [OF that]]) (use list fq alloc in auto)
    qed
    then show ?thesis using D(2-4) list fq p s by (intro exI [of _ bs] pool_shapeI) auto
  next
    case new
    then have fq: "fq = []" using D(1) by simp
    have "struct_ok ?y [] q" if "structs x q \<noteq> None \<or> q = p" for q
    proof (cases "q = p")
      case True
      then show ?thesis using new by (simp add: struct_ok_def new_proxy_th_def)
    next
      case False
      with that have q: "structs x q \<noteq> None" by simp
      show ?thesis using False by (intro struct_ok_other [OF D(6) [OF q]]) (use new fq alloc in \<open>auto simp: new_proxy_th_def\<close>)
    qed
    then show ?thesis using D(2,3) new s by (intro exI [of _ "[]"] pool_shapeI) (auto simp: new_proxy_th_def split: if_splits)
  next
    case none
    then have fq: "fq = []" using D(1) by simp
    have "struct_ok ?y [] q" if "structs x q \<noteq> None" for q
      by (rule struct_ok_other [OF D(6) [OF that]]) (use none fq alloc in auto)
    then show ?thesis using D(2,3) none s by (intro exI [of _ "[]"] pool_shapeI) auto
  qed
qed

section \<open>The connections and the number of threads\<close>

text \<open>A connection the server has accepted and not yet handed over, and one that a thread has not yet processed.\<close>

definition in_hand :: "server_pc \<Rightarrow> int multiset" where
  "in_hand v = (case v of VAlloc s \<Rightarrow> {#s#} | VWaitQ s \<Rightarrow> {#s#} | VGive _ s \<Rightarrow> {#s#} | _ \<Rightarrow> {#})"

lemma in_hand_simps [simp]:
  "in_hand VAccept = {#}" "in_hand (VAlloc s) = {#s#}" "in_hand (VWaitQ s) = {#s#}" "in_hand (VGive p s) = {#s#}" "in_hand (VSignal p) = {#}"
  by (simp_all add: in_hand_def)

definition pend :: "pool \<Rightarrow> addr \<Rightarrow> int multiset" where
  "pend x p = (if 0 \<le> sockf (structs x) p \<and> ctl x p \<noteq> WDone then {#sockf (structs x) p#} else {#})"

definition pool_books :: "int \<Rightarrow> pool \<Rightarrow> bool" where
  "pool_books m x \<longleftrightarrow> finite (dom (structs x)) \<and> thread_count x = int (card (dom (structs x))) \<and> thread_count x \<le> max 0 m \<and>
     mset (accepted x) = mset (served x) + in_hand (srv x) + (\<Sum>p \<in> dom (structs x). pend x p)"

lemma sum_change:
  fixes f g :: "'a \<Rightarrow> int multiset"
  assumes "finite A" and "q \<in> A" and "\<And>p. p \<noteq> q \<Longrightarrow> g p = f p"
  shows "(\<Sum>p \<in> A. g p) + f q = (\<Sum>p \<in> A. f p) + g q"
proof -
  have "(\<Sum>p \<in> A - {q}. g p) = (\<Sum>p \<in> A - {q}. f p)" by (rule sum.cong) (use assms(3) in auto)
  then show ?thesis using assms(1,2) by (simp add: sum.remove [of A q])
qed

lemma pend_dom: "structs x p = None \<Longrightarrow> pend x p = {#}"
  by (simp add: pend_def sockf_def)

text \<open>One thread changes; the balance of that thread and the server is enough.\<close>

lemma pool_books_one:
  assumes "pool_books m x" and "dom (structs y) = dom (structs x)" and "thread_count y = thread_count x"
    and "p \<in> dom (structs x)" and "\<And>q. q \<noteq> p \<Longrightarrow> pend y q = pend x q"
    and "mset (accepted y) + (mset (served x) + in_hand (srv x) + pend x p) =
      mset (accepted x) + (mset (served y) + in_hand (srv y) + pend y p)"
  shows "pool_books m y"
proof -
  have f: "finite (dom (structs x))" and a: "mset (accepted x) = mset (served x) + in_hand (srv x) + (\<Sum>p \<in> dom (structs x). pend x p)"
    using assms(1) by (simp_all add: pool_books_def)
  have s: "(\<Sum>q \<in> dom (structs x). pend y q) + pend x p = (\<Sum>q \<in> dom (structs x). pend x q) + pend y p"
    by (rule sum_change [OF f assms(4,5)])
  have "mset (accepted y) + (mset (served x) + in_hand (srv x) + pend x p) + (\<Sum>q \<in> dom (structs x). pend x q) =
    (mset (served y) + in_hand (srv y) + (\<Sum>q \<in> dom (structs x). pend y q)) + (mset (served x) + in_hand (srv x) + pend x p) +
      (\<Sum>q \<in> dom (structs x). pend x q)"
    using assms(6) a s by (simp add: ac_simps)
  then have "mset (accepted y) = mset (served y) + in_hand (srv y) + (\<Sum>q \<in> dom (structs x). pend y q)"
    by (simp only: add_right_cancel)
  then show ?thesis using assms(1-3) by (simp add: pool_books_def)
qed

lemma pool_books_none:
  assumes "pool_books m x" and "dom (structs y) = dom (structs x)" and "thread_count y = thread_count x"
    and "\<And>q. pend y q = pend x q"
    and "mset (accepted y) + (mset (served x) + in_hand (srv x)) = mset (accepted x) + (mset (served y) + in_hand (srv y))"
  shows "pool_books m y"
proof -
  have "mset (accepted y) + (mset (served x) + in_hand (srv x)) =
    (mset (served y) + in_hand (srv y) + (\<Sum>p \<in> dom (structs x). pend x p)) + (mset (served x) + in_hand (srv x))"
    using assms(1,5) by (simp add: pool_books_def ac_simps)
  then have "mset (accepted y) = mset (served y) + in_hand (srv y) + (\<Sum>p \<in> dom (structs x). pend x p)"
    by (simp only: add_right_cancel)
  then show ?thesis using assms(1-4) by (simp add: pool_books_def)
qed

lemma pool_books_step:
  assumes "pool_step fails m x y" and "pool_shape x fq" and "pool_books m x"
  shows "pool_books m y"
  using assms
proof (induction rule: pool_step.induct)
  case (accept x s)
  show ?case by (rule pool_books_none [OF accept.prems(2)]) (use accept in \<open>simp_all add: pend_def\<close>)
next
  case (give x p s b)
  note D = pool_shapeD [OF give.prems(1)]
  have "sockf (structs x) p < 0" "ctl x p \<noteq> WDone" using D(6) [of p] give by (auto simp: struct_ok_def)
  then show ?case using give D(10) [of p s]
    by (intro pool_books_one [OF give.prems(2), where p = p]) (auto simp: pend_def)
next
  case (signal x p)
  show ?case by (rule pool_books_none [OF signal.prems(2)]) (use signal in \<open>auto simp: pend_def\<close>)
next
  case (check x p b)
  show ?case by (rule pool_books_none [OF check.prems(2)]) (use check in \<open>auto simp: pend_def\<close>)
next
  case (process x p b)
  show ?case by (rule pool_books_none [OF process.prems(2)]) (use process in \<open>auto simp: pend_def\<close>)
next
  case (processed x p s)
  note D = pool_shapeD [OF processed.prems(1)]
  have d: "structs x p \<noteq> None" using D(2) [of p] processed by auto
  then have "sockf (structs x) p = s" "0 \<le> s" using D(6) [of p] processed by (auto simp: struct_ok_def)
  then show ?case using processed d
    by (intro pool_books_one [OF processed.prems(2), where p = p]) (auto simp: pend_def)
next
  case (reset x p b)
  show ?case by (rule pool_books_one [OF reset.prems(2), where p = p]) (use reset in \<open>auto simp: pend_def\<close>)
next
  case (push x p b)
  show ?case by (rule pool_books_none [OF push.prems(2)]) (use push in \<open>auto simp: pend_def sockf_def\<close>)
next
  case (signal_q x p)
  show ?case by (rule pool_books_none [OF signal_q.prems(2)]) (use signal_q in \<open>auto simp: pend_def split: server_pc.splits\<close>)
next
  case (timeout x p x')
  note D = pool_shapeD [OF timeout.prems(1)]
  from timeout.prems(1) timeout.hyps show ?case
  proof (cases rule: client_timeout_cases)
    case (gone as bs h f)
    have p: "structs x p \<noteq> None" using D(4) gone(1) by simp
    then have n: "pend x p = {#}" using D(6) [of p] gone(1) by (auto simp: struct_ok_def pend_def)
    have "h q = None \<longleftrightarrow> structs x q = None \<or> q = p" for q using gone(6) gone(7) [of q] by (cases "q = p") auto
    then have d: "dom h = dom (structs x) - {p}" by (auto simp: dom_def)
    have "finite (dom (structs x))" using timeout.prems(2) by (simp add: pool_books_def)
    then have fin: "finite (dom (structs x))" "card (dom h) = card (dom (structs x)) - 1" "0 < card (dom (structs x))"
      using p card_Diff_singleton [of p "dom (structs x)"] unfolding d by (auto simp: card_gt_0_iff domIff)
    have "(\<Sum>q \<in> dom (structs x). pend x q) = (\<Sum>q \<in> dom h. pend x q)"
      using fin(1) p n d by (simp add: sum.remove [of "dom (structs x)" p] domIff)
    also have "\<dots> = (\<Sum>q \<in> dom h. pend x' q)"
      by (rule sum.cong) (use d gone(4) gone(7) in \<open>auto simp: pend_def\<close>)
    finally show ?thesis using timeout.prems(2) gone(4) fin d unfolding pool_books_def by simp
  next
    case stays
    show ?thesis by (rule pool_books_none [OF timeout.prems(2)]) (use timeout stays in \<open>auto simp: pend_def\<close>)
  qed
next
  case (alloc x s mem p x')
  note D = pool_shapeD [OF alloc.prems(1)]
  from alloc.hyps(2,3) show ?case
  proof (cases rule: alloc_proxy_th_cases)
    case list
    show ?thesis by (rule pool_books_none [OF alloc.prems(2)]) (use alloc list in \<open>auto simp: pend_def\<close>)
  next
    case none
    show ?thesis by (rule pool_books_none [OF alloc.prems(2)]) (use alloc none in \<open>auto simp: pend_def\<close>)
  next
    case new
    let ?y = "x'\<lparr>srv := if p \<noteq> NULL then VGive p s else VWaitQ s\<rparr>"
    have d: "dom (structs ?y) = insert p (dom (structs x))" "p \<notin> dom (structs x)" "finite (dom (structs x))"
      using new alloc.prems(2) by (auto simp: new_proxy_th_def pool_books_def)
    have "pend ?y p = {#}" using new by (simp add: pend_def new_proxy_th_def)
    moreover have "(\<Sum>q \<in> dom (structs x). pend ?y q) = (\<Sum>q \<in> dom (structs x). pend x q)"
      by (rule sum.cong) (use d new in \<open>auto simp: pend_def new_proxy_th_def\<close>)
    ultimately have "(\<Sum>q \<in> dom (structs ?y). pend ?y q) = (\<Sum>q \<in> dom (structs x). pend x q)"
      unfolding d(1) using d(2,3) by simp
    moreover have "card (dom (structs ?y)) = card (dom (structs x)) + 1" unfolding d(1) using d(2,3) by simp
    ultimately show ?thesis using alloc new d(3) unfolding pool_books_def d(1) by (simp add: new_proxy_th_def)
  qed
qed

lemma pool_reach_inv: "pool_reach fails m x \<Longrightarrow> (\<exists>fq. pool_shape x fq) \<and> pool_books m x"
proof (induction rule: pool_reach.induct)
  case pool_init
  have "pool_shape pool_start []" by (rule pool_shapeI) (simp_all add: pool_start_def)
  moreover have "pool_books m pool_start" by (simp add: pool_books_def pool_start_def)
  ultimately show ?case by blast
next
  case (pool_next x y)
  then show ?case using pool_shape_step pool_books_step by blast
qed

text \<open>The server waits for a free thread only while there are threads, unless the creation of one has failed.\<close>

lemma pool_waits_for_some:
  assumes "pool_reach False m x" and "0 < m"
  shows "srv x = VWaitQ s \<Longrightarrow> dom (structs x) \<noteq> {}"
  using assms(1)
proof (induction arbitrary: s rule: pool_reach.induct)
  case pool_init
  then show ?case by (simp add: pool_start_def)
next
  case (pool_next x y)
  obtain fq where sh: "pool_shape x fq" and bk: "pool_books m x" using pool_reach_inv [OF pool_next.hyps(1)] by blast
  note D = pool_shapeD [OF sh]
  from pool_next.hyps(2) show ?case
  proof (cases rule: pool_step.cases)
    case (alloc s' mem p x')
    from alloc(3,4) show ?thesis
    proof (cases rule: alloc_proxy_th_cases)
      case none
      then have "0 < thread_count x" using assms(2) by simp
      then show ?thesis using bk alloc none by (auto simp: pool_books_def)
    qed (use alloc pool_next.prems in auto)
  next
    case (timeout p)
    from sh timeout show ?thesis
    proof (cases rule: client_timeout_cases)
      case (gone as bs h f)
      then show ?thesis using D(7) [of s p] pool_next.prems timeout(1) by simp
    next
      case stays
      then show ?thesis using pool_next.IH pool_next.prems by simp
    qed
  qed (use pool_next.IH pool_next.prems in \<open>auto simp del: dom_eq_empty_conv split: server_pc.splits if_splits\<close>)
qed

text \<open>While the server waits, some other thread can move, if there may be threads at all.\<close>

lemma pool_helps_server:
  assumes "pool_reach False m x" and "0 < m" and "srv x = VWaitQ s"
  shows "\<exists>p y. ctl x p \<noteq> WGone \<and> ctl x p \<noteq> WWaiting \<and> pool_step False m x y \<and> ctl y p \<noteq> ctl x p"
proof -
  obtain fq where sh: "pool_shape x fq" using pool_reach_inv [OF assms(1)] by blast
  note D = pool_shapeD [OF sh]
  obtain p where p: "structs x p \<noteq> None" "fq = [] \<or> p \<in> set fq"
  proof (cases fq)
    case Nil
    then show thesis using pool_waits_for_some [OF assms] that by (auto simp: dom_def)
  qed (use that D(4) in auto)
  then obtain b where b: "structs x p = Some b" by auto
  have g: "ctl x p \<noteq> WGone" using D(2) [of p] p(1) by simp
  have w: "ctl x p \<noteq> WWaiting"
    using D(6) [OF p(1)] D(7) [OF assms(3), of p] p(2) assms(3) by (auto simp: struct_ok_def)
  have "\<exists>y. pool_step False m x y \<and> ctl y p \<noteq> ctl x p"
  proof (cases "ctl x p")
    case WCheck
    show ?thesis using check [OF WCheck b, of False m] WCheck by (intro exI conjI) (auto split: if_splits)
  next
    case WReady
    show ?thesis using process [OF WReady b, of False m] WReady by (intro exI conjI) auto
  next
    case (WProcess s)
    show ?thesis using processed [OF WProcess, of False m] WProcess by (intro exI conjI) auto
  next
    case WDone
    show ?thesis using reset [OF WDone b, of False m] WDone by (intro exI conjI) auto
  next
    case WPush
    show ?thesis using push [OF WPush b, of False m] WPush by (intro exI conjI) auto
  next
    case WSignalQ
    show ?thesis using signal_q [OF WSignalQ, of False m] WSignalQ by (intro exI conjI) auto
  qed (use g w in simp_all)
  with g w show ?thesis by blast
qed

lemma pool_without_threads:
  assumes "pool_reach False m x" and "srv x = VWaitQ s" and "\<not> 0 < m"
  shows "structs x = Map.empty \<and> \<not> (\<exists>y. pool_step False m x y)"
proof -
  obtain fq where sh: "pool_shape x fq" and bk: "pool_books m x" using pool_reach_inv [OF assms(1)] by blast
  have e: "structs x = Map.empty" using bk assms(3) by (auto simp: pool_books_def)
  then have "ctl x p = WGone" for p using pool_shapeD(2) [OF sh, of p] by simp
  then have "\<not> pool_step False m x y" for y using assms(2) by (auto elim!: pool_step.cases)
  with e show ?thesis by blast
qed

section \<open>Properties\<close>

definition MAX_PROXY_THREADS :: int where "MAX_PROXY_THREADS = 64"

text \<open>
  C16. The pool of threads of \<open>proxy.c\<close> serves every connection once. At any time, under any interleaving and
  also if the creation of threads fails, the accepted connections are those that have been processed,
  the one in the hands of the server, and those that a thread has got and not yet processed; none is
  lost and none is processed twice. The variable \<open>thread_count\<close> is the number of threads, and there are never more
  than the maximum, and none if the maximum is not positive. The structure into which the server stores a connection
  has not been freed at that moment, and neither has the one at the head of the list. The signal the server
  sends after it has stored the connection is not covered: \<open>pool_signals_freed_structure\<close> below shows that it may
  come after the structure has been freed.
\<close>

theorem pool_serves_each_connection_once:
  assumes "pool_reach fails m x"
  shows "mset (accepted x) = mset (served x) + in_hand (srv x) + (\<Sum>p \<in> dom (structs x). pend x p) \<and>
    thread_count x = int (card (dom (structs x))) \<and> thread_count x \<le> max 0 m \<and>
    (srv x = VGive p s \<longrightarrow> structs x p \<noteq> None) \<and> (free_q x \<noteq> NULL \<longrightarrow> structs x (free_q x) \<noteq> None)"
proof -
  obtain fq where sh: "pool_shape x fq" and bk: "pool_books m x" using pool_reach_inv [OF assms] by blast
  note D = pool_shapeD [OF sh]
  have "structs x (free_q x) \<noteq> None" if "free_q x \<noteq> NULL"
    using D(1) D(4) [of "free_q x"] that by (auto simp: chain_not_stop)
  with bk D(5) [of p s] show ?thesis by (auto simp: pool_books_def)
qed

text \<open>For the witnesses: the server has accepted connection 3 and created the thread at address 8 for it.\<close>

definition pool_first :: pool where
  "pool_first = \<lparr>structs = [8 \<mapsto> \<lparr>next_free = NULL, sock_in = - 1\<rparr>], free_q = NULL, thread_count = 1, srv = VGive 8 3,
     ctl = (\<lambda>_. WGone)(8 := WCheck), accepted = [3], served = []\<rparr>"

lemma pool_first_reach: "0 < m \<Longrightarrow> pool_reach fails m pool_first"
proof -
  assume m: "0 < m"
  let ?x = "pool_start\<lparr>srv := VAlloc 3, accepted := accepted pool_start @ [3]\<rparr>"
  have "pool_step fails m pool_start ?x" by (rule accept) (simp_all add: pool_start_def)
  moreover have "pool_step fails m ?x pool_first"
    using alloc [of ?x 3 fails "Some 8" m 8 "pool_first\<lparr>srv := VAlloc 3\<rparr>"] m
    by (simp add: alloc_proxy_th_def memory_def new_proxy_th_def pool_start_def pool_first_def fun_upd_def)
  ultimately show ?thesis using pool_init pool_next by blast
qed

theorem pool_serves_each_connection_once_witness:
  "pool_reach False MAX_PROXY_THREADS pool_first \<and> structs pool_first 8 \<noteq> None"
  using pool_serves_each_connection_once [of False MAX_PROXY_THREADS pool_first 8 3] pool_first_reach [of MAX_PROXY_THREADS False]
  by (simp add: MAX_PROXY_THREADS_def pool_first_def)

text \<open>
  C17. When the server waits in vain. Suppose that no creation of a thread has failed and the server waits for a free
  thread. If the maximal number of threads is positive, some thread of the pool that is not waiting itself can take a
  step. If it is zero or negative, which the option \<open>-m\<close> allows, there is no thread, and nothing moves any more.
\<close>

theorem pool_server_not_forgotten:
  assumes "pool_reach False m x" and "srv x = VWaitQ s"
  shows "if 0 < m then \<exists>p y. ctl x p \<noteq> WGone \<and> ctl x p \<noteq> WWaiting \<and> pool_step False m x y \<and> ctl y p \<noteq> ctl x p
    else structs x = Map.empty \<and> \<not> (\<exists>y. pool_step False m x y)"
  using pool_helps_server [OF assms(1) _ assms(2)] pool_without_threads [OF assms] by simp

theorem pool_server_not_forgotten_witness:
  "\<exists>x p y. pool_reach False 1 x \<and> srv x = VWaitQ 4 \<and> ctl x p \<noteq> WWaiting \<and> pool_step False 1 x y \<and> ctl y p \<noteq> ctl x p"
proof -
  let ?x1 = "pool_first\<lparr>structs := (structs pool_first)(8 \<mapsto> \<lparr>next_free = NULL, sock_in = 3\<rparr>), srv := VSignal 8\<rparr>"
  let ?x2 = "?x1\<lparr>srv := VAccept\<rparr>"
  let ?x3 = "?x2\<lparr>srv := VAlloc 4, accepted := [3, 4]\<rparr>"
  let ?x4 = "?x3\<lparr>srv := VWaitQ 4\<rparr>"
  have "pool_reach False 1 pool_first" by (rule pool_first_reach) simp
  moreover have "pool_step False 1 pool_first ?x1"
    using give [of pool_first 8 3 "\<lparr>next_free = NULL, sock_in = - 1\<rparr>" False 1] by (simp add: pool_first_def)
  moreover have "pool_step False 1 ?x1 ?x2"
    using signal [of ?x1 8 False 1] by (simp add: pool_first_def)
  moreover have "pool_step False 1 ?x2 ?x3"
    using accept [of ?x2 4 False 1] by (simp add: pool_first_def)
  moreover have "pool_step False 1 ?x3 ?x4"
    using alloc [of ?x3 4 False "Some 16" 1 NULL ?x3] by (simp add: alloc_proxy_th_def memory_def pool_first_def)
  ultimately have r: "pool_reach False 1 ?x4" by (blast intro: pool_next)
  from pool_server_not_forgotten [OF this, of 4] show ?thesis using r by (intro exI [of _ ?x4]) auto
qed

text \<open>
  The server can wait for ever. If the creation of the very first thread fails, the server waits for a free
  thread although there is none that could ever become free: nothing moves any more, and the accepted
  connection is never served.
\<close>

theorem pool_hangs_without_threads:
  "\<exists>x. pool_reach True MAX_PROXY_THREADS x \<and> accepted x \<noteq> [] \<and> served x = [] \<and>
    \<not> (\<exists>y. pool_step True MAX_PROXY_THREADS x y)"
proof -
  let ?x1 = "pool_start\<lparr>srv := VAlloc 3, accepted := [3]\<rparr>"
  let ?x2 = "?x1\<lparr>srv := VWaitQ 3\<rparr>"
  have "pool_step True MAX_PROXY_THREADS pool_start ?x1"
    using accept [of pool_start 3 True MAX_PROXY_THREADS] by (simp add: pool_start_def)
  moreover have "pool_step True MAX_PROXY_THREADS ?x1 ?x2"
    using alloc [of ?x1 3 True None MAX_PROXY_THREADS NULL ?x1]
    by (simp add: alloc_proxy_th_def memory_def pool_start_def MAX_PROXY_THREADS_def)
  ultimately have "pool_reach True MAX_PROXY_THREADS ?x2" using pool_init pool_next by blast
  moreover have "\<not> pool_step True MAX_PROXY_THREADS ?x2 y" for y
    by (rule notI, erule pool_step.cases) (auto simp: pool_start_def)
  ultimately show ?thesis by (intro exI [of _ ?x2]) (simp add: pool_start_def)
qed

text \<open>
  The server uses a structure that has been freed. It signals the condition of a thread after it has given up
  the mutex of the thread. By then the thread may have processed the connection, may have waited for the
  next one in vain, and may have freed its structure.
\<close>

theorem pool_signals_freed_structure:
  "\<exists>x p. pool_reach False MAX_PROXY_THREADS x \<and> srv x = VSignal p \<and> structs x p = None"
proof -
  let ?step = "pool_step False MAX_PROXY_THREADS"
  let ?c = "\<lambda>c x. x\<lparr>ctl := (ctl x)(8 := c)\<rparr>"
  let ?x1 = "pool_first\<lparr>structs := [8 \<mapsto> \<lparr>next_free = NULL, sock_in = 3\<rparr>], srv := VSignal 8\<rparr>"
  let ?x5 = "?c WPush (?x1\<lparr>structs := [8 \<mapsto> \<lparr>next_free = NULL, sock_in = - 1\<rparr>], served := [3]\<rparr>)"
  let ?x6 = "?c WSignalQ (?x5\<lparr>free_q := 8\<rparr>)"
  let ?x9 = "?c WGone (?x6\<lparr>free_q := NULL, thread_count := 0, structs := Map.empty\<rparr>)"
  have "pool_reach False MAX_PROXY_THREADS pool_first" by (rule pool_first_reach) (simp add: MAX_PROXY_THREADS_def)
  moreover have "?step pool_first ?x1"
    using give [of pool_first 8 3 "\<lparr>next_free = NULL, sock_in = - 1\<rparr>" False MAX_PROXY_THREADS] by (simp add: pool_first_def)
  moreover have "?step ?x1 (?c WReady ?x1)"
    using check [of ?x1 8 "\<lparr>next_free = NULL, sock_in = 3\<rparr>" False MAX_PROXY_THREADS] by (simp add: pool_first_def)
  moreover have "?step (?c WReady ?x1) (?c (WProcess 3) ?x1)"
    using process [of "?c WReady ?x1" 8 "\<lparr>next_free = NULL, sock_in = 3\<rparr>" False MAX_PROXY_THREADS] by (simp add: pool_first_def)
  moreover have "?step (?c (WProcess 3) ?x1) (?c WDone (?x1\<lparr>served := [3]\<rparr>))"
    using processed [of "?c (WProcess 3) ?x1" 8 3 False MAX_PROXY_THREADS] by (simp add: pool_first_def)
  moreover have "?step (?c WDone (?x1\<lparr>served := [3]\<rparr>)) ?x5"
    using reset [of "?c WDone (?x1\<lparr>served := [3]\<rparr>)" 8 "\<lparr>next_free = NULL, sock_in = 3\<rparr>" False MAX_PROXY_THREADS] by (simp add: pool_first_def)
  moreover have "?step ?x5 ?x6"
    using push [of ?x5 8 "\<lparr>next_free = NULL, sock_in = - 1\<rparr>" False MAX_PROXY_THREADS] by (simp add: pool_first_def)
  moreover have "?step ?x6 (?c WCheck ?x6)"
    using signal_q [of ?x6 8 False MAX_PROXY_THREADS] by (simp add: pool_first_def)
  moreover have "?step (?c WCheck ?x6) (?c WWaiting ?x6)"
    using check [of "?c WCheck ?x6" 8 "\<lparr>next_free = NULL, sock_in = - 1\<rparr>" False MAX_PROXY_THREADS] by (simp add: pool_first_def)
  moreover have "client_timeout 8 (?c WWaiting ?x6) = Some ?x9"
    by (simp add: client_timeout_def seek.simps pool_first_def nextf_def)
  then have "?step (?c WWaiting ?x6) ?x9" by (rule timeout [rotated]) (simp add: pool_first_def)
  ultimately have "pool_reach False MAX_PROXY_THREADS ?x9" by (meson pool_next)
  then show ?thesis by (intro exI [of _ ?x9] exI [of _ 8]) (simp add: pool_first_def)
qed

end
