(* ===== verification/Proxy_Request.thy ===== *)
theory Proxy_Request
  imports Pthread_Types
begin

text \<open>
  The processing of one request in the example program \<open>Examples/proxy.c\<close>: reading the request line, finding out
  the server, connecting to it, copying the rest of the request, and relaying the answer
  (\<open>process_request\<close>, \<open>connectto\<close>, \<open>sayerror\<close>), and the options of the program (\<open>main\<close>).

  The input from the client is a string, after which the client closes its side. What the server sends and
  what the two sockets do with each \<open>write\<close> are lists of events; when the server is silent, or does not take the first
  lines, for longer than the time limit, the alarm takes effect. A buffer of the C code holds a string; writing or reading
  past its end is \<open>Smashed\<close>. \<open>None\<close> is a loop that never ends or a call that blocks for ever. The memory of the stream that
  \<open>fdopen\<close> returns is left out.
\<close>

definition LISTENPORT :: int where "LISTENPORT = 8080"
definition TIMEOUT_OUT :: int where "TIMEOUT_OUT = 60"
definition LDATA :: nat where "LDATA = 1024"
definition LADR :: nat where "LADR = 128"
definition DEFAULTPORT :: int where "DEFAULTPORT = 80"
definition EPIPE :: int where "EPIPE = 32"
definition EBADF :: int where "EBADF = 9"
definition ERR_SOCKET :: int where "ERR_SOCKET = - 5"
definition ERR_GETHOSTBYNAME :: int where "ERR_GETHOSTBYNAME = - 6"
definition ERR_CONNECT :: int where "ERR_CONNECT = - 7"

lemmas proxy_consts = LDATA_def LADR_def DEFAULTPORT_def EPIPE_def ERR_SOCKET_def ERR_GETHOSTBYNAME_def ERR_CONNECT_def

abbreviation newline :: char where "newline \<equiv> CHR 0x0A"
abbreviation return :: char where "return \<equiv> CHR 0x0D"

section \<open>The functions of the C library that the program uses\<close>

text \<open>\<open>fgets\<close> reads up to and including the end of the line, but less than \<open>LDATA\<close> characters.\<close>

fun take_line :: "nat \<Rightarrow> string \<Rightarrow> string \<times> string" where
  "take_line 0 cs = ([], cs)"
| "take_line (Suc n) [] = ([], [])"
| "take_line (Suc n) (c # cs) = (if c = newline then ([c], cs) else (let (l, r) = take_line n cs in (c # l, r)))"

definition fgets :: "string \<Rightarrow> (string \<times> string) option" where
  "fgets inp = (if inp = [] then None else Some (take_line (LDATA - 1) inp))"

definition isspace :: "char \<Rightarrow> bool" where
  "isspace c \<longleftrightarrow> c = CHR '' '' \<or> (of_char c :: nat) \<in> {9..13}"

definition isdigit :: "char \<Rightarrow> bool" where
  "isdigit c \<longleftrightarrow> (of_char c :: nat) \<in> {48..57}"

definition digit :: "char \<Rightarrow> int" where
  "digit c = int (of_char c) - 48"

text \<open>\<open>atoi\<close> stays within the bounds of \<open>long\<close>, which is as wide as \<open>int\<close>.\<close>

definition atoi :: "string \<Rightarrow> int" where
  "atoi s =
     (let s = dropWhile isspace s;
          neg = (s \<noteq> [] \<and> hd s = CHR ''-'');
          s = (if s \<noteq> [] \<and> (hd s = CHR ''-'' \<or> hd s = CHR ''+'') then tl s else s);
          v = foldl (\<lambda>a c. 10 * a + digit c) 0 (takeWhile isdigit s)
      in if neg then max (- 2147483648) (- v) else min 2147483647 v)"

definition lower :: "char \<Rightarrow> char" where
  "lower c = (if (of_char c :: nat) \<in> {65..90} then char_of ((of_char c :: nat) + 32) else c)"

section \<open>Options\<close>

record config =
  listenport :: int
  NextProxyAdr :: string
  NextProxyPort :: int
  ConnectToProxy :: bool
  timeout_out :: int
  NoCache :: bool
  max_proxy_threads :: int

definition config_init :: config where
  "config_init = \<lparr>listenport = LISTENPORT, NextProxyAdr = [], NextProxyPort = 0, ConnectToProxy = False,
     timeout_out = TIMEOUT_OUT, NoCache = False, max_proxy_threads = 64\<rparr>"

text \<open>
  The loop over the results of \<open>getopt\<close>, which are option characters with their arguments. \<open>Fine None\<close> is the
  exit with the explanation of the syntax.
\<close>

fun main_options :: "(char \<times> string) list \<Rightarrow> config \<Rightarrow> config option mem" where
  "main_options [] g = Fine (Some g)"
| "main_options ((opt, optarg) # opts) g =
     (if opt = CHR '':'' \<or> opt = CHR ''?'' then Fine None
      else if opt = CHR ''p'' then main_options opts (g\<lparr>listenport := atoi optarg\<rparr>)
      else if opt = CHR ''x'' then
        if CHR '':'' \<notin> set optarg then Fine None
        else (let host = takeWhile (\<lambda>c. c \<noteq> CHR '':'') optarg;
                  p = tl (dropWhile (\<lambda>c. c \<noteq> CHR '':'') optarg)
              in if length host \<ge> 128 then Smashed
                 else main_options opts (g\<lparr>NextProxyPort := atoi p, NextProxyAdr := host, ConnectToProxy := True\<rparr>))
      else if opt = CHR ''t'' then main_options opts (g\<lparr>timeout_out := atoi optarg\<rparr>)
      else if opt = CHR ''n'' then main_options opts (g\<lparr>NoCache := True\<rparr>)
      else if opt = CHR ''m'' then main_options opts (g\<lparr>max_proxy_threads := atoi optarg\<rparr>)
      else main_options opts g)"

section \<open>Messages\<close>

definition error_page :: "string \<Rightarrow> string \<Rightarrow> string list \<Rightarrow> string" where
  "error_page status title body =
     ''HTTP/1.0 '' @ status @ [return, newline] @ ''Server: thproxyd'' @ [return, newline] @
     ''Content-type: text/html'' @ [return, newline] @ [return, newline] @
     ''<HEAD><TITLE>'' @ title @ ''</TITLE></HEAD>'' @ [newline] @ ''<BODY><H1>'' @ title @ ''</H1>'' @ [newline] @
     concat (map (\<lambda>l. l @ [newline]) body) @ ''</BODY>'' @ [newline]"

definition BADREQ :: string where
  "BADREQ = error_page ''400 ERROR'' ''400 Bad Request''
     [''Your client sent a query that this server could not'', ''understand.<P>'', ''Reason: Invalid or unsupported method.<P>'']"

definition SERVERR :: string where
  "SERVERR = error_page ''500 ERROR'' ''500 Server Error''
     [''Internal proxy error while processing your query.<P>'', ''Reason: Internal proxy error.<P>'']"

definition SERVCOERR :: string where
  "SERVCOERR = error_page ''500 ERROR'' ''500 Server Error''
     [''Internal proxy error while processing your query.<P>'', ''Reason: Invalid connection.<P>'']"

definition SERVDNSERR :: string where
  "SERVDNSERR = error_page ''500 ERROR'' ''500 Server Error''
     [''Internal proxy error while processing your query.<P>'', ''Reason: Bad address - DNS cann't resolve address.<P>'']"

definition SERVTIMEOUT :: string where
  "SERVTIMEOUT = error_page ''500 ERROR'' ''500 Server Error''
     [''Internal proxy error while processing your query.<P>'',
      ''Reason: Server time out while connection establishment or data transfer.<P>'']"

definition POSTERR :: string where
  "POSTERR = error_page ''500 ERROR'' ''500 Proxy Server Error''
     [''Failed to POST.<P>'', ''Reason: post method error ???.<P>'']"

section \<open>The state of a request\<close>

text \<open>
  The two lists at the end are what the sockets of the server and of the client do with the next calls of \<open>write\<close>: they take
  so many characters, or the call fails. Where the list ends the socket takes nothing more, and a \<open>write\<close> blocks.
\<close>

datatype write_result = Wrote nat | Write_error int

record req =
  r_in :: string
  r_server :: string
  r_client :: string
  r_closed :: "int list"
  r_key :: bool
  r_errno :: int
  r_server_writes :: "write_result list"
  r_client_writes :: "write_result list"

text \<open>The network: the results of \<open>socket\<close>, \<open>gethostbyname_r\<close> and \<open>connect\<close>, where \<open>None\<close> is the alarm.\<close>

record network =
  n_socket :: int
  n_lookup :: "string \<Rightarrow> addr option"
  n_connect :: "addr \<Rightarrow> int \<Rightarrow> int option"

definition connectto :: "network \<Rightarrow> string \<Rightarrow> int \<Rightarrow> req \<Rightarrow> int option \<times> req" where
  "connectto net hote port s =
     (if n_socket net = - 1 then (Some ERR_SOCKET, s)
      else case n_lookup net hote of
        None \<Rightarrow> (Some ERR_GETHOSTBYNAME, s)
      | Some a \<Rightarrow>
        (case n_connect net a (port mod 65536) of
           None \<Rightarrow> (None, s)
         | Some retval \<Rightarrow>
           if retval = - 1 then (Some ERR_CONNECT, s\<lparr>r_closed := r_closed s @ [n_socket net]\<rparr>)
           else (Some (n_socket net), s)))"

text \<open>
  The error page is sent with one \<open>write\<close>, whose result is ignored; without the key no alarm ends it if it blocks
  (\<open>None\<close>). The calls for a socket that has not been opened fail and set \<open>errno\<close>.
\<close>

definition sayerror :: "string \<Rightarrow> int \<Rightarrow> int \<Rightarrow> req \<Rightarrow> req option" where
  "sayerror msg sockIn sockOut s =
     (let s = s\<lparr>r_key := False\<rparr>
      in case r_client_writes s of
           [] \<Rightarrow> None
         | w # ws \<Rightarrow>
           let s = s\<lparr>r_client_writes := ws\<rparr>;
               s = (case w of Wrote n \<Rightarrow> s\<lparr>r_client := r_client s @ take n msg\<rparr> | Write_error e \<Rightarrow> s\<lparr>r_errno := e\<rparr>);
               s = (if sockOut < 0 then s\<lparr>r_errno := EBADF\<rparr> else s)
           in Some (s\<lparr>r_closed := r_closed s @ [sockOut, sockIn]\<rparr>))"

section \<open>The request line\<close>

datatype req_method = METHOD_GET | METHOD_POST | METHOD_HEAD

fun method_word :: "req_method \<Rightarrow> string" where
  "method_word METHOD_GET = ''GET ''"
| "method_word METHOD_POST = ''POST ''"
| "method_word METHOD_HEAD = ''HEAD ''"

text \<open>The method, and what follows it.\<close>

definition request_method :: "string \<Rightarrow> (req_method \<times> string) option" where
  "request_method data =
     (if take 4 data = ''GET '' then Some (METHOD_GET, drop 4 data)
      else if take 5 data = ''POST '' then Some (METHOD_POST, drop 5 data)
      else if take 5 data = ''HEAD '' then Some (METHOD_HEAD, drop 5 data)
      else None)"

text \<open>The analysis of the address: host, port and the local part of the URL; \<open>Fine None\<close> is a bad request.\<close>

definition parse_target :: "string \<Rightarrow> (string \<times> int \<times> string) option mem" where
  "parse_target str =
     (let str = dropWhile (\<lambda>c. c = CHR '' '') str;
          str = (if take 7 str = ''http://'' then drop 7 str else str)
      in if CHR ''/'' \<notin> set str then Fine None
         else
           let adr = takeWhile (\<lambda>c. c \<noteq> CHR ''/'') str;
               str = dropWhile (\<lambda>c. c \<noteq> CHR ''/'') str
           in if length adr \<ge> LADR then Smashed
              else if adr = [] then Fine None
              else if CHR '':'' \<notin> set adr then Fine (Some (adr, DEFAULTPORT, str))
              else Fine (Some (takeWhile (\<lambda>c. c \<noteq> CHR '':'') adr, atoi (tl (dropWhile (\<lambda>c. c \<noteq> CHR '':'') adr)), str)))"

text \<open>Where to connect to, and what is written there first, in one call of \<open>write\<close> or in two.\<close>

definition target :: "config \<Rightarrow> string \<Rightarrow> req_method \<Rightarrow> string \<Rightarrow> (string \<times> int \<times> string list) option mem" where
  "target g data meth rest =
     (if ConnectToProxy g then Fine (Some (NextProxyAdr g, NextProxyPort g, [data]))
      else case parse_target rest of
        Smashed \<Rightarrow> Smashed
      | Fine None \<Rightarrow> Fine None
      | Fine (Some (host, port, str)) \<Rightarrow> Fine (Some (host, port, [method_word meth, str])))"

section \<open>The rest of the request\<close>

text \<open>One \<open>write\<close> to the server, whose result the program ignores; \<open>None\<close> if it blocks.\<close>

definition write_server :: "string \<Rightarrow> req \<Rightarrow> req option" where
  "write_server data s =
     (case r_server_writes s of
        [] \<Rightarrow> None
      | w # ws \<Rightarrow>
        let s = s\<lparr>r_server_writes := ws\<rparr>
        in Some (case w of Wrote n \<Rightarrow> s\<lparr>r_server := r_server s @ take n data\<rparr> | Write_error e \<Rightarrow> s\<lparr>r_errno := e\<rparr>))"

text \<open>The writes under the alarm, which takes effect if one of them blocks; the value says whether all have returned.\<close>

fun write_first :: "string list \<Rightarrow> req \<Rightarrow> bool \<times> req" where
  "write_first [] s = (True, s)"
| "write_first (d # ds) s = (case write_server d s of None \<Rightarrow> (False, s) | Some s \<Rightarrow> write_first ds s)"

text \<open>One call of \<open>fgets\<close> in the loops; at the end of the input the buffer keeps its contents.\<close>

definition next_line :: "string \<Rightarrow> string \<Rightarrow> string \<times> string" where
  "next_line data inp = (case fgets inp of None \<Rightarrow> (data, inp) | Some (l, r) \<Rightarrow> (c_str l, r))"

definition goes_on :: "string \<Rightarrow> bool" where
  "goes_on data \<longleftrightarrow> data \<noteq> [] \<and> hd data \<noteq> newline \<and> hd data \<noteq> return"

text \<open>The header lines of GET and HEAD requests.\<close>

partial_function (option) copy_head :: "bool \<Rightarrow> string \<Rightarrow> req \<Rightarrow> req option" where
  "copy_head nocache data s =
     (let (data, inp) = next_line data (r_in s);
          s = s\<lparr>r_in := inp\<rparr>
      in do {
        s \<leftarrow> (if \<not> nocache \<or> take 6 data \<noteq> ''If-Mod'' then write_server data s else Some s);
        if goes_on data then copy_head nocache data s else Some s })"

text \<open>
  The header of a POST request, where the length of the body is read on the way. A line \<open>Content-Length\<close> without a
  colon makes the program read past the end of its buffer.
\<close>

definition content_length :: "string \<Rightarrow> int \<Rightarrow> int mem" where
  "content_length data c_len =
     (if map lower (take 14 data) = ''content-length'' then
        if CHR '':'' \<notin> set (drop 14 data) then Smashed
        else Fine (atoi (tl (dropWhile (\<lambda>c. c \<noteq> CHR '':'') (drop 14 data))))
      else Fine c_len)"

partial_function (option) copy_post_head :: "int \<Rightarrow> string \<Rightarrow> req \<Rightarrow> (int \<times> req) mem option" where
  "copy_post_head c_len data s =
     (let (data, inp) = next_line data (r_in s);
          s = s\<lparr>r_in := inp\<rparr>
      in case content_length data c_len of
           Smashed \<Rightarrow> Some Smashed
         | Fine c_len \<Rightarrow> do {
             s \<leftarrow> write_server data s;
             if goes_on data then copy_post_head c_len data s else Some (Fine (c_len, s)) })"

text \<open>
  The body of a POST request. A negative length becomes a very big one in the call of \<open>fread\<close>, which then reads all
  the input, whatever the size of the buffer.
\<close>

partial_function (option) copy_body :: "int \<Rightarrow> req \<Rightarrow> req mem option" where
  "copy_body c_len s =
     (if c_len = 0 then Some (Fine s)
      else
        let n = (if c_len < 0 then length (r_in s) else min (nat c_len) LDATA);
            data = take n (r_in s);
            s = s\<lparr>r_in := drop n (r_in s)\<rparr>
        in if LDATA < length data then Some Smashed
           else do {
             s \<leftarrow> write_server data s;
             copy_body (c_len - int (length data)) s })"

section \<open>The answer\<close>

datatype from_server = Data string | Read_error int

text \<open>The retry loop around \<open>write\<close>: whether its last call has succeeded. A success leaves \<open>errno\<close> alone.\<close>

fun write_client :: "string \<Rightarrow> write_result list \<Rightarrow> req \<Rightarrow> (bool \<times> req) option" where
  "write_client data [] s = None"
| "write_client data (Wrote n # ws) s = Some (True, s\<lparr>r_client := r_client s @ take n data, r_client_writes := ws\<rparr>)"
| "write_client data (Write_error e # ws) s =
     (if e = EINTR then write_client data ws (s\<lparr>r_errno := e\<rparr>) else Some (False, s\<lparr>r_errno := e, r_client_writes := ws\<rparr>))"

datatype answer = Answer_end | Answer_error | Answer_timeout

fun relay :: "from_server list \<Rightarrow> req \<Rightarrow> (answer \<times> req) option" where
  "relay [] s = Some (Answer_timeout, s)"
| "relay (Read_error e # rs) s = (if e = EINTR then relay rs (s\<lparr>r_errno := e\<rparr>) else Some (Answer_error, s\<lparr>r_errno := e\<rparr>))"
| "relay (Data d # rs) s =
     (if d = [] then Some (Answer_end, s)
      else case write_client d (r_client_writes s) s of
        None \<Rightarrow> None
      | Some (ok, s) \<Rightarrow>
        if r_errno s = EPIPE then Some (Answer_end, s)
        else if \<not> ok then Some (Answer_error, s)
        else relay rs s)"

section \<open>The whole request\<close>

definition fail :: "string \<Rightarrow> int \<Rightarrow> int \<Rightarrow> int \<Rightarrow> req \<Rightarrow> (int \<times> req) mem option" where
  "fail msg code sockIn sockOut s =
     (case sayerror msg sockIn sockOut s of None \<Rightarrow> None | Some s \<Rightarrow> Some (Fine (code, s)))"

definition answer_request :: "from_server list \<Rightarrow> int \<Rightarrow> int \<Rightarrow> req \<Rightarrow> (int \<times> req) mem option" where
  "answer_request rs sockIn sockOut s =
     (case relay rs s of None \<Rightarrow> None
      | Some (a, s) \<Rightarrow>
        (case a of
           Answer_end \<Rightarrow> Some (Fine (0, s\<lparr>r_closed := r_closed s @ [sockIn, sockOut], r_key := False\<rparr>))
         | Answer_error \<Rightarrow> fail SERVERR (- 2) sockIn sockOut s
         | Answer_timeout \<Rightarrow> fail SERVTIMEOUT (- 3) sockIn sockOut s))"

definition copy_request ::
  "config \<Rightarrow> req_method \<Rightarrow> string \<Rightarrow> from_server list \<Rightarrow> int \<Rightarrow> int \<Rightarrow> req \<Rightarrow> (int \<times> req) mem option" where
  "copy_request g meth data rs sockIn sockOut s =
     (if meth = METHOD_POST then
        (case copy_post_head 0 data s of None \<Rightarrow> None
         | Some Smashed \<Rightarrow> Some Smashed
         | Some (Fine (c_len, s)) \<Rightarrow>
           if c_len = 0 then fail POSTERR (- 6) sockIn sockOut s
           else (case copy_body c_len s of None \<Rightarrow> None
                 | Some Smashed \<Rightarrow> Some Smashed
                 | Some (Fine s) \<Rightarrow> answer_request rs sockIn sockOut s))
      else
        (case copy_head (NoCache g) data s of None \<Rightarrow> None
         | Some s \<Rightarrow> answer_request rs sockIn sockOut s))"

text \<open>When the alarm jumps, \<open>sockOut\<close> keeps the value it has got last; as it is not volatile, C does not promise this.\<close>

definition connect_request ::
  "config \<Rightarrow> network \<Rightarrow> req_method \<Rightarrow> string \<Rightarrow> from_server list \<Rightarrow> int \<Rightarrow> string \<Rightarrow> int \<Rightarrow> string list \<Rightarrow> req \<Rightarrow>
    (int \<times> req) mem option" where
  "connect_request g net meth data rs sockIn host port first s =
     (case connectto net host port s of
        (None, s) \<Rightarrow> fail SERVTIMEOUT (- 3) sockIn (- 1) s
      | (Some sockOut, s) \<Rightarrow>
        if sockOut < 0 then
          if sockOut = ERR_GETHOSTBYNAME then fail SERVDNSERR (- 5) sockIn sockOut s
          else fail SERVCOERR (- 4) sockIn sockOut s
        else (case write_first first s of
            (False, s) \<Rightarrow> fail SERVTIMEOUT (- 3) sockIn sockOut s
          | (True, s) \<Rightarrow> copy_request g meth data rs sockIn sockOut s))"

definition process_request ::
  "config \<Rightarrow> network \<Rightarrow> bool \<Rightarrow> from_server list \<Rightarrow> int \<Rightarrow> req \<Rightarrow> (int \<times> req) mem option" where
  "process_request g net fdopen_ok rs sockIn s =
     (if \<not> fdopen_ok then fail SERVERR (- 2) sockIn (- 1) s
      else
        let s = s\<lparr>r_key := True\<rparr>
        in case fgets (r_in s) of
             None \<Rightarrow> fail BADREQ (- 1) sockIn (- 1) s
           | Some (line, r) \<Rightarrow>
             let data = c_str line; s = s\<lparr>r_in := r\<rparr>
             in case request_method data of
                  None \<Rightarrow> fail BADREQ (- 1) sockIn (- 1) s
                | Some (meth, rest) \<Rightarrow>
                  (case target g data meth rest of
                     Smashed \<Rightarrow> Some Smashed
                   | Fine None \<Rightarrow> fail BADREQ (- 1) sockIn (- 1) s
                   | Fine (Some (host, port, first)) \<Rightarrow>
                     connect_request g net meth data rs sockIn host port first s))"

section \<open>Numbers and addresses\<close>

text \<open>The decimal notation of a number, and an address as a client writes it.\<close>

fun decimal :: "nat \<Rightarrow> string" where
  "decimal n = (if n < 10 then [char_of (48 + n)] else decimal (n div 10) @ [char_of (48 + n mod 10)])"

declare decimal.simps [simp del]

definition url :: "string \<Rightarrow> nat option \<Rightarrow> string \<Rightarrow> string" where
  "url host port path = host @ (case port of None \<Rightarrow> [] | Some n \<Rightarrow> CHR '':'' # decimal n) @ CHR ''/'' # path"

lemma digit_char [simp]:
  assumes "k < 10"
  shows "isdigit (char_of (48 + k))" and "digit (char_of (48 + k)) = int k"
  using assms by (simp_all add: isdigit_def digit_def)

lemma decimal_digits: "c \<in> set (decimal n) \<Longrightarrow> isdigit c"
proof (induction n rule: decimal.induct)
  case (1 n)
  then show ?case by (subst (asm) (2) decimal.simps) (auto split: if_splits)
qed

lemma decimal_value: "foldl (\<lambda>a c. 10 * a + digit c) 0 (decimal n) = int n"
proof (induction n rule: decimal.induct)
  case (1 n)
  then show ?case by (subst decimal.simps) (auto simp: zdiv_int zmod_int)
qed

lemma decimal_not_Nil: "decimal n \<noteq> []"
  by (subst decimal.simps) simp

lemma isdigit_not: "isdigit c \<Longrightarrow> c \<noteq> CHR ''/'' \<and> c \<noteq> CHR '':'' \<and> c \<noteq> CHR ''-'' \<and> c \<noteq> CHR ''+'' \<and> \<not> isspace c"
  by (auto simp: isdigit_def isspace_def)

lemma atoi_decimal:
  assumes "n \<le> 2147483647"
  shows "atoi (decimal n) = int n"
proof -
  obtain c cs where d: "decimal n = c # cs" using decimal_not_Nil by (cases "decimal n") auto
  then have c: "isdigit c" using decimal_digits [of c n] by simp
  then have "dropWhile isspace (decimal n) = decimal n" using d isdigit_not [of c] by simp
  moreover have "hd (decimal n) \<noteq> CHR ''-''" "hd (decimal n) \<noteq> CHR ''+''" using d isdigit_not [OF c] by auto
  moreover have "takeWhile isdigit (decimal n) = decimal n" using decimal_digits by (simp add: takeWhile_eq_all_conv)
  ultimately show ?thesis using assms decimal_value [of n] by (simp add: atoi_def del: takeWhile_eq_all_conv)
qed

lemma takeWhile_stop: "\<forall>c \<in> set xs. P c \<Longrightarrow> \<not> P c \<Longrightarrow> takeWhile P (xs @ c # ys) = xs"
  by (induction xs) auto

lemma dropWhile_stop: "\<forall>c \<in> set xs. P c \<Longrightarrow> \<not> P c \<Longrightarrow> dropWhile P (xs @ c # ys) = c # ys"
  by (induction xs) auto

lemma dropWhile_spaces: "dropWhile (\<lambda>c. c = CHR '' '') (replicate k (CHR '' '') @ xs) = dropWhile (\<lambda>c. c = CHR '' '') xs"
  by (induction k) auto

text \<open>The analysis of an address whose parts are written one after the other.\<close>

lemma parse_target_parts:
  assumes "CHR ''/'' \<notin> set adr" and "adr \<noteq> []" and "length adr < LADR"
  shows "parse_target (replicate k (CHR '' '') @ ''http://'' @ adr @ CHR ''/'' # path) =
    (if CHR '':'' \<notin> set adr then Fine (Some (adr, DEFAULTPORT, CHR ''/'' # path))
     else Fine (Some (takeWhile (\<lambda>c. c \<noteq> CHR '':'') adr, atoi (tl (dropWhile (\<lambda>c. c \<noteq> CHR '':'') adr)), CHR ''/'' # path)))"
proof -
  have "takeWhile (\<lambda>c. c \<noteq> CHR ''/'') (adr @ CHR ''/'' # path) = adr"
    by (rule takeWhile_stop) (use assms(1) in auto)
  moreover have "dropWhile (\<lambda>c. c \<noteq> CHR ''/'') (adr @ CHR ''/'' # path) = CHR ''/'' # path"
    by (rule dropWhile_stop) (use assms(1) in auto)
  ultimately show ?thesis using assms(2,3) by (simp add: parse_target_def dropWhile_spaces Let_def)
qed

lemma request_method_word: "request_method (method_word meth @ rest) = Some (meth, rest)"
  by (cases meth) (simp_all add: request_method_def)

lemma parse_url:
  assumes "host \<noteq> []" and "CHR ''/'' \<notin> set host" and "CHR '':'' \<notin> set host"
    and "length (url host port []) \<le> LADR" and "\<And>n. port = Some n \<Longrightarrow> n < 65536"
  shows "parse_target (replicate k (CHR '' '') @ ''http://'' @ url host port path) =
    Fine (Some (host, case port of None \<Rightarrow> DEFAULTPORT | Some n \<Rightarrow> int n, CHR ''/'' # path))"
proof (cases port)
  case None
  with assms parse_target_parts [of host k path] show ?thesis by (simp add: url_def)
next
  case (Some n)
  let ?adr = "host @ CHR '':'' # decimal n"
  have "CHR ''/'' \<notin> set ?adr" using assms(2) decimal_digits [of _ n] isdigit_not by fastforce
  moreover have "length ?adr < LADR" using assms(4) Some by (simp add: url_def)
  moreover have "takeWhile (\<lambda>c. c \<noteq> CHR '':'') ?adr = host" by (rule takeWhile_stop) (use assms(3) in auto)
  moreover have "dropWhile (\<lambda>c. c \<noteq> CHR '':'') ?adr = CHR '':'' # decimal n" by (rule dropWhile_stop) (use assms(3) in auto)
  moreover have "atoi (decimal n) = int n" by (rule atoi_decimal) (use assms(5) Some in auto)
  ultimately show ?thesis using parse_target_parts [of ?adr k path] Some by (simp add: url_def)
qed

text \<open>
  C20. The proxy reads an address the way it is written. From a request line with a method, any number of spaces, and
  an address with a host, an optional port number and a path, it obtains exactly that method, host
  and port, 80 if none is given, and the path, provided that host and port together fit into the buffer.
\<close>

theorem url_roundtrip:
  assumes "host \<noteq> []" and "CHR ''/'' \<notin> set host" and "CHR '':'' \<notin> set host"
    and "length (url host port []) \<le> LADR" and "\<And>n. port = Some n \<Longrightarrow> n < 65536"
  shows "\<exists>rest. request_method (method_word meth @ replicate k (CHR '' '') @ ''http://'' @ url host port path) = Some (meth, rest) \<and>
    parse_target rest = Fine (Some (host, case port of None \<Rightarrow> DEFAULTPORT | Some n \<Rightarrow> int n, CHR ''/'' # path))"
  using parse_url [OF assms] by (simp add: request_method_word)

theorem url_roundtrip_witness:
  "\<exists>rest. request_method (''GET '' @ '' http://'' @ url ''example.org'' (Some 8080) ''index.html'') = Some (METHOD_GET, rest) \<and>
    parse_target rest = Fine (Some (''example.org'', 8080, ''/index.html''))"
  using url_roundtrip [of "''example.org''" "Some 8080" METHOD_GET 1 "''index.html''"]
  by (simp add: url_def decimal.simps LADR_def)

section \<open>Lines\<close>

definition header_line :: "string \<Rightarrow> bool" where
  "header_line l \<longleftrightarrow> l \<noteq> [] \<and> last l = newline \<and> newline \<notin> set (butlast l) \<and> CHR 0x00 \<notin> set l \<and> butlast l \<noteq> [] \<and>
     hd l \<noteq> return \<and> length l < LDATA"


lemma take_line_line: "newline \<notin> set l \<Longrightarrow> length l < n \<Longrightarrow> take_line n (l @ newline # r) = (l @ [newline], r)"
proof (induction l arbitrary: n)
  case Nil
  then show ?case by (cases n) simp_all
next
  case (Cons c l)
  then show ?case by (cases n) auto
qed

lemma fgets_line:
  assumes "l \<noteq> []" and "last l = newline" and "newline \<notin> set (butlast l)" and "CHR 0x00 \<notin> set l" and "length l < LDATA"
  shows "fgets (l @ r) = Some (l, r)" and "c_str l = l"
proof -
  have l: "butlast l @ [newline] = l" using append_butlast_last_id [OF assms(1)] assms(2) by simp
  have n: "length (butlast l) < LDATA - 1" using assms(1,5) by (cases l) auto
  have "take_line (LDATA - 1) (butlast l @ newline # r) = (butlast l @ [newline], r)"
    by (rule take_line_line [OF assms(3) n])
  also have "butlast l @ newline # r = (butlast l @ [newline]) @ r" by simp
  finally show "fgets (l @ r) = Some (l, r)" using assms(1) unfolding l by (simp add: fgets_def)
  show "c_str l = l" using assms(4) by (rule c_str_id)
qed

lemma next_header_line:
  assumes "header_line l"
  shows "next_line data (l @ r) = (l, r)" and "goes_on l"
proof -
  show "next_line data (l @ r) = (l, r)"
    using fgets_line(1) [of l r] fgets_line(2) [of l] assms by (simp add: next_line_def header_line_def)
  obtain c cs where "butlast l = c # cs" using assms by (cases "butlast l") (auto simp: header_line_def)
  then have "hd l = c" "c \<in> set (butlast l)" using assms by (cases l; auto simp: header_line_def split: if_splits)+
  then show "goes_on l" using assms by (auto simp: header_line_def goes_on_def)
qed


text \<open>What the socket takes of a sequence of strings, each given to one call of \<open>write\<close>.\<close>

definition sent_of :: "nat list \<Rightarrow> string list \<Rightarrow> string" where
  "sent_of ks ds = concat (map2 take ks ds)"

lemma sent_of_simps [simp]: "sent_of [] ds = []" "sent_of (k # ks) (d # ds) = take k d @ sent_of ks ds"
  by (simp_all add: sent_of_def)

lemma sent_of_all: "sent_of (map length ds) ds = concat ds"
  by (induction ds) simp_all

lemma write_server_takes:
  "r_server_writes s = Wrote k # ws \<Longrightarrow> write_server d s = Some (s\<lparr>r_server := r_server s @ take k d, r_server_writes := ws\<rparr>)"
  by (simp add: write_server_def)

lemma write_server_frame:
  assumes "write_server d s = Some s'"
  shows "r_in s' = r_in s" and "r_client s' = r_client s" and "r_client_writes s' = r_client_writes s"
    and "r_closed s' = r_closed s" and "r_key s' = r_key s"
  using assms by (auto simp: write_server_def Let_def split: list.splits write_result.splits)



text \<open>Without a blank line at the end, the loops never end.\<close>

lemma copy_head_eof: "goes_on data \<Longrightarrow> r_in s = [] \<Longrightarrow> copy_head nocache data s = None"
proof (rule ccontr)
  assume g: "goes_on data" "r_in s = []" and "copy_head nocache data s \<noteq> None"
  then obtain y where "copy_head nocache data s = Some y" by auto
  then have "\<not> (r_in s = [] \<and> goes_on data)"
  proof (rule copy_head.raw_induct [where P = "\<lambda>nocache data s y. \<not> (r_in s = [] \<and> goes_on data)", rotated])
    fix f nocache data s y
    assume IH: "\<And>nocache data s y. f nocache data s = Some y \<Longrightarrow> \<not> (r_in s = [] \<and> goes_on data)"
      and e: "(let (data, inp) = next_line data (r_in s); s = s\<lparr>r_in := inp\<rparr>
         in do { s \<leftarrow> (if \<not> nocache \<or> take 6 data \<noteq> ''If-Mod'' then write_server data s else Some s);
                 if goes_on data then f nocache data s else Some s }) = Some y"
    show "\<not> (r_in s = [] \<and> goes_on data)"
    proof
      assume a: "r_in s = [] \<and> goes_on data"
      then have "next_line data (r_in s) = (data, [])" by (simp add: next_line_def fgets_def)
      with e a obtain s' where "f nocache data s' = Some y" "r_in s' = []"
        by (auto simp: Let_def split: bind_splits if_splits dest: write_server_frame(1))
      with IH a show False by blast
    qed
  qed
  with g show False by simp
qed

lemma copy_head_unfinished:
  assumes "\<forall>l \<in> set hs. header_line l" and "goes_on data" and "r_in s = concat hs"
  shows "copy_head nocache data s = None"
  using assms
proof (induction hs arbitrary: data s)
  case Nil
  then show ?case using copy_head_eof by simp
next
  case (Cons l hs)
  have l: "next_line data (r_in s) = (l, concat hs)" "goes_on l" using next_header_line [of l] Cons.prems(1,3) by simp_all
  have "copy_head nocache l s' = None" if "r_in s' = concat hs" for s' using Cons.IH Cons.prems(1) l(2) that by simp
  then show ?case using l by (subst copy_head.simps) (auto simp: Let_def split: bind_splits if_splits dest: write_server_frame(1))
qed

section \<open>Bodies and answers\<close>

lemma copy_body_all:
  "length body \<le> m * LDATA \<Longrightarrow> m * LDATA < length body + LDATA \<Longrightarrow> r_in s = body @ r \<Longrightarrow>
   r_server_writes s = replicate m (Wrote LDATA) @ ws \<Longrightarrow>
   copy_body (int (length body)) s = Some (Fine (s\<lparr>r_in := r, r_server := r_server s @ body, r_server_writes := ws\<rparr>))"
proof (induction m arbitrary: body s)
  case 0
  then show ?case by (subst copy_body.simps) simp
next
  case (Suc m)
  define k where "k = min (length body) LDATA"
  have ne: "length body \<noteq> 0" using Suc.prems(2) by (auto simp: LDATA_def)
  have k: "k \<le> length body" "k \<le> LDATA" "length (take k body) = k" by (simp_all add: k_def)
  let ?s = "s\<lparr>r_in := drop k body @ r\<rparr>"
  have w: "write_server (take k body) ?s = Some (?s\<lparr>r_server := r_server s @ take k body, r_server_writes := replicate m (Wrote LDATA) @ ws\<rparr>)"
    using write_server_takes [of ?s LDATA "replicate m (Wrote LDATA) @ ws" "take k body"] Suc.prems(4) k by simp
  have m0: "m = 0" if "length body \<le> LDATA" using Suc.prems(2) that by (cases m) simp_all
  have IH: "copy_body (int (length body) - int k) (?s\<lparr>r_server := r_server s @ take k body, r_server_writes := replicate m (Wrote LDATA) @ ws\<rparr>) =
    Some (Fine (s\<lparr>r_in := r, r_server := r_server s @ body, r_server_writes := ws\<rparr>))"
    using Suc.IH [of "drop k body" "?s\<lparr>r_server := r_server s @ take k body, r_server_writes := replicate m (Wrote LDATA) @ ws\<rparr>"]
      Suc.prems(1,2) k m0 by (simp add: of_nat_diff k_def min_def split: if_splits)
  have c: "take k (r_in s) = take k body" "drop k (r_in s) = drop k body @ r" using Suc.prems(3) k(1) by simp_all
  have "copy_body (int (length body)) s = do { s \<leftarrow> write_server (take k body) ?s; copy_body (int (length body) - int k) s }"
    using ne k by (subst copy_body.simps) (simp only: k_def [symmetric] Let_def c k(3) of_nat_less_0_iff of_nat_eq_0_iff nat_int if_False not_less [symmetric])
  then show ?case using w IH by simp
qed


section \<open>What a request leaves\<close>



















section \<open>Properties of whole requests\<close>


definition empty_req :: "string \<Rightarrow> write_result list \<Rightarrow> write_result list \<Rightarrow> req" where
  "empty_req inp sw cw = \<lparr>r_in = inp, r_server = [], r_client = [], r_closed = [], r_key = False, r_errno = 0,
     r_server_writes = sw, r_client_writes = cw\<rparr>"

definition plain_net :: network where
  "plain_net = \<lparr>n_socket = 9, n_lookup = (\<lambda>_. Some 1), n_connect = (\<lambda>_ _. Some 0)\<rparr>"




text \<open>
  The body of a POST request is copied exactly, as many characters as the length says, and what the client sends
  after it is left alone, if the server takes each piece of it whole.
\<close>

theorem post_body_copied:
  assumes "length body \<le> m * LDATA" and "m * LDATA < length body + LDATA" and "r_in s = body @ rest"
    and "r_server_writes s = replicate m (Wrote LDATA) @ ws"
  shows "copy_body (int (length body)) s = Some (Fine (s\<lparr>r_in := rest, r_server := r_server s @ body, r_server_writes := ws\<rparr>))"
  by (rule copy_body_all [OF assms])

text \<open>A body that is shorter than announced: the loop reads the end of the input again and again.\<close>

lemma copy_body_short:
  assumes "int (length (r_in s)) < c_len"
  shows "copy_body c_len s = None"
proof (rule ccontr)
  assume "copy_body c_len s \<noteq> None"
  then obtain y where "copy_body c_len s = Some y" by auto
  then have "\<not> int (length (r_in s)) < c_len"
  proof (rule copy_body.raw_induct [where P = "\<lambda>c_len s y. \<not> int (length (r_in s)) < c_len", rotated])
    fix f c_len and s :: req and y
    assume IH: "\<And>c_len s y. f c_len s = Some y \<Longrightarrow> \<not> int (length (r_in s)) < c_len"
      and e: "(if c_len = 0 then Some (Fine s)
        else let n = (if c_len < 0 then length (r_in s) else min (nat c_len) LDATA); data = take n (r_in s); s = s\<lparr>r_in := drop n (r_in s)\<rparr>
          in if LDATA < length data then Some Smashed
             else do { s \<leftarrow> write_server data s; f (c_len - int (length data)) s }) = Some y"
    show "\<not> int (length (r_in s)) < c_len"
    proof
      assume a: "int (length (r_in s)) < c_len"
      then have "c_len \<noteq> 0" "\<not> c_len < 0" by auto
      then obtain s1 where w: "write_server (take (min (nat c_len) LDATA) (r_in s)) (s\<lparr>r_in := drop (min (nat c_len) LDATA) (r_in s)\<rparr>) = Some s1"
        and z: "f (c_len - int (length (take (min (nat c_len) LDATA) (r_in s)))) s1 = Some y"
        using e by (auto simp: Let_def split: bind_splits if_splits)
      from IH [OF z] write_server_frame(1) [OF w] a show False by (auto simp: min_def split: if_splits)
    qed
  qed
  with assms show False by simp
qed

text \<open>
  A client can make a thread of the proxy run for ever. When it closes the connection after some header lines, without
  a blank line, the thread copies the last line to the server again and again, and \<open>process_request\<close> never
  returns: no time limit applies to the loop. The same holds for a body shorter than announced.
\<close>

theorem unfinished_request_never_ends:
  assumes "meth \<noteq> METHOD_POST" and "ConnectToProxy g" and "header_line (method_word meth @ path)" and "\<forall>l \<in> set hs. header_line l"
    and "0 \<le> n_socket net" and "n_lookup net (NextProxyAdr g) = Some a"
    and "n_connect net a (NextProxyPort g mod 65536) = Some c" and "c \<noteq> - 1"
    and "r_in s = method_word meth @ path @ concat hs" and "r_server_writes s \<noteq> []" and "int (length (r_in s')) < c_len"
  shows "process_request g net True rs sockIn s = None \<and> copy_body c_len s' = None"
proof -
  let ?line = "method_word meth @ path"
  define s1 where "s1 = s\<lparr>r_key := True, r_in := concat hs\<rparr>"
  have f: "fgets (r_in s) = Some (?line, concat hs)" "c_str ?line = ?line"
    using fgets_line(1) [of ?line "concat hs"] fgets_line(2) [of ?line] assms(3,9) by (simp_all add: header_line_def)
  have c: "connectto net (NextProxyAdr g) (NextProxyPort g) s1 = (Some (n_socket net), s1)"
    using assms(5-8) by (simp add: connectto_def)
  obtain s2 where w: "write_server ?line s1 = Some s2"
    using assms(10) by (cases "r_server_writes s") (auto simp: write_server_def s1_def Let_def)
  have "r_in s2 = concat hs" using write_server_frame(1) [OF w] by (simp add: s1_def)
  then have "copy_head (NoCache g) ?line s2 = None"
    using copy_head_unfinished [OF assms(4)] next_header_line(2) [OF assms(3)] by simp
  moreover have "\<not> n_socket net < 0" using assms(5) by simp
  ultimately show ?thesis
    using assms(1,2) f c w copy_body_short [OF assms(11)]
    by (simp add: process_request_def connect_request_def request_method_word target_def copy_request_def s1_def [symmetric] Let_def)
qed

theorem unfinished_request_never_ends_witness:
  "process_request (config_init\<lparr>ConnectToProxy := True\<rparr>) plain_net True [] 7 (empty_req (''GET x'' @ [newline]) [Wrote 6] []) = None"
  using unfinished_request_never_ends [of METHOD_GET "config_init\<lparr>ConnectToProxy := True\<rparr>" "''x'' @ [newline]" "[]" plain_net 1 0
      "empty_req (''GET x'' @ [newline]) [Wrote 6] []" "empty_req [] [] []" 1 "[]" 7]
  by (simp add: config_init_def plain_net_def empty_req_def header_line_def LDATA_def)

text \<open>
  C40. A client can overwrite the stack of the proxy. An address of 128 characters or more does not fit into the buffer
  for it, and nothing checks this: \<open>strncpy\<close> writes past the end of the buffer.
\<close>

theorem long_address_smashes_buffer:
  assumes "\<not> ConnectToProxy g" and "CHR ''/'' \<notin> set adr" and "LADR \<le> length adr"
    and "header_line (method_word meth @ ''http://'' @ adr @ CHR ''/'' # path)"
    and "r_in s = method_word meth @ ''http://'' @ adr @ CHR ''/'' # path @ rest"
  shows "process_request g net True rs sockIn s = Some Smashed"
proof -
  let ?line = "method_word meth @ ''http://'' @ adr @ CHR ''/'' # path"
  have f: "fgets (r_in s) = Some (?line, rest)" "c_str ?line = ?line"
    using fgets_line(1) [of ?line rest] fgets_line(2) [of ?line] assms(4,5) by (simp_all add: header_line_def)
  have "takeWhile (\<lambda>c. c \<noteq> CHR ''/'') (adr @ CHR ''/'' # path) = adr"
    by (rule takeWhile_stop) (use assms(2) in auto)
  then have "parse_target (''http://'' @ adr @ CHR ''/'' # path) = Smashed"
    using assms(3) by (simp add: parse_target_def Let_def)
  then show ?thesis using assms(1) f by (simp add: process_request_def request_method_word target_def)
qed

theorem long_address_smashes_buffer_witness:
  "process_request config_init plain_net True [] 7 (empty_req (''GET http://'' @ replicate 128 (CHR ''a'') @ ''/'' @ [newline]) [] []) =
    Some Smashed"
  using long_address_smashes_buffer [of config_init "replicate 128 (CHR ''a'')" METHOD_GET "[newline]"
      "empty_req (''GET http://'' @ replicate 128 (CHR ''a'') @ ''/'' @ [newline]) [] []" "[]" plain_net "[]" 7]
  by (simp add: config_init_def empty_req_def header_line_def LADR_def LDATA_def butlast_append)

text \<open>
  A client that goes away spoils the next request of the same thread. The loop that relays the answer tests \<open>errno\<close> after
  each write, also after a successful one. When a client has closed its connection, \<open>errno\<close> of the thread
  stays at \<open>EPIPE\<close>, and the next client gets the first piece of its answer only, with the result 0.
\<close>

theorem stale_errno_truncates_answer:
  assumes "d \<noteq> []" and "d' \<noteq> []" and "r_client_writes s = Write_error EPIPE # ws" and "r_client_writes s' = Wrote (length d') # ws'"
  shows "\<exists>s1 s2. answer_request (Data d # rs) sockIn sockOut s = Some (Fine (0, s1)) \<and>
    answer_request (Data d' # rs') sockIn' sockOut' (s'\<lparr>r_errno := r_errno s1\<rparr>) = Some (Fine (0, s2)) \<and>
    r_client s2 = r_client s' @ d'"
  using assms by (simp add: answer_request_def EPIPE_def)

theorem stale_errno_truncates_answer_witness:
  "\<exists>s1 s2. answer_request [Data ''x''] 7 9 (empty_req [] [] [Write_error EPIPE]) = Some (Fine (0, s1)) \<and>
    answer_request [Data ''abc'', Data ''def'', Data []] 8 9 ((empty_req [] [] [Wrote 3, Wrote 3])\<lparr>r_errno := r_errno s1\<rparr>) = Some (Fine (0, s2)) \<and>
    r_client s2 = ''abc''"
  using stale_errno_truncates_answer [of "''x''" "''abc''" "empty_req [] [] [Write_error EPIPE]" "[]" "empty_req [] [] [Wrote 3, Wrote 3]"
      "[Wrote 3]" "[]" 7 9 "[Data ''def'', Data []]" 8 9]
  by (simp add: empty_req_def)

text \<open>A failed lookup of the host leaves the new socket open: it is not among the closed ones.\<close>

theorem dns_error_leaks_socket:
  assumes "n_socket net \<noteq> - 1" and "n_lookup net host = None" and "sayerror SERVDNSERR sockIn ERR_GETHOSTBYNAME s = Some s'"
  shows "connectto net host port s = (Some ERR_GETHOSTBYNAME, s) \<and> r_closed s' = r_closed s @ [ERR_GETHOSTBYNAME, sockIn]"
  using assms by (auto simp: connectto_def sayerror_def Let_def split: list.splits write_result.splits if_splits)

end
