(* ===== verification/Proxy_Main.thy ===== *)
theory Proxy_Main
  imports Proxy_Request Condvar Keys
begin

text \<open>
  The start of the example program \<open>Examples/proxy.c\<close> up to the call of \<open>server\<close>, and the handler of the alarm that ends
  a request which takes too long. The results of the system calls are arguments; what the program writes
  on its terminal is left out, except that \<open>Main_exit\<close> names the call that has failed.
\<close>

record listen_calls =
  l_socket :: int
  l_setsockopt :: "int \<Rightarrow> int"
  l_bind :: "int \<Rightarrow> int \<Rightarrow> int"
  l_listen :: "int \<Rightarrow> int \<Rightarrow> int"

datatype main_end = Main_exit int string | Serve int int config

definition SIGALRM :: nat where "SIGALRM = 14"

text \<open>
  The variables \<open>free_q_mu\<close>, \<open>gethostbyname_mu\<close> and \<open>free_q_cond\<close> are given by their addresses, and \<open>request_alarm\<close> by the
  address \<open>alarm_fn\<close>. A failed creation leaves \<open>key_alarm\<close> as it was, which is 0.
\<close>

definition main_init :: "env \<Rightarrow> pthread_t \<Rightarrow> addr \<Rightarrow> addr \<Rightarrow> addr \<Rightarrow> addr \<Rightarrow> st \<Rightarrow> (nat \<times> st) option" where
  "main_init E self free_q_mu gethostbyname_mu free_q_cond alarm_fn s =
     (let s = snd (pthread_mutex_init free_q_mu None s);
          s = snd (pthread_mutex_init gethostbyname_mu None s);
          s = snd (pthread_cond_init free_q_cond s)
      in case pthread_key_create E self NULL s of
           Some (Ret (_, k), s) \<Rightarrow>
             Some (case k of Some k \<Rightarrow> k | None \<Rightarrow> 0, s\<lparr>sighandlers := (sighandlers s)(SIGALRM := SA_user alarm_fn)\<rparr>)
         | _ \<Rightarrow> None)"

definition main_listen :: "listen_calls \<Rightarrow> config \<Rightarrow> st \<Rightarrow> main_end \<times> st" where
  "main_listen L g s =
     (let sockListen = l_socket L; sin_port = listenport g mod 65536
      in if sockListen = - 1 then (Main_exit 1 ''Webroute(socket)'', s)
         else if l_setsockopt L sockListen = - 1 then (Main_exit 1 ''Webroute(setsockopt)'', s)
         else if l_bind L sockListen sin_port = - 1 then (Main_exit 1 ''Webroute(bind)'', s)
         else if l_listen L sockListen 5 = - 1 then (Main_exit 1 ''Webroute(listen)'', s)
         else (Serve sockListen sin_port g, s\<lparr>klog := klog s @ [Close 0, Close 1, Close 2]\<rparr>))"

definition proxy_main ::
  "env \<Rightarrow> listen_calls \<Rightarrow> pthread_t \<Rightarrow> addr \<Rightarrow> addr \<Rightarrow> addr \<Rightarrow> addr \<Rightarrow> (char \<times> string) list \<Rightarrow> st \<Rightarrow>
    (main_end \<times> nat \<times> st) mem option"
where
  "proxy_main E L self free_q_mu gethostbyname_mu free_q_cond alarm_fn opts s =
     (case main_options opts config_init of
        Smashed \<Rightarrow> Some Smashed
      | Fine None \<Rightarrow> Some (Fine (Main_exit 1 ''Syntax:'', 0, s))
      | Fine (Some g) \<Rightarrow>
          (case main_init E self free_q_mu gethostbyname_mu free_q_cond alarm_fn s of
             None \<Rightarrow> None
           | Some (key_alarm, s) \<Rightarrow> (let (r, s) = main_listen L g s in Some (Fine (r, key_alarm, s)))))"

text \<open>
  The handler of the alarm. The result is the buffer of \<open>sigsetjmp\<close> to which it jumps, \<open>None\<close> if it returns.
\<close>

definition request_alarm :: "pthread_t \<Rightarrow> nat \<Rightarrow> st \<Rightarrow> addr option \<times> st" where
  "request_alarm self key_alarm s =
     (let jmp = pthread_getspecific self key_alarm s
      in if jmp \<noteq> NULL then (Some jmp, snd (pthread_setspecific self key_alarm NULL s)) else (None, s))"

section \<open>Properties\<close>

text \<open>
  The library is ready when the server begins: the mutexes are free and fast, nobody waits for the condition, and \<open>key_alarm\<close> is
  a key of its own, without a destructor. The program serves if no call has failed, and exits with 1 otherwise. (The mutexes of
  the program are not the one of the table of keys.)
\<close>

theorem proxy_main_ready:
  assumes "keys_wf self s" and "\<exists>k < PTHREAD_KEYS_MAX. \<not> in_use (pthread_keys s ! k)" and "mu \<noteq> mu'"
    and "pthread_keys_mutex s \<notin> {mu, mu'}" and "main_options opts config_init = Fine (Some g)"
  shows "\<exists>r key s'. proxy_main E L self mu mu' c alarm_fn opts s = Some (Fine (r, key, s')) \<and>
    mutexes s' mu = PTHREAD_MUTEX_INITIALIZER \<and> mutexes s' mu' = PTHREAD_MUTEX_INITIALIZER \<and>
    conds s' c = PTHREAD_COND_INITIALIZER \<and> key < PTHREAD_KEYS_MAX \<and> \<not> in_use (pthread_keys s ! key) \<and>
    pthread_keys s' = (pthread_keys s)[key := \<lparr>in_use = True, destr = NULL\<rparr>] \<and> descr s' = descr s \<and>
    sighandlers s' SIGALRM = SA_user alarm_fn \<and>
    (if l_socket L \<noteq> - 1 \<and> l_setsockopt L (l_socket L) \<noteq> - 1 \<and> l_bind L (l_socket L) (listenport g mod 65536) \<noteq> - 1 \<and>
        l_listen L (l_socket L) 5 \<noteq> - 1
     then r = Serve (l_socket L) (listenport g mod 65536) g else \<exists>msg. r = Main_exit 1 msg)"
proof -
  define s1 where "s1 = snd (pthread_cond_init c (snd (pthread_mutex_init mu' None (snd (pthread_mutex_init mu None s)))))"
  have s1: "mutexes s1 mu = PTHREAD_MUTEX_INITIALIZER" "mutexes s1 mu' = PTHREAD_MUTEX_INITIALIZER"
    "conds s1 c = PTHREAD_COND_INITIALIZER" "pthread_keys s1 = pthread_keys s" "descr s1 = descr s"
    "pthread_keys_mutex s1 = pthread_keys_mutex s" "mutexes s1 (pthread_keys_mutex s) = mutexes s (pthread_keys_mutex s)"
    using assms(3,4) by (simp_all add: s1_def pthread_mutex_init_def pthread_cond_init_def PTHREAD_MUTEX_INITIALIZER_def
        PTHREAD_COND_INITIALIZER_def queue_init_def upd_mutex_def upd_cond_def)
  obtain key where k: "key_search (pthread_keys s) 0 = Some key"
    using assms(2) key_search_None [of "pthread_keys s" 0] by (cases "key_search (pthread_keys s) 0") auto
  have "mutexes s1 (pthread_keys_mutex s1) = PTHREAD_MUTEX_INITIALIZER" using s1 assms(1) by (simp add: keys_wf_def)
  from key_create_eq [OF this, of E self NULL] k s1
  have "main_init E self mu mu' c alarm_fn s = Some (key, s1\<lparr>pthread_keys := (pthread_keys s)[key := \<lparr>in_use = True, destr = NULL\<rparr>],
      sighandlers := (sighandlers s1)(SIGALRM := SA_user alarm_fn)\<rparr>)"
    by (simp add: main_init_def s1_def [symmetric] Let_def)
  with assms(5) s1 key_search_Some [OF k] show ?thesis by (simp add: proxy_main_def main_listen_def Let_def)
qed

text \<open>
  An alarm jumps to the buffer that the thread has put under the key, and only once: until the thread sets the key again
  another alarm returns to the place where it came. It concerns no other thread and no other key.
\<close>

theorem alarm_jumps_once:
  assumes "keys_wf self s" and "key < PTHREAD_KEYS_MAX" and "jmp \<noteq> NULL" and "pthread_setspecific self key jmp s = (0, s1)"
  shows "\<exists>s2. request_alarm self key s1 = (Some jmp, s2) \<and> request_alarm self key s2 = (None, s2) \<and>
    (\<forall>t k. t \<noteq> self \<or> k \<noteq> key \<longrightarrow> pthread_getspecific t k s2 = pthread_getspecific t k s)"
  using assms by (auto simp: request_alarm_def pthread_getspecific_def pthread_setspecific_def keys_wf_def Let_def)

end
