(* ===== verification/Spec2Isabelle.thy ===== *)
theory Spec2Isabelle
  imports Prelude Pthread_Types Machine Queue Restart Mutex Mutex_Concurrent Condvar Condvar_Concurrent Condvar_Cancel Semaphore Semaphore_Concurrent Keys
    Attr Cancel Join Segments Ring Manager Pthread_Main Thread_System Thread_Safety Signals Lockfile Ptfork Examples
    Libc_Lock Accumulate Search Proxy_Pool Proxy_Request Proxy_Main
begin

text \<open>
  Verification of LinuxThreads 2.0.1, the POSIX thread library for Linux in which every thread is a process
  of the kernel that shares its memory with the others.

  \<^bold>\<open>The program.\<close> A process begins with one thread. \<open>__pthread_initialize\<close> (\<open>pthread.c\<close>) sets up its descriptor
  and the handlers of the two signals the library uses: one restarts a suspended thread, the other cancels
  a thread. The first \<open>pthread_create\<close> starts the thread manager (\<open>manager.c\<close>), a process that reads requests
  from a pipe; it finds stack space for new threads, calls \<open>clone\<close>, keeps the ring of live threads, waits for
  the processes of the threads, and releases their stacks. Mutexes, conditions and semaphores (\<open>mutex.c\<close>,
  \<open>condvar.c\<close>, \<open>semaphore.c\<close>) put waiting threads into linked lists through a field of the thread descriptor
  and suspend and restart them by signals (\<open>restart.h\<close>); the lists of mutexes and conditions are protected by
  spin locks over a test-and-set instruction (\<open>spinlock.h\<close>, \<open>pt-machine.h\<close>), that of a semaphore is changed by
  compare-and-swap. \<open>pthread_exit\<close>, \<open>pthread_join\<close> and \<open>pthread_detach\<close> (\<open>join.c\<close>) work with the manager.

  \<^bold>\<open>The model.\<close> The machine is a 32-bit one: addresses and lock words are values of type \<open>32 word\<close>. The state
  (\<open>st\<close> in \<open>Pthread_Types\<close>) holds the descriptors of the threads, the mutexes, conditions, semaphores and
  cleanup buffers by their addresses, the global variables of the library, the requests in the pipe, and the
  log of the system calls that have an effect outside. A function of the C code is a function on this state
  with the name of the C function, without its leading underscores. \<open>None\<close> is the result of a call that never
  returns, as a spin lock that nobody releases, a suspension that nobody ends, or an access to memory that is not mapped. The result of a call that
  returns says how: normally, by \<open>pthread_exit\<close>, by the end of the process, or by the jump out of a handler
  (\<open>flow\<close>). Loops over linked structures are \<open>partial_function (option)\<close>, and it is proved of each
  that it ends; no definition has fuel. What the kernel and the functions of the user do are arguments: the records
  \<open>env\<close> and \<open>kern\<close>, and in the manager what \<open>select\<close>, \<open>waitpid\<close> and \<open>getppid\<close> answer (\<open>manager_input\<close>).

  \<^bold>\<open>The theories.\<close>
  \<^item> \<open>Prelude\<close>: linked chains, exclusive control points, lists.
  \<^item> \<open>Pthread_Types\<close>: the types and constants of \<open>pthread.h\<close> and \<open>internals.h\<close>, the state and its accessors.
  \<^item> \<open>Machine\<close>: test-and-set, compare-and-swap and the spin lock on the five ports. Each port interprets the
    locales of the primitives; mutual exclusion of the spin lock follows for every port.
  \<^item> \<open>Queue\<close>: the waiting queues of \<open>queue.h\<close> refine lists, \<open>remove_from_queue\<close> of \<open>condvar.c\<close> included.
  \<^item> \<open>Restart\<close>: \<open>restart\<close>, \<open>suspend\<close> and the signal handlers.
  \<^item> \<open>Mutex\<close>: the functions of \<open>mutex.c\<close> on the state. \<open>Mutex_Concurrent\<close>: any number of threads that lock and
    unlock one mutex; they refine an abstract lock, exclude each other, and no wake-up is lost.
  \<^item> \<open>Condvar\<close>: \<open>condvar.c\<close>, with the order of entering the queue and giving up the mutex, broadcast,
    time limits and cancellation. \<open>Condvar_Concurrent\<close>: any number of threads with a mutex and a condition; a thread
    that waits is in exactly one queue or on its way back, and only a missing signal can hold it up. \<open>Condvar_Cancel\<close>: a
    wait that is cancelled while its mutex is held, with other threads in both queues.
  \<^item> \<open>Semaphore\<close>: \<open>semaphore.c\<close> over a locale of compare-and-swap that its two implementations interpret.
    \<open>Semaphore_Concurrent\<close>: any number of threads that wait and post; the count is exact and no
    wake-up is lost.
  \<^item> \<open>Keys\<close>, \<open>Attr\<close>, \<open>Cancel\<close>: thread-specific data, attributes, cancellation and cleanup handlers
    (\<open>specific.c\<close>, \<open>attr.c\<close>, \<open>cancel.c\<close>, \<open>wrapsyscall.c\<close>).
  \<^item> \<open>Join\<close>: \<open>pthread_exit\<close>, \<open>pthread_join\<close>, \<open>pthread_detach\<close> in both orders of exit and join, and the order in which an
    exiting thread calls its cleanup handlers and the destructors of its data.
  \<^item> \<open>Segments\<close>: the layout of the stacks, \<open>thread_self\<close>, and the search for a free segment. \<open>Ring\<close>: the
    doubly linked ring of live threads.
  \<^item> \<open>Manager\<close>: \<open>manager.c\<close>. The invariant \<open>mgr_wf\<close> relates the ring, the stack segments and the threads that
    have exited and wait for their release; requests keep it. A descriptor whose segment has been unmapped cannot be accessed
    (\<open>mapped\<close>). \<open>Pthread_Main\<close>: \<open>pthread.c\<close>.
  \<^item> \<open>Thread_System\<close>, \<open>Thread_Safety\<close>: any number of threads that create, join and detach threads and exit, with the
    manager beside them, as steps; each step runs a section of \<open>join.c\<close> or a function of \<open>manager.c\<close> on the state. In every
    reachable state the manager and the threads agree, a second join of a thread is refused, joins return what was given to
    \<open>pthread_exit\<close>, a thread is freed once, and only the program itself can keep a thread waiting.
  \<^item> \<open>Signals\<close>, \<open>Lockfile\<close>, \<open>Ptfork\<close>: \<open>signals.c\<close>, \<open>lockfile.c\<close>, \<open>ptfork.c\<close>.
  \<^item> \<open>Libc_Lock\<close>: the cleanup macros of \<open>pthread.h\<close>, the lock macros of the C library (\<open>libc-lock.h\<close>, \<open>stdio-lock.h\<close>), the
    wrapped system calls of \<open>wrapsyscall.c\<close> and the weak definitions of \<open>weaks.c\<close>.
  \<^item> \<open>Examples\<close>: the two threads of \<open>ex1.c\<close> that write letters, and the two producer-consumer programs, \<open>ex2.c\<close> with
    conditions and \<open>ex5.c\<close> with semaphores. \<open>Search\<close>: the search program \<open>ex3.c\<close> with cancellation.
    \<open>Accumulate\<close>: the string accumulator \<open>ex4.c\<close> with thread-specific data.
  \<^item> \<open>Proxy_Pool\<close>: the pool of threads of \<open>proxy.c\<close>, as steps of the server and the client threads.
    \<open>Proxy_Request\<close>: its processing of one request, with the buffers of the C code and what the sockets take of each \<open>write\<close>. \<open>Proxy_Main\<close>: its start and the
    handler of the alarm.
  This theory holds the property that spans the components: the life of a thread from creation to release.

  \<^bold>\<open>What the theorems show.\<close> The locks exclude, wait in order and lose no wake-up; a semaphore neither loses nor
  invents a unit; a thread runs its routine, a join obtains its value, and its stack is released exactly
  once; the end of the process reaches every thread; and the calls keep the invariants of the
  descriptors, keys, attributes and signal masks. The example programs end with the right output under every
  interleaving; the proxy serves each connection once, relays requests as far as the sockets take them, and answers a failed
  one with the page for its error. Where the code does not do what it means to, a theorem shows a run on which it fails:
  the access of the manager to a thread it has freed, when a thread is detached between its end and its reaping, the standard input that
  a child of \<open>fork\<close> loses, the waiters that a cancelled \<open>pthread_cond_wait\<close> loses, overlapping calls
  of \<open>sigwait\<close>, the return with \<open>EINVAL\<close> that keeps the spin lock of a mutex, \<open>pthread_once\<close> returning while the
  routine still runs, the null pointers that \<open>ex3.c\<close> cancels, and in \<open>proxy.c\<close> an overrun buffer, endless
  loops, a hanging server, answers cut short and a structure that is used after it has been freed.

  \<^bold>\<open>What is not modelled.\<close> Memory is sequentially consistent: memory barriers have no counterpart. Time is an
  argument. Steps of the concurrent models are single accesses to shared words or sections under a spin
  lock; in them nobody is cancelled, and in the one with the manager the program does not name a thread that is gone, nor
  join one that has been joined or detached except where the code refuses it, nor detach one between its end and its reaping. A call of
  \<open>pthread_join\<close> or \<open>pthread_detach\<close> with a descriptor that has been unmapped has no counterpart; the request to free
  one has (\<open>None\<close>). The 64-bit layout of the Alpha port, the feature-test macros and prototypes, the debugging output, and the
  input and output of the example programs (their messages) are left out.
\<close>

section \<open>The life of a thread\<close>

text \<open>
  C12. The life of a thread, through creation, execution, joining and release. A thread creates another one with
  default attributes; the new thread calls its start routine with its argument, under the signal mask of its
  creator, and ends; the creator joins it and obtains what the start routine has returned; when the manager
  has reaped the process and served the request to free it, the stack has been unmapped once, the segment is
  free, and the threads of the process are those from before the creation.
\<close>

theorem thread_life_cycle:
  assumes "mgr_wf K s ths zs" and "room K s" and "\<And>t u. clone_env K t u \<noteq> - 1"
    and "self \<in> set (main_thread s # ths)" and "self \<noteq> manager_thread s" and "\<not> p_signal_jmp (descr s self)"
    and "manager_request s \<ge> 0" and "reqs s = []" and "\<not> terminated_children s" and "by_request i"
    and "\<not> main_thread_exiting s" and "well_behaved E"
  shows "\<exists>n s1 s2 s3 s4 s5.
    pthread_create (manager_env E K i) K self None fn arg s = Some (Ret (0, Some n), s1) \<and>
    pthread_start_thread E K n s1 = Some (Exit 0, s2) \<and>
    sigmask (started K n s1) n = sigmask s self \<and>
    pthread_join E' self n True s2 = Some (Ret (0, Some (fst (call_env E fn arg (started K n s1)))), s3) \<and>
    reqs s3 = [\<lparr>req_thread = self, req_kind = REQ_FREE n\<rparr>] \<and>
    pthread_exited K (p_pid (descr s3 n)) s3 = Some (Ret (), s4) \<and>
    handle_request K \<lparr>req_thread = self, req_kind = REQ_FREE n\<rparr> s4 = Some (Ret (), s5) \<and>
    klog s5 = klog s3 @ [unmap_of K n] \<and> mgr_wf K s5 ths zs \<and> \<not> slot K s5 n"
proof -
  from create_through_manager [OF assms(1-10), of E None fn arg] obtain n s1 where
    c: "pthread_create (manager_env E K i) K self None fn arg s = Some (Ret (0, Some n), s1)"
    and w1: "mgr_wf K s1 (n # ths) zs" and n: "n \<notin> set (main_thread s # ths @ zs)" and r1: "reqs s1 = []"
    and m1: "main_thread s1 = main_thread s" "main_thread_exiting s1 = main_thread_exiting s"
      "manager_request s1 = manager_request s"
    and d: "links_off (descr s1 n) =
      (init_new_thread None fn arg (sigmask s self) (links_off (descr s n)))\<lparr>p_pid := p_pid (descr s1 n)\<rparr>" by blast
  define dn where "dn = links_off (descr s1 n)"
  have "p_cleanup dn = NULL" "p_spinlock dn = 0" "p_detached dn = 0" "p_joining dn = NULL" "p_initial_fn dn = fn"
    "p_initial_fn_arg dn = arg" "p_initial_mask dn = sigmask s self"
    unfolding dn_def d by (simp_all add: init_new_thread_def)
  then have f: "p_cleanup (descr s1 n) = NULL" "p_spinlock (descr s1 n) = 0" "p_detached (descr s1 n) = 0"
    "p_joining (descr s1 n) = NULL" "p_initial_fn (descr s1 n) = fn" "p_initial_fn_arg (descr s1 n) = arg"
    "p_initial_mask (descr s1 n) = sigmask s self" by (simp_all add: dn_def links_off_def)
  have nm: "n \<noteq> main_thread s1" "self \<noteq> n" using n m1 assms(4) by auto
  let ?v = "fst (call_env E fn arg (started K n s1))"
  from start_thread_effect [OF assms(12) f(1,2) nm(1), of K] f(5,6) obtain s2 where
    s2: "pthread_start_thread E K n s1 = Some (Exit 0, s2)"
      "descr s2 = (descr s1)(n := (descr s1 n)\<lparr>p_pid := getpid_env K n, p_canceled := False, p_retval := ?v, p_terminated := True\<rparr>)"
      "reqs s2 = reqs s1" "manager_request s2 = manager_request s1" "lib_rest s2 = lib_rest s1" by auto
  have d2: "p_spinlock (descr s2 n) = 0" "p_detached (descr s2 n) = 0" "p_joining (descr s2 n) = NULL"
    "p_terminated (descr s2 n)" "p_retval (descr s2 n) = ?v" using f s2(2) by simp_all
  from join_terminated [OF nm(2) d2(1-4), of E'] obtain s3 where
    s3: "pthread_join E' self n True s2 = Some (Ret (0, Some ?v), s3)"
      "reqs s3 = [\<lparr>req_thread = self, req_kind = REQ_FREE n\<rparr>]" "descr s3 = descr s2" "lib_rest s3 = lib_rest s1"
    using d2(5) r1 s2(3-5) m1(3) assms(7) by auto
  have sp: "seg_part s3 = seg_part s1" using s3(4) by (simp add: seg_part_def lib_rest_def)
  have "mgr_wf K s3 (n # ths) zs = mgr_wf K s1 (n # ths) zs"
    by (rule mgr_wf_cong [OF sp]) (auto simp: s3(3) s2(2))
  then have w3: "mgr_wf K s3 ([] @ n # ths) zs" using w1 by simp
  have "\<not> main_thread_exiting s3" using s3(4) m1(2) assms(11) by (simp add: lib_rest_def)
  with joined_release [OF w3 refl _ _ _] d2 s3(3) obtain s4 s5 where
    "pthread_exited K (p_pid (descr s3 n)) s3 = Some (Ret (), s4)" "pthread_handle_free K n s4 = Some s5"
    "klog s5 = klog s3 @ [unmap_of K n]" "mgr_wf K s5 ths zs" "\<not> slot K s5 n" by auto
  moreover have "sigmask (started K n s1) n = sigmask s self" using f(7) by (simp add: started_def)
  ultimately show ?thesis using c s2(1) s3 by (auto simp: handle_request_def)
qed

theorem thread_life_cycle_witness:
  "\<exists>n s1 s2 s3. pthread_create (manager_env prompt_env easy_kern
        \<lparr>i_others = id, i_select = 1, i_ppid = 100, i_children = []\<rparr>) easy_kern 0x8000 None 0x400 7 one_thread =
      Some (Ret (0, Some n), s1) \<and>
    pthread_start_thread prompt_env easy_kern n s1 = Some (Exit 0, s2) \<and>
    pthread_join prompt_env 0x8000 n True s2 =
      Some (Ret (0, Some (fst (call_env prompt_env 0x400 7 (started easy_kern n s1)))), s3)"
proof -
  let ?i = "\<lparr>i_others = id, i_select = 1, i_ppid = 100, i_children = []\<rparr>"
  have "clone_env easy_kern t u \<noteq> - 1" for t u by (simp add: easy_kern_def)
  moreover have "0x8000 \<in> set (main_thread one_thread # [0xbf9ffd80])" "0x8000 \<noteq> manager_thread one_thread"
    "\<not> p_signal_jmp (descr one_thread 0x8000)" "manager_request one_thread \<ge> 0" "reqs one_thread = []"
    "\<not> terminated_children one_thread" "\<not> main_thread_exiting one_thread"
    by (simp_all add: one_thread_def zero_st_def zero_descr_def)
  moreover have "by_request ?i" by (simp add: by_request_def)
  ultimately show ?thesis
    using thread_life_cycle [OF one_thread_wf one_thread_room, of "0x8000" ?i prompt_env "0x400" 7 prompt_env]
      well_behaved_prompt by blast
qed

end
